(* ===== verification/Auri_Prelude.thy ===== *)
theory Auri_Prelude
  imports Main "HOL-Library.Word" "HOL-Library.Monad_Syntax" "HOL-Library.Signed_Division"
begin

unbundle bit_operations_syntax

text \<open>
  Shared vocabulary of the AuriOS development.

  A C array of known size is a list. Every access goes through \<open>rd\<close>, \<open>wr\<close> (unsigned index),
  \<open>rdi\<close>, \<open>wri\<close> (signed \<open>int\<close> index), which are \<open>None\<close> when the index is outside the array.
  \<open>None\<close> is therefore the model's value for "the code leaves defined behaviour here": an access
  outside an object, a dereference of \<open>NULL\<close>, a signed overflow (\<open>c_int\<close>). A theorem that an
  operation returns \<open>Some\<close> is a memory-safety theorem.

  A C string is a position in such an array; \<open>str_at s p cs\<close> says that the bytes \<open>cs\<close> and then
  the terminator stand at position \<open>p\<close> of \<open>s\<close>. \<open>char\<close> is signed on the target (gcc and
  clang for i386), so comparisons of characters read the byte with \<open>sint\<close>.
\<close>

type_synonym byte = "8 word"
type_synonym buf = "byte list"
type_synonym u16 = "16 word"
type_synonym u32 = "32 word"
type_synonym u64 = "64 word"

named_theorems str_intros \<comment> \<open>introduction rules for strings in buffers\<close>
named_theorems str_simps \<comment> \<open>rewriting reads of strings in buffers\<close>

declare Option.bind_cong [fundef_cong]

section \<open>Checked array access\<close>

definition rd :: "'a list \<Rightarrow> nat \<Rightarrow> 'a option" where
  "rd b i = (if i < length b then Some (b ! i) else None)"

definition wr :: "'a list \<Rightarrow> nat \<Rightarrow> 'a \<Rightarrow> 'a list option" where
  "wr b i v = (if i < length b then Some (b[i := v]) else None)"

definition rdi :: "'a list \<Rightarrow> int \<Rightarrow> 'a option" where
  "rdi b i = (if 0 \<le> i then rd b (nat i) else None)"

definition wri :: "'a list \<Rightarrow> int \<Rightarrow> 'a \<Rightarrow> 'a list option" where
  "wri b i v = (if 0 \<le> i then wr b (nat i) v else None)"

lemma rd_Some_conv: "rd b i = Some v \<longleftrightarrow> i < length b \<and> b ! i = v"
  by (simp add: rd_def)

lemma rd_in [simp]: "i < length b \<Longrightarrow> rd b i = Some (b ! i)"
  by (simp add: rd_def)

lemma rd_out [simp]: "length b \<le> i \<Longrightarrow> rd b i = None"
  by (simp add: rd_def)

lemma wr_in [simp]: "i < length b \<Longrightarrow> wr b i v = Some (b[i := v])"
  by (simp add: wr_def)

lemma wr_out [simp]: "length b \<le> i \<Longrightarrow> wr b i v = None"
  by (simp add: wr_def)

lemma wr_Some_conv: "wr b i v = Some b' \<longleftrightarrow> i < length b \<and> b' = b[i := v]"
  by (auto simp: wr_def)

lemma rdi_nat [simp]: "rdi b (int i) = rd b i"
  by (simp add: rdi_def)

lemma wri_nat [simp]: "wri b (int i) v = wr b i v"
  by (simp add: wri_def)

lemma rdi_neg [simp]: "i < 0 \<Longrightarrow> rdi b i = None"
  by (simp add: rdi_def)

lemma wri_neg [simp]: "i < 0 \<Longrightarrow> wri b i v = None"
  by (simp add: wri_def)

lemma rd_update: "rd (b[i := v]) j = (if i = j \<and> i < length b then Some v else rd b j)"
  by (auto simp: rd_def nth_list_update)

lemma rd_update_neq [simp]: "i \<noteq> j \<Longrightarrow> rd (b[i := v]) j = rd b j"
  by (simp add: rd_update)

lemma length_wr: "wr b i v = Some b' \<Longrightarrow> length b' = length b"
  by (auto simp: wr_Some_conv)

section \<open>Overwriting a range of an array\<close>

definition overwrite :: "'a list \<Rightarrow> nat \<Rightarrow> 'a list \<Rightarrow> 'a list" where
  "overwrite s p xs = take p s @ xs @ drop (p + length xs) s"

lemma overwrite_Nil [simp]: "overwrite s p [] = s"
  by (simp add: overwrite_def)

lemma length_overwrite [simp]: "p + length xs \<le> length s \<Longrightarrow> length (overwrite s p xs) = length s"
  by (simp add: overwrite_def)

lemma overwrite_Cons: "p < length s \<Longrightarrow> overwrite (s[p := v]) (Suc p) xs = overwrite s p (v # xs)"
  by (simp add: overwrite_def take_Suc_conv_app_nth)

lemma overwrite_single: "p < length s \<Longrightarrow> overwrite s p [v] = s[p := v]"
  by (simp add: overwrite_def upd_conv_take_nth_drop)

lemma rd_overwrite:
  "p + length xs \<le> length s \<Longrightarrow>
   rd (overwrite s p xs) i = (if p \<le> i \<and> i < p + length xs then Some (xs ! (i - p)) else rd s i)"
  by (auto simp: overwrite_def rd_def nth_append min_def)

lemma overwrite_snoc:
  "p + length xs < length s \<Longrightarrow> overwrite (s[p + length xs := v]) p xs = overwrite s p (xs @ [v])"
  by (intro nth_equalityI) (auto simp: overwrite_def nth_append nth_list_update min_def)

lemma overwrite_append:
  "p + length xs + length ys \<le> length s \<Longrightarrow>
   overwrite (overwrite s p xs) (p + length xs) ys = overwrite s p (xs @ ys)"
  by (auto simp: overwrite_def min_def ac_simps) (cases xs; simp)

section \<open>Checked signed arithmetic\<close>

text \<open>The value of an \<open>int\<close> computation, \<open>None\<close> on signed overflow.\<close>

definition INT_MAX :: int where "INT_MAX = 2147483647"
definition INT_MIN :: int where "INT_MIN = -2147483648"

definition c_int :: "int \<Rightarrow> int option" where
  "c_int x = (if INT_MIN \<le> x \<and> x \<le> INT_MAX then Some x else None)"

lemma c_int_in [simp]: "INT_MIN \<le> x \<Longrightarrow> x \<le> INT_MAX \<Longrightarrow> c_int x = Some x"
  by (simp add: c_int_def)

lemma c_int_Some_conv: "c_int x = Some y \<longleftrightarrow> y = x \<and> INT_MIN \<le> x \<and> x \<le> INT_MAX"
  by (auto simp: c_int_def)

section \<open>Characters and strings\<close>

text \<open>The bytes of a string literal, without its terminator.\<close>

definition lit :: "string \<Rightarrow> byte list" where
  "lit s = map of_char s"

definition chb :: "char \<Rightarrow> byte" where
  "chb c = of_char c"

primrec str_at :: "buf \<Rightarrow> nat \<Rightarrow> byte list \<Rightarrow> bool" where
  "str_at s p [] \<longleftrightarrow> rd s p = Some 0"
| "str_at s p (c # cs) \<longleftrightarrow> c \<noteq> 0 \<and> rd s p = Some c \<and> str_at s (Suc p) cs"

lemma str_at_iff:
  "str_at s p cs \<longleftrightarrow>
     0 \<notin> set cs \<and> p + length cs < length s \<and> take (length cs) (drop p s) = cs \<and> s ! (p + length cs) = 0"
proof (induction cs arbitrary: p)
  case Nil
  then show ?case by (auto simp: rd_Some_conv)
next
  case (Cons c cs)
  have "take (Suc (length cs)) (drop p s) = c # cs \<longleftrightarrow> s ! p = c \<and> take (length cs) (drop (Suc p) s) = cs"
    if "p < length s"
    using that by (simp add: Cons_nth_drop_Suc [symmetric])
  then show ?case
    by (auto simp: Cons.IH rd_Some_conv)
qed

lemma str_at_length: "str_at s p cs \<Longrightarrow> p + length cs < length s"
  by (simp add: str_at_iff)

lemma str_at_nonzero: "str_at s p cs \<Longrightarrow> 0 \<notin> set cs"
  by (simp add: str_at_iff)

lemma str_at_nth [str_simps]: "str_at s p cs \<Longrightarrow> i < length cs \<Longrightarrow> rd s (p + i) = Some (cs ! i)"
  by (auto simp: str_at_iff rd_Some_conv) (metis add_lessD1 less_imp_le_nat nth_drop nth_take)

lemma str_at_end [str_simps]: "str_at s p cs \<Longrightarrow> rd s (p + length cs) = Some 0"
  by (simp add: str_at_iff rd_Some_conv)

lemma str_at_drop: "str_at s p cs \<Longrightarrow> k \<le> length cs \<Longrightarrow> str_at s (p + k) (drop k cs)"
  by (auto simp: str_at_iff dest: in_set_dropD) (metis add.commute drop_drop drop_take)

lemma str_at_unique: "str_at s p cs \<Longrightarrow> str_at s p ds \<Longrightarrow> cs = ds"
proof (induction cs arbitrary: p ds)
  case Nil
  then show ?case by (cases ds) auto
next
  case (Cons c cs)
  then show ?case by (cases ds) auto
qed

lemma str_at_update_outside:
  "str_at s p cs \<Longrightarrow> i < p \<or> p + length cs < i \<Longrightarrow> str_at (s[i := v]) p cs"
  by (induction cs arbitrary: p) auto

lemma str_at_cong:
  "str_at s p cs \<Longrightarrow> (\<And>i. p \<le> i \<Longrightarrow> i \<le> p + length cs \<Longrightarrow> rd t i = rd s i) \<Longrightarrow> str_at t p cs"
proof (induction cs arbitrary: p)
  case (Cons c cs)
  then show ?case by fastforce
qed simp

lemma str_at_0_iff: "str_at s 0 cs \<longleftrightarrow> 0 \<notin> set cs \<and> (\<exists>rest. s = cs @ 0 # rest)"
proof
  assume "str_at s 0 cs"
  then have z: "0 \<notin> set cs" and l: "length cs < length s" and t: "take (length cs) s = cs"
    and e: "s ! length cs = 0"
    by (auto simp: str_at_iff)
  have "s = take (length cs) s @ s ! length cs # drop (Suc (length cs)) s"
    using l by (rule id_take_nth_drop)
  then have "s = cs @ 0 # drop (Suc (length cs)) s"
    using t e by simp
  with z show "0 \<notin> set cs \<and> (\<exists>rest. s = cs @ 0 # rest)" by blast
qed (auto simp: str_at_iff)

lemma str_at_intro [str_intros]:
  "0 \<notin> set cs \<Longrightarrow> length pre = p \<Longrightarrow> str_at (pre @ cs @ 0 # rest) p cs"
  by (auto simp: str_at_iff nth_append)

lemma str_at_ex: "0 \<in> set (drop p s) \<Longrightarrow> \<exists>cs. str_at s p cs"
proof (induction "length s - p" arbitrary: p)
  case 0
  then show ?case by simp
next
  case (Suc n)
  then have p: "p < length s" by auto
  show ?case
  proof (cases "s ! p = 0")
    case True
    then have "str_at s p []" using p by simp
    then show ?thesis by blast
  next
    case False
    with Suc.prems p have "0 \<in> set (drop (Suc p) s)"
      by (simp add: Cons_nth_drop_Suc [symmetric])
    with Suc.hyps obtain cs where "str_at s (Suc p) cs"
      by (metis Suc_diff_Suc p diff_Suc_1')
    then have "str_at s p (s ! p # cs)" using False p by simp
    then show ?thesis by blast
  qed
qed

lemma str_at_overwrite:
  "0 \<notin> set cs \<Longrightarrow> p + length cs < length s \<Longrightarrow> str_at (overwrite s p (cs @ [0])) p cs"
  by (auto simp: str_at_iff overwrite_def nth_append min_def)

lemma str_at_overwrite_prefix:
  "str_at s p cs \<Longrightarrow> 0 \<notin> set ds \<Longrightarrow> p + length cs + length ds < length s \<Longrightarrow>
   str_at (overwrite s (p + length cs) (ds @ [0])) p (cs @ ds)"
  by (auto simp: str_at_iff overwrite_def nth_append min_def take_drop add.commute)

section \<open>Counting loops\<close>

text \<open>\<open>for (i = a; i < n; i++) body\<close>, where the body may fault.\<close>

function for_upto :: "nat \<Rightarrow> nat \<Rightarrow> (nat \<Rightarrow> 's \<Rightarrow> 's option) \<Rightarrow> 's \<Rightarrow> 's option" where
  "for_upto i n body s =
     (if i < n then do { s' \<leftarrow> body i s; for_upto (Suc i) n body s' } else Some s)"
  by pat_completeness auto
termination
  by (relation "measure (\<lambda>(i, n, body, s). n - i)") auto

declare for_upto.simps [simp del]

lemma for_upto_done [simp]: "n \<le> i \<Longrightarrow> for_upto i n body s = Some s"
  by (subst for_upto.simps) simp

lemma for_upto_step: "i < n \<Longrightarrow> for_upto i n body s = do { s' \<leftarrow> body i s; for_upto (Suc i) n body s' }"
  by (subst for_upto.simps) simp

text \<open>The loop rule: an invariant indexed by the counter.\<close>

lemma for_upto_inv:
  assumes "i \<le> n" and "I i s"
    and "\<And>j s. i \<le> j \<Longrightarrow> j < n \<Longrightarrow> I j s \<Longrightarrow> \<exists>s'. body j s = Some s' \<and> I (Suc j) s'"
  shows "\<exists>s'. for_upto i n body s = Some s' \<and> I n s'"
  using assms
proof (induction "n - i" arbitrary: i s)
  case 0
  then show ?case by simp
next
  case (Suc k)
  then have "i < n" by simp
  with Suc.prems obtain s1 where s1: "body i s = Some s1" "I (Suc i) s1" by blast
  have "\<exists>s'. for_upto (Suc i) n body s1 = Some s' \<and> I n s'"
    using Suc.hyps Suc.prems \<open>i < n\<close> s1 by (intro Suc.hyps(1)) auto
  then show ?case using \<open>i < n\<close> s1 by (simp add: for_upto_step)
qed

section \<open>Writing a sequence of characters\<close>

primrec puts :: "(byte \<Rightarrow> 's \<Rightarrow> 's option) \<Rightarrow> byte list \<Rightarrow> 's \<Rightarrow> 's option" where
  "puts putc [] s = Some s"
| "puts putc (c # cs) s = do { s' \<leftarrow> putc c s; puts putc cs s' }"

lemma puts_append: "puts putc (cs @ ds) s = do { s' \<leftarrow> puts putc cs s; puts putc ds s' }"
  by (induction cs arbitrary: s) (auto split: bind_splits)

text \<open>\<open>for (i = 0; i < n; i++) putc(s[p + i])\<close> writes the string.\<close>

lemma for_upto_puts:
  "str_at s p cs \<Longrightarrow> i \<le> length cs \<Longrightarrow>
   for_upto i (length cs) (\<lambda>i t. do { c \<leftarrow> rd s (p + i); putc c t }) t = puts putc (drop i cs) t"
proof (induction "length cs - i" arbitrary: i t)
  case 0
  then show ?case by simp
next
  case (Suc k)
  then have i: "i < length cs" by simp
  have IH: "for_upto (Suc i) (length cs) (\<lambda>i t. do { c \<leftarrow> rd s (p + i); putc c t }) t' = puts putc (drop (Suc i) cs) t'" for t'
    using Suc.hyps Suc.prems i by simp
  show ?case
    using i str_at_nth [OF Suc.prems(1) i]
    by (simp add: for_upto_step IH Cons_nth_drop_Suc [symmetric])
qed

text \<open>A character device: every byte is accepted and the device's invariant is kept.\<close>

locale console =
  fixes putc :: "byte \<Rightarrow> 's \<Rightarrow> 's option" and ok :: "'s \<Rightarrow> bool"
  assumes putc_law: "ok s \<Longrightarrow> \<exists>s'. putc c s = Some s' \<and> ok s'"
begin

lemma puts_ok: "ok s \<Longrightarrow> \<exists>s'. puts putc cs s = Some s' \<and> ok s'"
proof (induction cs arbitrary: s)
  case (Cons c cs)
  then obtain s1 where "putc c s = Some s1" "ok s1" using putc_law by blast
  then show ?case using Cons.IH by simp
qed simp

end

end
