(* ===== verification/C_Memory.thy ===== *)
theory C_Memory
  imports Auri_Prelude
begin

text \<open>
  The byte copying and comparing functions of src/lib/memory.c over a flat memory: a function from
  32-bit addresses to bytes, with pointers as words that wrap around. A loop \<open>while (n--)\<close> recurses on
  the count. A function that returns its destination gives back the memory only.
\<close>

type_synonym mem = "u32 \<Rightarrow> byte"

section \<open>The functions\<close>

primrec memset_loop :: "nat \<Rightarrow> u32 \<Rightarrow> byte \<Rightarrow> mem \<Rightarrow> mem" where
  "memset_loop 0 p c m = m" |
  "memset_loop (Suc n) p c m = memset_loop n (p + 1) c (m(p := c))"

definition memset :: "u32 \<Rightarrow> int \<Rightarrow> u32 \<Rightarrow> mem \<Rightarrow> mem" where
  "memset ptr c sz m = memset_loop (unat sz) ptr (word_of_int c) m"

primrec memcmp_loop :: "nat \<Rightarrow> u32 \<Rightarrow> u32 \<Rightarrow> mem \<Rightarrow> int" where
  "memcmp_loop 0 p q m = 0" |
  "memcmp_loop (Suc n) p q m =
     (if m p \<noteq> m q then (if m p < m q then -1 else 1) else memcmp_loop n (p + 1) (q + 1) m)"

definition memcmp :: "u32 \<Rightarrow> u32 \<Rightarrow> u32 \<Rightarrow> mem \<Rightarrow> int" where
  "memcmp s1 s2 count m = memcmp_loop (unat count) s1 s2 m"

primrec memcpy_loop :: "nat \<Rightarrow> u32 \<Rightarrow> u32 \<Rightarrow> mem \<Rightarrow> mem" where
  "memcpy_loop 0 d s m = m" |
  "memcpy_loop (Suc n) d s m = memcpy_loop n (d + 1) (s + 1) (m(d := m s))"

definition memcpy :: "u32 \<Rightarrow> u32 \<Rightarrow> u32 \<Rightarrow> mem \<Rightarrow> mem" where
  "memcpy dest src len m = memcpy_loop (unat len) dest src m"

primrec memmove_loop :: "nat \<Rightarrow> u32 \<Rightarrow> u32 \<Rightarrow> mem \<Rightarrow> mem" where
  "memmove_loop 0 d s m = m" |
  "memmove_loop (Suc n) d s m = memmove_loop n (d - 1) (s - 1) (m(d - 1 := m (s - 1)))"

definition memmove :: "u32 \<Rightarrow> u32 \<Rightarrow> u32 \<Rightarrow> mem \<Rightarrow> mem" where
  "memmove dest src n m =
     (if dest = src then m
      else if dest < src then memcpy dest src n m
      else memmove_loop (unat n) (dest + n) (src + n) m)"

text \<open>\<open>memccpy\<close> returns the address after the copied byte \<open>c\<close>, or NULL.\<close>

primrec memccpy_loop :: "nat \<Rightarrow> u32 \<Rightarrow> u32 \<Rightarrow> byte \<Rightarrow> mem \<Rightarrow> mem \<times> u32" where
  "memccpy_loop 0 d s uc m = (m, 0)" |
  "memccpy_loop (Suc n) d s uc m =
     (let m' = m(d := m s) in
      if m' s = uc then (m', d + 1) else memccpy_loop n (d + 1) (s + 1) uc m')"

definition memccpy :: "u32 \<Rightarrow> u32 \<Rightarrow> int \<Rightarrow> u32 \<Rightarrow> mem \<Rightarrow> mem \<times> u32" where
  "memccpy dest src c n m = memccpy_loop (unat n) dest src (word_of_int c) m"

section \<open>What they do\<close>

text \<open>An address of the region of \<open>n\<close> bytes at \<open>p\<close>, and its offset there.\<close>

definition within :: "u32 \<Rightarrow> nat \<Rightarrow> u32 \<Rightarrow> bool" where
  "within p n a \<longleftrightarrow> unat p \<le> unat a \<and> unat a < unat p + n"

lemma unat_Suc: "unat (p :: u32) + Suc n \<le> 4294967296 \<Longrightarrow> 0 < n \<Longrightarrow> unat (p + 1) = Suc (unat p)"
  by (simp add: unat_word_ariths)

lemma within_Suc:
  assumes "unat p + Suc n \<le> 4294967296"
  shows "within p (Suc n) a \<longleftrightarrow> a = p \<or> within (p + 1) n a"
proof (cases n)
  case 0
  then show ?thesis by (auto simp: within_def word_unat_eq_iff)
next
  case (Suc k)
  then show ?thesis using unat_Suc [OF assms] by (auto simp: within_def word_unat_eq_iff)
qed

lemma within_first: "unat p + Suc n \<le> 4294967296 \<Longrightarrow> \<not> within (p + 1) n p"
  by (cases n) (simp_all add: within_def unat_word_ariths)

lemma unat_offset: "within p n a \<Longrightarrow> unat (a - p) = unat a - unat p"
  by (simp add: within_def unat_sub_if_size)

lemma shifted:
  assumes "within d n a" "unat s + n \<le> 4294967296"
  shows "unat (s + (a - d)) = unat s + (unat a - unat d)"
proof -
  have "unat s + unat (a - d) < 4294967296" using assms unat_offset [OF assms(1)] unfolding within_def by linarith
  then have "unat (s + (a - d)) = unat s + unat (a - d)" by (simp only: unat_word_ariths) simp
  then show ?thesis using unat_offset [OF assms(1)] by simp
qed

lemma memset_spec:
  assumes "unat p + unat n \<le> 4294967296"
  shows "memset p c n m a = (if within p (unat n) a then word_of_int c else m a)"
proof -
  have "memset_loop k p c m a = (if within p k a then c else m a)" if "unat p + k \<le> 4294967296" for k p c and m :: mem
    using that
  proof (induction k arbitrary: p m)
    case 0
    then show ?case by (auto simp: within_def)
  next
    case (Suc k)
    show ?case
    proof (cases "k = 0")
      case True
      then show ?thesis using within_Suc [OF Suc.prems, of a] by (auto simp: within_def)
    next
      case False
      then have "unat (p + 1) + k \<le> 4294967296" using Suc.prems unat_Suc [of p k] by simp
      from Suc.IH [OF this] show ?thesis
        by (simp only: memset_loop.simps within_Suc [OF Suc.prems]) simp
    qed
  qed
  then show ?thesis using assms by (simp add: memset_def)
qed

lemma memcpy_loop_spec:
  assumes "unat d + n \<le> 4294967296" "unat s + n \<le> 4294967296" "unat d \<le> unat s \<or> unat s + n \<le> unat d"
  shows "memcpy_loop n d s m a = (if within d n a then m (s + (a - d)) else m a)"
  using assms
proof (induction n arbitrary: d s m)
  case 0
  then show ?case by (auto simp: within_def)
next
  case (Suc n)
  show ?case
  proof (cases "n = 0")
    case True
    then show ?thesis using within_Suc [OF Suc.prems(1), of a] by (auto simp: within_def)
  next
    case False
    have u: "unat (d + 1) = Suc (unat d)" "unat (s + 1) = Suc (unat s)"
      using False Suc.prems unat_Suc [of d n] unat_Suc [of s n] by simp_all
    have "memcpy_loop n (d + 1) (s + 1) (m(d := m s)) a =
        (if within (d + 1) n a then (m(d := m s)) (s + 1 + (a - (d + 1))) else (m(d := m s)) a)"
      using u Suc.prems by (intro Suc.IH) auto
    moreover have "s + 1 + (a - (d + 1)) = s + (a - d)" by simp
    moreover have "s + (a - d) \<noteq> d" if w: "within (d + 1) n a"
    proof -
      have "within d (Suc n) a" using w within_Suc [OF Suc.prems(1)] by simp
      from shifted [OF this Suc.prems(2)] have "unat (s + (a - d)) = unat s + (unat a - unat d)" .
      then have "unat (s + (a - d)) \<noteq> unat d" using w u Suc.prems(3) by (auto simp: within_def)
      then show ?thesis by (metis)
    qed
    ultimately show ?thesis
      using within_Suc [OF Suc.prems(1), of a] within_first [OF Suc.prems(1)] by auto
  qed
qed

lemma memmove_loop_spec:
  assumes "n \<le> unat d" "n \<le> unat s" "unat s \<le> unat d"
  shows "memmove_loop n d s m a =
    (if unat d - n \<le> unat a \<and> unat a < unat d then m (s - (d - a)) else m a)"
  using assms
proof (induction n arbitrary: d s m)
  case 0
  then show ?case by auto
next
  case (Suc n)
  have u: "unat (d - 1) = unat d - 1" "unat (s - 1) = unat s - 1"
    using Suc.prems by (simp_all add: unat_sub_if_size)
  have "memmove_loop n (d - 1) (s - 1) (m(d - 1 := m (s - 1))) a =
      (if unat (d - 1) - n \<le> unat a \<and> unat a < unat (d - 1)
       then (m(d - 1 := m (s - 1))) (s - 1 - (d - 1 - a)) else (m(d - 1 := m (s - 1))) a)"
    using u Suc.prems by (intro Suc.IH) auto
  moreover have "s - 1 - (d - 1 - a) = s - (d - a)" by simp
  moreover have "s - (d - a) \<noteq> d - 1" if w: "unat (d - 1) - n \<le> unat a" "unat a < unat (d - 1)"
  proof -
    have "unat (d - a) = unat d - unat a" using w u by (simp add: unat_sub_if_size)
    moreover have "unat d - unat a \<le> unat s" using w u Suc.prems by simp
    ultimately have "unat (s - (d - a)) = unat s - (unat d - unat a)" by (simp add: unat_sub_if_size)
    then have "unat (s - (d - a)) \<noteq> unat (d - 1)" using w u Suc.prems by simp
    then show ?thesis by metis
  qed
  moreover have "a = d - 1 \<longleftrightarrow> unat a = unat d - 1" using u by (metis word_unat_eq_iff)
  moreover have "s - (d - (d - 1)) = s - 1" "s - (d - a) = s + (a - d)" "s + (a - d) = s + a - d" by simp_all
  ultimately have "memmove_loop n (d - 1) (s - 1) (m(d - 1 := m (s - 1))) a =
      (if unat d - Suc n \<le> unat a \<and> unat a < unat d then m (s - (d - a)) else m a)"
    using u Suc.prems by (cases "a = d - 1") (auto intro!: arg_cong [of _ _ m])
  then show ?case by simp
qed

text \<open>Regions may overlap in any way.\<close>

lemma memmove_spec:
  assumes "unat dest + unat n \<le> 4294967295" "unat src + unat n \<le> 4294967295"
  shows "memmove dest src n m a = (if within dest (unat n) a then m (src + (a - dest)) else m a)"
proof -
  consider "dest = src" | "dest < src" | "src < dest" by fastforce
  then show ?thesis
  proof cases
    case 1
    then show ?thesis by (simp add: memmove_def)
  next
    case 2
    then show ?thesis using memcpy_loop_spec [of dest "unat n" src m a] assms
      by (simp add: memmove_def memcpy_def word_less_nat_alt)
  next
    case 3
    have u: "unat (dest + n) = unat dest + unat n" "unat (src + n) = unat src + unat n"
      using assms by (simp_all add: unat_word_ariths)
    have "src + n - (dest + n - a) = src + (a - dest)" by simp
    then show ?thesis using 3 memmove_loop_spec [of "unat n" "dest + n" "src + n" m a] u
      by (auto simp: memmove_def within_def word_less_nat_alt)
  qed
qed

text \<open>Comparison: equality of the regions, and the order of the first difference.\<close>

lemma memcmp_loop_spec:
  "(memcmp_loop n p q m = 0 \<longleftrightarrow> (\<forall>i < n. m (p + of_nat i) = m (q + of_nat i))) \<and>
   (i < n \<longrightarrow> (\<forall>j < i. m (p + of_nat j) = m (q + of_nat j)) \<longrightarrow> m (p + of_nat i) \<noteq> m (q + of_nat i) \<longrightarrow>
      memcmp_loop n p q m = (if m (p + of_nat i) < m (q + of_nat i) then -1 else 1))"
proof (induction n arbitrary: p q i)
  case 0
  then show ?case by simp
next
  case (Suc n)
  have s: "p + 1 + of_nat j = p + of_nat (Suc j)" for p :: u32 and j by simp
  from Suc.IH [of "p + 1" "q + 1" "i - 1"] show ?case
    unfolding s by (cases i) (auto simp: All_less_Suc2 simp del: of_nat_Suc)
qed

lemma memccpy_loop_spec:
  assumes "unat d + n \<le> 4294967295" "unat s + n \<le> unat d"
    and "i < n" "m (s + of_nat i) = uc" "\<forall>j < i. m (s + of_nat j) \<noteq> uc"
  shows "snd (memccpy_loop n d s uc m) = d + of_nat i + 1"
    and "fst (memccpy_loop n d s uc m) a = (if within d (Suc i) a then m (s + (a - d)) else m a)"
proof -
  have "memccpy_loop n d s uc m = (memcpy_loop (Suc i) d s m, d + of_nat i + 1)"
    using assms
  proof (induction n arbitrary: d s m i)
    case 0
    then show ?case by simp
  next
    case (Suc n)
    have sd: "s \<noteq> d" using Suc.prems by auto
    show ?case
    proof (cases i)
      case 0
      then show ?thesis using Suc.prems sd by (simp add: Let_def fun_upd_def)
    next
      case (Suc k)
      have ne: "m s \<noteq> uc" using Suc.prems(5) Suc by auto
      have n0: "0 < n" using Suc.prems(3) Suc by simp
      have u: "unat (d + 1) = unat d + 1" "unat (s + 1) = unat s + 1"
        using Suc.prems by (simp_all add: unat_word_ariths)
      let ?m = "m(d := m s)"
      have src: "?m (s + 1 + of_nat j) = m (s + of_nat (Suc j))" if "j < n" for j
      proof -
        have "unat (s + of_nat (Suc j)) = unat s + Suc j"
          using that Suc.prems by (simp add: unat_word_ariths unat_of_nat take_bit_nat_eq_self del: of_nat_Suc)
        then have "unat (s + of_nat (Suc j)) \<noteq> unat d" using that Suc.prems by simp
        then have "s + of_nat (Suc j) \<noteq> d" by metis
        moreover have "s + 1 + of_nat j = s + of_nat (Suc j)" by simp
        ultimately show ?thesis by (simp only: fun_upd_def if_False)
      qed
      have "memccpy_loop n (d + 1) (s + 1) uc ?m = (memcpy_loop (Suc k) (d + 1) (s + 1) ?m, d + 1 + of_nat k + 1)"
      proof (rule Suc.IH)
        show "k < n" using Suc.prems(3) Suc by simp
        then show "?m (s + 1 + of_nat k) = uc" using src [of k] Suc.prems(4) Suc by simp
        show "\<forall>j<k. ?m (s + 1 + of_nat j) \<noteq> uc"
        proof (intro allI impI)
          fix j assume j: "j < k"
          then have "m (s + of_nat (Suc j)) \<noteq> uc" using Suc.prems(5) Suc by blast
          then show "?m (s + 1 + of_nat j) \<noteq> uc" using src [OF less_trans [OF j \<open>k < n\<close>]] by metis
        qed
        show "unat (d + 1) + n \<le> 4294967295" "unat (s + 1) + n \<le> unat (d + 1)"
          using u Suc.prems(1,2) by linarith+
      qed
      then show ?thesis using ne sd Suc by (simp add: Let_def)
    qed
  qed
  moreover have "memcpy_loop (Suc i) d s m a = (if within d (Suc i) a then m (s + (a - d)) else m a)"
    using assms by (intro memcpy_loop_spec) auto
  ultimately show "snd (memccpy_loop n d s uc m) = d + of_nat i + 1"
    "fst (memccpy_loop n d s uc m) a = (if within d (Suc i) a then m (s + (a - d)) else m a)" by simp_all
qed

section \<open>Properties\<close>

text \<open>C39: memmove copies the n bytes of the source as they were before the call, also when the two regions
  overlap in any way, and changes no other byte.\<close>

theorem memmove_correct:
  assumes "unat dest + unat n \<le> 4294967295" "unat src + unat n \<le> 4294967295"
  shows "memmove dest src n m a = (if within dest (unat n) a then m (src + (a - dest)) else m a)"
  using assms by (rule memmove_spec)

theorem memmove_correct_witness:
  "memmove 0x102 0x100 4 (\<lambda>a. ucast a) 0x105 = 3 \<and> memmove 0x100 0x102 4 (\<lambda>a. ucast a) 0x100 = 2"
proof -
  have "unat (0x102 :: u32) + unat (4 :: u32) \<le> 4294967295" "unat (0x100 :: u32) + unat (4 :: u32) \<le> 4294967295" by simp_all
  then show ?thesis
    using memmove_correct [of "0x102" 4 "0x100" "\<lambda>a. ucast a" "0x105"] memmove_correct [of "0x100" 4 "0x102" "\<lambda>a. ucast a" "0x100"]
    by (simp add: within_def)
qed

text \<open>memcmp returns 0 exactly when the two regions hold the same bytes, and otherwise the order of the
  first bytes that differ.\<close>

theorem memcmp_correct:
  "(memcmp p q n m = 0 \<longleftrightarrow> (\<forall>i < unat n. m (p + of_nat i) = m (q + of_nat i))) \<and>
   (\<forall>i. i < unat n \<and> (\<forall>j < i. m (p + of_nat j) = m (q + of_nat j)) \<and> m (p + of_nat i) \<noteq> m (q + of_nat i) \<longrightarrow>
      memcmp p q n m = (if m (p + of_nat i) < m (q + of_nat i) then -1 else 1))"
  using memcmp_loop_spec [of "unat n" p q m] by (simp add: memcmp_def)

theorem memcmp_correct_witness: "memcmp 0 4 2 (\<lambda>a. if a = 5 then 1 else 0) = -1"
proof -
  let ?m = "\<lambda>a :: u32. if a = 5 then (1 :: byte) else 0"
  have "1 < unat (2 :: u32) \<and> (\<forall>j < 1. ?m (0 + of_nat j) = ?m (4 + of_nat j)) \<and> ?m (0 + of_nat 1) \<noteq> ?m (4 + of_nat 1)" by simp
  then have "memcmp 0 4 2 ?m = (if ?m (0 + of_nat 1) < ?m (4 + of_nat 1) then -1 else 1)"
    using memcmp_correct [of 0 4 2 ?m] by blast
  then show ?thesis by simp
qed

end
