(* ===== verification/C_String.thy ===== *)
theory C_String
  imports Auri_Prelude
begin

text \<open>
  src/lib/string.c. A \<open>char *\<close> argument is a buffer and an offset into it; a function that writes
  through a pointer returns the new buffer. Source and destination are distinct objects, as at
  every call site. The definitions perform the same reads and writes in the same order as the
  loops of the source, so \<open>None\<close> is exactly a run that leaves one of the two objects.
\<close>

section \<open>Definitions\<close>

function strlen_loop :: "buf \<Rightarrow> nat \<Rightarrow> nat \<Rightarrow> nat option" where
  "strlen_loop s p len = do {
     c \<leftarrow> rd s (p + len);
     if c \<noteq> 0 then strlen_loop s p (Suc len) else Some len }"
  by pat_completeness auto
termination
  by (relation "measure (\<lambda>(s, p, len). length s - (p + len))") (auto simp: rd_Some_conv)

definition strlen :: "buf \<Rightarrow> nat \<Rightarrow> nat option" where
  "strlen s p = strlen_loop s p 0"

function strcmp :: "buf \<Rightarrow> nat \<Rightarrow> buf \<Rightarrow> nat \<Rightarrow> int option" where
  "strcmp s1 p1 s2 p2 = do {
     a \<leftarrow> rd s1 p1;
     b \<leftarrow> rd s2 p2;
     if a \<noteq> 0 \<and> a = b then strcmp s1 (Suc p1) s2 (Suc p2) else Some (sint a - sint b) }"
  by pat_completeness auto
termination
  by (relation "measure (\<lambda>(s1, p1, s2, p2). length s1 - p1)") (auto simp: rd_Some_conv)

function strncmp_loop :: "buf \<Rightarrow> nat \<Rightarrow> buf \<Rightarrow> nat \<Rightarrow> nat \<Rightarrow> nat \<Rightarrow> int option" where
  "strncmp_loop s1 p1 s2 p2 n i = do {
     a \<leftarrow> rd s1 (p1 + i);
     b \<leftarrow> rd s2 (p2 + i);
     if i < n - 1 \<and> a = b \<and> b \<noteq> 0 then strncmp_loop s1 p1 s2 p2 n (Suc i)
     else Some (sint a - sint b) }"
  by pat_completeness auto
termination
  by (relation "measure (\<lambda>(s1, p1, s2, p2, n, i). n - i)") auto

definition strncmp :: "buf \<Rightarrow> nat \<Rightarrow> buf \<Rightarrow> nat \<Rightarrow> nat \<Rightarrow> int option" where
  "strncmp s1 p1 s2 p2 n = (if n = 0 then Some 0 else strncmp_loop s1 p1 s2 p2 n 0)"

text \<open>\<open>while (dest[a] != 0) a++\<close>, the first loop of both \<open>strcat\<close> and \<open>strncat\<close>, is \<open>strlen\<close>'s loop.\<close>

function strcat_loop :: "buf \<Rightarrow> nat \<Rightarrow> nat \<Rightarrow> buf \<Rightarrow> nat \<Rightarrow> nat \<Rightarrow> buf option" where
  "strcat_loop dest d a src p b = do {
     c \<leftarrow> rd src (p + b);
     if c \<noteq> 0 then do {
       dest' \<leftarrow> wr dest (d + a + b) c;
       strcat_loop dest' d a src p (Suc b) }
     else wr dest (d + a + b) 0 }"
  by pat_completeness auto
termination
  by (relation "measure (\<lambda>(dest, d, a, src, p, b). length src - (p + b))") (auto simp: rd_Some_conv)

definition strcat :: "buf \<Rightarrow> nat \<Rightarrow> buf \<Rightarrow> nat \<Rightarrow> (buf \<times> int) option" where
  "strcat dest d src p = do {
     a \<leftarrow> strlen_loop dest d 0;
     dest' \<leftarrow> strcat_loop dest d a src p 0;
     r \<leftarrow> rd dest' d;
     Some (dest', sint r) }"

function strncat_loop :: "buf \<Rightarrow> nat \<Rightarrow> nat \<Rightarrow> buf \<Rightarrow> nat \<Rightarrow> nat \<Rightarrow> nat \<Rightarrow> buf option" where
  "strncat_loop dest d i src p j nb = do {
     c \<leftarrow> rd src (p + j);
     if c \<noteq> 0 \<and> j < nb then do {
       dest' \<leftarrow> wr dest (d + i) c;
       strncat_loop dest' d (Suc i) src p (Suc j) nb }
     else wr dest (d + i) 0 }"
  by pat_completeness auto
termination
  by (relation "measure (\<lambda>(dest, d, i, src, p, j, nb). nb - j)") auto

definition strncat :: "buf \<Rightarrow> nat \<Rightarrow> buf \<Rightarrow> nat \<Rightarrow> nat \<Rightarrow> buf option" where
  "strncat dest d src p nb = do {
     i \<leftarrow> strlen_loop dest d 0;
     strncat_loop dest d i src p 0 nb }"

text \<open>The tests of \<open>str_is_uppercase\<close> and \<open>str_is_lowercase\<close>, on the signed value of the character.\<close>

definition not_upper :: "byte \<Rightarrow> bool" where
  "not_upper c \<longleftrightarrow> sint c < 65 \<or> (sint c > 97 \<and> sint c < 122) \<or> sint c > 90"

definition not_lower :: "byte \<Rightarrow> bool" where
  "not_lower c \<longleftrightarrow> sint c < 97 \<or> (sint c > 65 \<and> sint c < 90) \<or> sint c > 122"

function str_is_uppercase :: "buf \<Rightarrow> nat \<Rightarrow> int option" where
  "str_is_uppercase s i = do {
     c \<leftarrow> rd s i;
     if c \<noteq> 0 then (if not_upper c then Some 0 else str_is_uppercase s (Suc i)) else Some 1 }"
  by pat_completeness auto
termination
  by (relation "measure (\<lambda>(s, i). length s - i)") (auto simp: rd_Some_conv)

function str_is_lowercase :: "buf \<Rightarrow> nat \<Rightarrow> int option" where
  "str_is_lowercase s i = do {
     c \<leftarrow> rd s i;
     if c \<noteq> 0 then (if not_lower c then Some 0 else str_is_lowercase s (Suc i)) else Some 1 }"
  by pat_completeness auto
termination
  by (relation "measure (\<lambda>(s, i). length s - i)") (auto simp: rd_Some_conv)

text \<open>The case conversions write \<open>str[i] + ('A' - 'a')\<close> and \<open>str[i] + ('a' - 'A')\<close> back as a \<open>char\<close>.\<close>

definition upcase_char :: "byte \<Rightarrow> byte" where
  "upcase_char c = (if 97 \<le> sint c \<and> sint c \<le> 122 then word_of_int (sint c + (65 - 97)) else c)"

definition lowcase_char :: "byte \<Rightarrow> byte" where
  "lowcase_char c = (if 65 \<le> sint c \<and> sint c \<le> 90 then word_of_int (sint c + (97 - 65)) else c)"

function strupcase :: "buf \<Rightarrow> nat \<Rightarrow> buf option" where
  "strupcase s i = do {
     c \<leftarrow> rd s i;
     if c \<noteq> 0 then do { s' \<leftarrow> wr s i (upcase_char c); strupcase s' (Suc i) } else Some s }"
  by pat_completeness auto
termination
  by (relation "measure (\<lambda>(s, i). length s - i)") (auto simp: rd_Some_conv wr_Some_conv)

function strlowcase :: "buf \<Rightarrow> nat \<Rightarrow> buf option" where
  "strlowcase s i = do {
     c \<leftarrow> rd s i;
     if c \<noteq> 0 then do { s' \<leftarrow> wr s i (lowcase_char c); strlowcase s' (Suc i) } else Some s }"
  by pat_completeness auto
termination
  by (relation "measure (\<lambda>(s, i). length s - i)") (auto simp: rd_Some_conv wr_Some_conv)

text \<open>The copy loop reads \<open>src[i]\<close> only when \<open>i < size - 1\<close>, as the short-circuit \<open>&&\<close> does.\<close>

function strlcpy_loop :: "buf \<Rightarrow> nat \<Rightarrow> buf \<Rightarrow> nat \<Rightarrow> nat \<Rightarrow> nat \<Rightarrow> buf option" where
  "strlcpy_loop dest d src p sz i =
     (if i < sz - 1 then do {
        c \<leftarrow> rd src (p + i);
        if c \<noteq> 0 then do {
          dest' \<leftarrow> wr dest (d + i) c;
          strlcpy_loop dest' d src p sz (Suc i) }
        else wr dest (d + i) 0 }
      else wr dest (d + i) 0)"
  by pat_completeness auto
termination
  by (relation "measure (\<lambda>(dest, d, src, p, sz, i). sz - i)") auto

definition strlcpy :: "buf \<Rightarrow> nat \<Rightarrow> buf \<Rightarrow> nat \<Rightarrow> nat \<Rightarrow> buf option" where
  "strlcpy dest d src p sz = (if sz = 0 then Some dest else strlcpy_loop dest d src p sz 0)"

definition is_blank :: "byte \<Rightarrow> bool" where
  "is_blank c \<longleftrightarrow> c = 32 \<or> c = 9"

function trim_left :: "buf \<Rightarrow> nat \<Rightarrow> nat option" where
  "trim_left s p = do { c \<leftarrow> rd s p; if is_blank c then trim_left s (Suc p) else Some p }"
  by pat_completeness auto
termination
  by (relation "measure (\<lambda>(s, p). length s - p)") (auto simp: rd_Some_conv)

function trim_right :: "buf \<Rightarrow> nat \<Rightarrow> nat \<Rightarrow> buf option" where
  "trim_right s p e =
     (if e > p then do {
        c \<leftarrow> rd s e;
        if is_blank c then do { s' \<leftarrow> wr s e 0; trim_right s' p (e - 1) } else Some s }
      else Some s)"
  by pat_completeness auto
termination
  by (relation "measure (\<lambda>(s, p, e). e)") auto

text \<open>The argument and the result are pointers into the buffer, \<open>None\<close> for \<open>NULL\<close>.\<close>

definition str_trim :: "buf \<Rightarrow> nat option \<Rightarrow> (buf \<times> nat option) option" where
  "str_trim s str = (case str of
     None \<Rightarrow> Some (s, None)
   | Some p0 \<Rightarrow> do {
       p \<leftarrow> trim_left s p0;
       c \<leftarrow> rd s p;
       if c = 0 then Some (s, Some p)
       else do {
         n \<leftarrow> strlen s p;
         s' \<leftarrow> trim_right s p (p + n - 1);
         Some (s', Some p) } })"

declare strlen_loop.simps [simp del] strcmp.simps [simp del] strncmp_loop.simps [simp del]
  strcat_loop.simps [simp del] strncat_loop.simps [simp del] str_is_uppercase.simps [simp del]
  str_is_lowercase.simps [simp del] strupcase.simps [simp del] strlowcase.simps [simp del]
  strlcpy_loop.simps [simp del] trim_left.simps [simp del] trim_right.simps [simp del]

section \<open>Length\<close>

lemma strlen_loop_str_at:
  "str_at s (p + len) cs \<Longrightarrow> strlen_loop s p len = Some (len + length cs)"
proof (induction cs arbitrary: len)
  case Nil
  then show ?case by (subst strlen_loop.simps) simp
next
  case (Cons c cs)
  then show ?case by (subst strlen_loop.simps) simp
qed

lemma strlen_str_at [str_simps]: "str_at s p cs \<Longrightarrow> strlen s p = Some (length cs)"
  by (simp add: strlen_def strlen_loop_str_at)

lemma strlen_loop_no_nul: "0 \<notin> set (drop (p + len) s) \<Longrightarrow> strlen_loop s p len = None"
proof (induction s p len rule: strlen_loop.induct)
  case (1 s p len)
  then show ?case
    by (subst strlen_loop.simps)
      (cases "p + len < length s"; auto simp: Cons_nth_drop_Suc [symmetric])
qed

section \<open>Comparison\<close>

text \<open>The order of C strings whose characters are signed, the terminator included.\<close>

definition signed_string :: "byte list \<Rightarrow> int list" where
  "signed_string cs = map sint cs @ [0]"

lemma signed_string_simps [simp]:
  "signed_string [] = [0]" "signed_string (c # cs) = sint c # signed_string cs"
  by (simp_all add: signed_string_def)

lemma sint_eq_0_iff_byte [simp]: "sint (c :: byte) = 0 \<longleftrightarrow> c = 0"
  by (metis signed_0 signed_word_eqI)

lemma strcmp_sign:
  assumes "str_at s1 p1 as" and "str_at s2 p2 bs"
  shows "\<exists>r. strcmp s1 p1 s2 p2 = Some r \<and> (r = 0 \<longleftrightarrow> as = bs) \<and>
           (r < 0 \<longleftrightarrow> ord_class.lexordp (signed_string as) (signed_string bs))"
  using assms
proof (induction as arbitrary: p1 p2 bs)
  case Nil
  have "sint b < 0 \<or> 0 < sint b" if "b \<noteq> 0" for b :: byte
    using that sint_eq_0_iff_byte [of b] by linarith
  with Nil show ?case by (subst strcmp.simps) (cases bs; fastforce)
next
  case (Cons a as)
  note IH = Cons.IH
  show ?case
  proof (cases bs)
    case Nil
    then show ?thesis using Cons.prems by (subst strcmp.simps) auto
  next
    case (Cons b bs')
    show ?thesis
    proof (cases "a = b")
      case True
      have "str_at s1 (Suc p1) as" and "str_at s2 (Suc p2) bs'"
        using Cons.prems \<open>bs = b # bs'\<close> by auto
      from IH [OF this] show ?thesis
        using Cons.prems \<open>bs = b # bs'\<close> True by (subst strcmp.simps) auto
    next
      case False
      then have "sint a \<noteq> sint b" using signed_word_eqI by blast
      then show ?thesis
        using Cons.prems \<open>bs = b # bs'\<close> False by (subst strcmp.simps) auto
    qed
  qed
qed

lemma strncmp_loop_zero:
  assumes "str_at s1 (p1 + i) as" and "str_at s2 (p2 + i) bs" and "i < n"
  shows "\<exists>r. strncmp_loop s1 p1 s2 p2 n i = Some r \<and> (r = 0 \<longleftrightarrow> take (n - i) as = take (n - i) bs)"
  using assms
proof (induction as arbitrary: i bs)
  case Nil
  then show ?case by (subst strncmp_loop.simps) (cases bs; auto)
next
  case (Cons a as)
  note prems = Cons.prems
  show ?case
  proof (cases bs)
    case Nil
    then show ?thesis using prems by (subst strncmp_loop.simps) auto
  next
    case (Cons b bs')
    note bs = this
    show ?thesis
    proof (cases "a = b \<and> i < n - 1")
      case True
      then have "n - i = Suc (n - Suc i)" using prems by simp
      then have "take (n - i) (x # xs) = x # take (n - Suc i) xs" for x and xs :: "byte list"
        by simp
      moreover from prems bs True have "str_at s1 (p1 + Suc i) as" "str_at s2 (p2 + Suc i) bs'" "Suc i < n"
        by auto
      note Cons.IH [OF this]
      ultimately show ?thesis
        using prems bs True by (subst strncmp_loop.simps) auto
    next
      case False
      have n: "n - i = Suc 0" if "\<not> i < n - 1" using that prems by simp
      have "sint a = sint b \<longleftrightarrow> a = b" using signed_word_eqI by blast
      then show ?thesis
        using prems bs False n by (subst strncmp_loop.simps) (auto simp: take_Cons')
    qed
  qed
qed

lemma strncmp_zero:
  assumes "str_at s1 p1 as" and "str_at s2 p2 bs"
  shows "\<exists>r. strncmp s1 p1 s2 p2 n = Some r \<and> (r = 0 \<longleftrightarrow> take n as = take n bs)"
  using assms strncmp_loop_zero [of s1 p1 0 as s2 p2 bs n] by (auto simp: strncmp_def)

section \<open>Concatenation and copying\<close>

lemma strcat_loop_str_at:
  assumes "str_at src (p + b) cs" and "d + a + b + length cs < length dest"
  shows "strcat_loop dest d a src p b = Some (overwrite dest (d + a + b) (cs @ [0]))"
  using assms
proof (induction cs arbitrary: b dest)
  case Nil
  then show ?case by (subst strcat_loop.simps) (simp add: overwrite_single)
next
  case (Cons c cs)
  then show ?case by (subst strcat_loop.simps) (simp add: overwrite_Cons)
qed

lemma strncat_loop_str_at:
  assumes "str_at src (p + j) cs" and "d + i + min (nb - j) (length cs) < length dest"
  shows "strncat_loop dest d i src p j nb = Some (overwrite dest (d + i) (take (nb - j) cs @ [0]))"
  using assms
proof (induction cs arbitrary: i j dest)
  case Nil
  then show ?case by (subst strncat_loop.simps) (simp add: overwrite_single)
next
  case (Cons c cs)
  show ?case
  proof (cases "j < nb")
    case True
    then have "nb - j = Suc (nb - Suc j)" by simp
    with Cons True show ?thesis
      by (subst strncat_loop.simps) (simp add: overwrite_Cons)
  next
    case False
    with Cons.prems show ?thesis by (subst strncat_loop.simps) (simp add: overwrite_single)
  qed
qed

lemma strlcpy_loop_str_at:
  assumes "str_at src (p + i) cs" and "d + i + min (sz - 1 - i) (length cs) < length dest"
  shows "strlcpy_loop dest d src p sz i = Some (overwrite dest (d + i) (take (sz - 1 - i) cs @ [0]))"
  using assms
proof (induction cs arbitrary: i dest)
  case Nil
  then show ?case by (subst strlcpy_loop.simps) (simp add: overwrite_single)
next
  case (Cons c cs)
  show ?case
  proof (cases "i < sz - 1")
    case True
    then have "sz - 1 - i = Suc (sz - 1 - Suc i)" by simp
    with Cons True show ?thesis
      by (subst strlcpy_loop.simps) (simp add: overwrite_Cons)
  next
    case False
    with Cons.prems show ?thesis by (subst strlcpy_loop.simps) (simp add: overwrite_single)
  qed
qed

lemma strlcpy_str_at:
  assumes "str_at src p cs" and "0 < sz" and "d + min (sz - 1) (length cs) < length dest"
  shows "strlcpy dest d src p sz = Some (overwrite dest d (take (sz - 1) cs @ [0]))"
  using strlcpy_loop_str_at [of src p 0 cs d sz dest] assms by (simp add: strlcpy_def)

section \<open>Character classes and case conversion\<close>

lemma uint_byte_bounds: "0 \<le> uint (c :: byte) \<and> uint c < 256"
  using uint_bounded [of c] by simp

lemma sint_byte: "sint (c :: byte) = (if uint c < 128 then uint c else uint c - 256)"
proof -
  have "(x + 128) mod 256 = x - 128" if "128 \<le> x" "x < 256" for x :: int
    using that mod_pos_pos_trivial [of "x - 128" 256] mod_add_self2 [of "x - 128" 256] by (simp add: add.commute)
  then have "(uint c + 128) mod 256 - 128 = (if uint c < 128 then uint c else uint c - 256)"
    using uint_byte_bounds [of c] mod_pos_pos_trivial [of "uint c + 128" 256] by simp
  then show ?thesis
    by (simp add: sint_uint signed_take_bit_eq_take_bit_shift take_bit_eq_mod)
qed

definition is_upper :: "byte \<Rightarrow> bool" where "is_upper c \<longleftrightarrow> 65 \<le> c \<and> c \<le> 90"
definition is_lower :: "byte \<Rightarrow> bool" where "is_lower c \<longleftrightarrow> 97 \<le> c \<and> c \<le> 122"

lemma not_upper_iff: "not_upper c \<longleftrightarrow> \<not> is_upper c"
  using uint_byte_bounds [of c]
  by (auto simp: not_upper_def is_upper_def sint_byte word_le_def)

lemma not_lower_iff: "not_lower c \<longleftrightarrow> \<not> is_lower c"
  using uint_byte_bounds [of c]
  by (auto simp: not_lower_def is_lower_def sint_byte word_le_def)

lemma is_lower_sint: "97 \<le> sint c \<and> sint c \<le> 122 \<longleftrightarrow> is_lower c"
  using uint_byte_bounds [of c] by (auto simp: is_lower_def sint_byte word_le_def)

lemma is_upper_sint: "65 \<le> sint c \<and> sint c \<le> 90 \<longleftrightarrow> is_upper c"
  using uint_byte_bounds [of c] by (auto simp: is_upper_def sint_byte word_le_def)

lemma upcase_char_eq: "upcase_char c = (if is_lower c then c - 32 else c)"
  by (simp add: upcase_char_def is_lower_sint)

lemma lowcase_char_eq: "lowcase_char c = (if is_upper c then c + 32 else c)"
  by (simp add: lowcase_char_def is_upper_sint)

lemma upcase_char_nonzero: "c \<noteq> 0 \<Longrightarrow> upcase_char c \<noteq> 0"
  by (auto simp: upcase_char_eq is_lower_def)

lemma lowcase_char_nonzero: "c \<noteq> 0 \<Longrightarrow> lowcase_char c \<noteq> 0"
proof -
  have "c + 32 \<noteq> 0" if "is_upper c"
  proof -
    have "uint (c + 32) = uint c + 32"
      using that uint_byte_bounds [of c]
      by (auto simp: is_upper_def word_le_def uint_word_ariths)
    then have "0 < uint (c + 32)" using uint_byte_bounds [of c] by linarith
    then show ?thesis by auto
  qed
  then show "c \<noteq> 0 \<Longrightarrow> lowcase_char c \<noteq> 0" by (simp add: lowcase_char_eq)
qed

lemma str_is_uppercase_str_at:
  "str_at s p cs \<Longrightarrow> str_is_uppercase s p = Some (if \<forall>c \<in> set cs. is_upper c then 1 else 0)"
proof (induction cs arbitrary: p)
  case Nil
  then show ?case by (subst str_is_uppercase.simps) simp
next
  case (Cons c cs)
  then show ?case by (subst str_is_uppercase.simps) (auto simp: not_upper_iff)
qed

lemma str_is_lowercase_str_at:
  "str_at s p cs \<Longrightarrow> str_is_lowercase s p = Some (if \<forall>c \<in> set cs. is_lower c then 1 else 0)"
proof (induction cs arbitrary: p)
  case Nil
  then show ?case by (subst str_is_lowercase.simps) simp
next
  case (Cons c cs)
  then show ?case by (subst str_is_lowercase.simps) (auto simp: not_lower_iff)
qed

lemma strupcase_str_at:
  "str_at s p cs \<Longrightarrow> strupcase s p = Some (overwrite s p (map upcase_char cs))"
proof (induction cs arbitrary: s p)
  case Nil
  then show ?case by (subst strupcase.simps) simp
next
  case (Cons c cs)
  then have p: "p < length s" and "str_at (s[p := upcase_char c]) (Suc p) cs"
    by (auto simp: rd_Some_conv intro: str_at_update_outside)
  from Cons.IH [OF this(2)] Cons.prems p show ?case
    by (subst strupcase.simps) (simp add: overwrite_Cons)
qed

lemma strlowcase_str_at:
  "str_at s p cs \<Longrightarrow> strlowcase s p = Some (overwrite s p (map lowcase_char cs))"
proof (induction cs arbitrary: s p)
  case Nil
  then show ?case by (subst strlowcase.simps) simp
next
  case (Cons c cs)
  then have p: "p < length s" and "str_at (s[p := lowcase_char c]) (Suc p) cs"
    by (auto simp: rd_Some_conv intro: str_at_update_outside)
  from Cons.IH [OF this(2)] Cons.prems p show ?case
    by (subst strlowcase.simps) (simp add: overwrite_Cons)
qed

section \<open>Trimming\<close>

definition lstrip :: "byte list \<Rightarrow> byte list" where
  "lstrip cs = dropWhile is_blank cs"

definition rstrip :: "byte list \<Rightarrow> byte list" where
  "rstrip cs = rev (dropWhile is_blank (rev cs))"

lemma rstrip_append_blank: "is_blank w \<Longrightarrow> rstrip (cs @ [w]) = rstrip cs"
  by (simp add: rstrip_def)

lemma rstrip_last: "cs \<noteq> [] \<Longrightarrow> \<not> is_blank (last cs) \<Longrightarrow> rstrip cs = cs"
  by (cases cs rule: rev_cases) (simp_all add: rstrip_def)

lemma rstrip_subset: "set (rstrip cs) \<subseteq> set cs"
  by (auto simp: rstrip_def dest: set_dropWhileD)

lemma trim_left_str_at:
  "str_at s p cs \<Longrightarrow> trim_left s p = Some (p + length (takeWhile is_blank cs))"
proof (induction cs arbitrary: p)
  case Nil
  then show ?case by (subst trim_left.simps) (simp add: is_blank_def)
next
  case (Cons c cs)
  then show ?case by (subst trim_left.simps) simp
qed

lemma str_at_cut:
  "str_at s p (cs @ [w]) \<Longrightarrow> str_at (s[p + length cs := 0]) p cs"
  by (auto simp: str_at_iff take_Suc_conv_app_nth nth_list_update drop_update_swap)

text \<open>The right trim, by induction on the string from its end.\<close>

lemma trim_right_str_at:
  assumes "str_at s p cs" and "cs \<noteq> []" and "\<not> is_blank (hd cs)"
  shows "\<exists>s'. trim_right s p (p + length cs - 1) = Some s' \<and> str_at s' p (rstrip cs) \<and>
    length s' = length s \<and> (\<forall>i. i \<le> p \<or> p + length cs \<le> i \<longrightarrow> rd s' i = rd s i)"
  using assms
proof (induction cs arbitrary: s rule: rev_induct)
  case Nil
  then show ?case by simp
next
  case (snoc w cs)
  show ?case
  proof (cases "cs = [] \<or> \<not> is_blank w")
    case True
    then have "rstrip (cs @ [w]) = cs @ [w]"
      using snoc.prems by (auto intro!: rstrip_last)
    moreover have "trim_right s p (p + length (cs @ [w]) - 1) = Some s"
      using True snoc.prems(1) str_at_nth [OF snoc.prems(1), of "length cs"]
      by (subst trim_right.simps) auto
    ultimately show ?thesis using snoc.prems(1) by auto
  next
    case False
    let ?s = "s[p + length cs := 0]"
    have l: "p + length cs < length s"
      using str_at_length [OF snoc.prems(1)] by simp
    have "str_at ?s p cs" by (rule str_at_cut) (rule snoc.prems(1))
    moreover have "\<not> is_blank (hd cs)" using snoc.prems(3) False by simp
    ultimately obtain s' where s': "trim_right ?s p (p + length cs - 1) = Some s'"
      "str_at s' p (rstrip cs)" "length s' = length s"
      "\<forall>i. i \<le> p \<or> p + length cs \<le> i \<longrightarrow> rd s' i = rd ?s i"
      using snoc.IH [of ?s] False by auto
    have "trim_right s p (p + length (cs @ [w]) - 1) = Some s'"
      using s'(1) False l str_at_nth [OF snoc.prems(1), of "length cs"]
      by (subst trim_right.simps) auto
    moreover have "rd s' i = rd s i" if "i \<le> p \<or> p + length (cs @ [w]) \<le> i" for i
    proof -
      have "p + length cs \<noteq> i" using that False by (cases cs) auto
      then show ?thesis using that s'(4) by auto
    qed
    ultimately show ?thesis
      using s'(2,3) False by (auto simp: rstrip_append_blank)
  qed
qed

lemma str_trim_str_at:
  assumes "str_at s p0 cs"
  shows "\<exists>s' p. str_trim s (Some p0) = Some (s', Some p) \<and> p = p0 + length (takeWhile is_blank cs) \<and>
    str_at s' p (rstrip (lstrip cs)) \<and> length s' = length s \<and>
    (\<forall>i. i < p0 \<or> p0 + length cs \<le> i \<longrightarrow> rd s' i = rd s i)"
proof -
  let ?k = "length (takeWhile is_blank cs)"
  let ?p = "p0 + ?k"
  have len: "?k + length (lstrip cs) = length cs"
    unfolding lstrip_def by (metis length_append takeWhile_dropWhile_id)
  have tl: "trim_left s p0 = Some ?p" using assms by (rule trim_left_str_at)
  have at: "str_at s ?p (lstrip cs)"
    using str_at_drop [OF assms, of ?k] len by (simp add: lstrip_def dropWhile_eq_drop)
  show ?thesis
  proof (cases "lstrip cs = []")
    case True
    then show ?thesis using tl at by (simp add: str_trim_def rstrip_def)
  next
    case False
    then have "\<not> is_blank (hd (lstrip cs))" unfolding lstrip_def by (rule hd_dropWhile)
    from trim_right_str_at [OF at False this] obtain s' where s':
      "trim_right s ?p (?p + length (lstrip cs) - 1) = Some s'" "str_at s' ?p (rstrip (lstrip cs))"
      "length s' = length s" "\<forall>i. i \<le> ?p \<or> ?p + length (lstrip cs) \<le> i \<longrightarrow> rd s' i = rd s i"
      by blast
    obtain c where "rd s ?p = Some c" "c \<noteq> 0" using at False by (cases "lstrip cs") auto
    moreover have "strlen s ?p = Some (length (lstrip cs))" using at by (rule strlen_str_at)
    ultimately have "str_trim s (Some p0) = Some (s', Some ?p)"
      using tl s'(1) by (simp add: str_trim_def)
    then show ?thesis using s' len by auto
  qed
qed

section \<open>Properties\<close>

text \<open>strcmp on any two C strings returns 0 exactly when they are equal, and a negative value exactly when
  the first is lexicographically smaller in the order of signed chars.\<close>

theorem strcmp_correct:
  assumes "str_at s1 p1 as" and "str_at s2 p2 bs"
  shows "\<exists>r. strcmp s1 p1 s2 p2 = Some r \<and> (r = 0 \<longleftrightarrow> as = bs) \<and>
           (r < 0 \<longleftrightarrow> ord_class.lexordp (signed_string as) (signed_string bs))"
  using assms by (rule strcmp_sign)

theorem strcmp_correct_witness:
  "\<exists>r. strcmp [97, 98, 0] 0 [97, 200, 0] 0 = Some r \<and> r \<noteq> 0 \<and> \<not> r < 0"
proof -
  have "str_at [97, 98, 0] 0 [97, 98]" "str_at [97, 200, 0] 0 [97, 200]" by simp_all
  from strcmp_correct [OF this] show ?thesis by (auto simp: signed_string_def)
qed

text \<open>C40: strlcpy writes exactly the first size - 1 bytes of the source and a terminating NUL: the
  destination then holds that C string, its length is unchanged and no byte outside is touched.\<close>

theorem strlcpy_bounded:
  assumes "str_at src p cs" and "0 < sz" and "d + sz \<le> length dest"
  shows "\<exists>dest'. strlcpy dest d src p sz = Some dest' \<and> str_at dest' d (take (sz - 1) cs) \<and>
    length dest' = length dest \<and> (\<forall>i. i < d \<or> d + sz \<le> i \<longrightarrow> rd dest' i = rd dest i)"
proof -
  let ?ds = "take (sz - 1) cs"
  have room: "d + min (sz - 1) (length cs) < length dest" using assms(2,3) by (auto simp: min_def)
  have nz: "0 \<notin> set ?ds" using str_at_nonzero [OF assms(1)] by (meson in_set_takeD)
  have len: "d + length ?ds < length dest" using room by (simp add: min.commute)
  have "str_at (overwrite dest d (?ds @ [0])) d ?ds" using str_at_overwrite [OF nz len] .
  moreover have "rd (overwrite dest d (?ds @ [0])) i = rd dest i" if "i < d \<or> d + sz \<le> i" for i
    using that len assms(2) rd_overwrite [of d "?ds @ [0]" dest i] by (auto simp: min_def split: if_splits)
  ultimately show ?thesis
    using strlcpy_str_at [OF assms(1,2) room] len by (intro exI conjI allI impI) (assumption | simp)+
qed

theorem strlcpy_bounded_witness:
  "\<exists>dest'. strlcpy [7, 7, 7, 7] 0 [97, 98, 99, 100, 0] 0 3 = Some dest' \<and> str_at dest' 0 [97, 98] \<and> rd dest' 3 = Some 7"
proof -
  have "str_at [97, 98, 99, 100, 0] 0 [97, 98, 99, 100]" by simp
  from strlcpy_bounded [OF this, of 3 0 "[7, 7, 7, 7]"] show ?thesis by auto
qed

text \<open>Str_trim returns a pointer to the string without its leading and trailing blanks (spaces and
  tabs) and changes only bytes of the string itself.\<close>

theorem str_trim_correct:
  assumes "str_at s p0 cs"
  shows "\<exists>s' p. str_trim s (Some p0) = Some (s', Some p) \<and> p = p0 + length (takeWhile is_blank cs) \<and>
    str_at s' p (rstrip (lstrip cs)) \<and> length s' = length s \<and>
    (\<forall>i. i < p0 \<or> p0 + length cs \<le> i \<longrightarrow> rd s' i = rd s i)"
  using assms by (rule str_trim_str_at)

theorem str_trim_correct_witness:
  "\<exists>s'. str_trim [32, 9, 97, 32, 98, 32, 0] (Some 0) = Some (s', Some 2) \<and> str_at s' 2 [97, 32, 98]"
proof -
  have "str_at [32, 9, 97, 32, 98, 32, 0] 0 [32, 9, 97, 32, 98, 32]" by simp
  from str_trim_correct [OF this] obtain s' where
    "str_trim [32, 9, 97, 32, 98, 32, 0] (Some 0) = Some (s', Some (0 + length (takeWhile is_blank [32, 9, 97, 32, 98, 32])))"
    "str_at s' (0 + length (takeWhile is_blank [32, 9, 97, 32, 98, 32])) (rstrip (lstrip [32, 9, 97, 32, 98, 32]))"
    by blast
  moreover have "0 + length (takeWhile is_blank [32, 9, 97, 32, 98, 32]) = 2"
    "rstrip (lstrip [32, 9, 97, 32, 98, 32]) = [97, 32, 98]"
    by (simp_all add: is_blank_def lstrip_def rstrip_def)
  ultimately show ?thesis by (simp only:) blast
qed

end
