(* ===== verification/Devices.thy ===== *)
theory Devices
  imports C_String
begin

text \<open>
  Port I/O and the drivers on it: src/drivers/serial.c, src/kernel/log.c, src/cpu/pic.c,
  src/drivers/timer.c. The devices answer \<open>inb\<close> from a script, a function of the number of reads done
  so far and the port, so every behaviour of the hardware is a script; the bus records the writes in
  order. A busy-wait on a device that never gets ready does not return, the value \<open>None\<close>.
\<close>

section \<open>The bus\<close>

record bus =
  script :: "nat \<Rightarrow> u16 \<Rightarrow> byte"
  clock :: nat
  writes :: "(u16 \<times> byte) list"

definition port_out :: "u16 \<Rightarrow> byte \<Rightarrow> bus \<Rightarrow> bus" where
  "port_out p v b = b\<lparr>writes := writes b @ [(p, v)]\<rparr>"

definition port_in :: "u16 \<Rightarrow> bus \<Rightarrow> byte \<times> bus" where
  "port_in p b = (script b (clock b) p, b\<lparr>clock := clock b + 1\<rparr>)"

text \<open>A word-wide write, recorded as its two bytes.\<close>

definition port_outw :: "u16 \<Rightarrow> u16 \<Rightarrow> bus \<Rightarrow> bus" where
  "port_outw p v b = b\<lparr>writes := writes b @ [(p, ucast v), (p + 1, ucast (drop_bit 8 v))]\<rparr>"

definition io_wait :: "bus \<Rightarrow> bus" where
  "io_wait = port_out 0x80 0"

primrec port_outs :: "(u16 \<times> byte) list \<Rightarrow> bus \<Rightarrow> bus" where
  "port_outs [] b = b" |
  "port_outs (w # ws) b = port_outs ws (port_out (fst w) (snd w) b)"

section \<open>Serial port\<close>

definition SERIAL_PORT :: u16 where "SERIAL_PORT = 0x3F8"

text \<open>Without \<open>AURI_TEST_MODE\<close>.\<close>

definition serial_init :: "bus \<Rightarrow> bus" where
  "serial_init = port_outs [(SERIAL_PORT + 1, 0x00), (SERIAL_PORT + 3, 0x80), (SERIAL_PORT + 0, 0x03),
     (SERIAL_PORT + 1, 0x00), (SERIAL_PORT + 3, 0x03), (SERIAL_PORT + 2, 0xC7), (SERIAL_PORT + 4, 0x0B)]"

definition serial_is_transmit_empty :: "bus \<Rightarrow> int \<times> bus" where
  "serial_is_transmit_empty b = (let (v, b') = port_in (SERIAL_PORT + 5) b in (uint (v AND 0x20), b'))"

partial_function (option) serial_wait :: "bus \<Rightarrow> bus option" where
  "serial_wait b = (case serial_is_transmit_empty b of (v, b') \<Rightarrow> if v = 0 then serial_wait b' else Some b')"

definition serial_write_char :: "byte \<Rightarrow> bus \<Rightarrow> bus option" where
  "serial_write_char c b = do { b' \<leftarrow> serial_wait b; Some (port_out SERIAL_PORT c b') }"

function serial_write_loop :: "buf \<Rightarrow> nat \<Rightarrow> bus \<Rightarrow> bus option" where
  "serial_write_loop s i b = (case rd s i of None \<Rightarrow> None
     | Some c \<Rightarrow> if c = 0 then Some b
         else (case serial_write_char c b of None \<Rightarrow> None | Some b' \<Rightarrow> serial_write_loop s (i + 1) b'))"
  by pat_completeness auto
termination
  by (relation "measure (\<lambda>(s, i, b). length s - i)") (auto simp: rd_Some_conv)

definition serial_write_string :: "buf \<Rightarrow> bus \<Rightarrow> bus option" where
  "serial_write_string s b = serial_write_loop s 0 b"

declare serial_write_loop.simps [simp del]

definition klog :: "buf \<Rightarrow> buf \<Rightarrow> bus \<Rightarrow> bus option" where
  "klog level msg b = do {
     b1 \<leftarrow> serial_write_char (chb CHR ''['') b;
     b2 \<leftarrow> serial_write_string level b1;
     b3 \<leftarrow> serial_write_string (lit ''] '' @ [0]) b2;
     b4 \<leftarrow> serial_write_string msg b3;
     b5 \<leftarrow> serial_write_char 10 b4;
     serial_write_char 13 b5 }"

definition KINFO :: "string \<Rightarrow> bus \<Rightarrow> bus option" where
  "KINFO msg = klog (lit ''INFO'' @ [0]) (lit msg @ [0])"

definition KPANIC :: "string \<Rightarrow> bus \<Rightarrow> bus option" where
  "KPANIC msg = klog (lit ''PANIC'' @ [0]) (lit msg @ [0])"

section \<open>Interrupt controller\<close>

definition PIC1_COMMAND :: u16 where "PIC1_COMMAND = 0x20"
definition PIC1_DATA :: u16 where "PIC1_DATA = 0x21"
definition PIC2_COMMAND :: u16 where "PIC2_COMMAND = 0xA0"
definition PIC2_DATA :: u16 where "PIC2_DATA = 0xA1"

definition pic_remap :: "bus \<Rightarrow> bus option" where
  "pic_remap b =
     (let b = port_out PIC1_COMMAND 0x11 b; b = io_wait b; b = port_out PIC2_COMMAND 0x11 b; b = io_wait b;
          b = port_out PIC1_DATA 0x20 b; b = io_wait b; b = port_out PIC2_DATA 0x28 b; b = io_wait b;
          b = port_out PIC1_DATA 0x04 b; b = io_wait b; b = port_out PIC2_DATA 0x02 b; b = io_wait b;
          b = port_out PIC1_DATA 0x01 b; b = io_wait b; b = port_out PIC2_DATA 0x01 b; b = io_wait b;
          b = port_out PIC1_DATA 0xFF b; b = port_out PIC2_DATA 0xFF b
      in KINFO ''[PIC] IRQs remapped to 32-47'' b)"

definition pic_unmask_irq :: "byte \<Rightarrow> bus \<Rightarrow> bus" where
  "pic_unmask_irq irqline b =
     (let (port, irqline, b) =
        (if irqline < 8 then (PIC1_DATA, irqline, b)
         else (let (m, b) = port_in PIC1_DATA b;
                   b = port_out PIC1_DATA (m AND NOT 4) b
               in (PIC2_DATA, irqline - 8, b)));
          (m, b) = port_in port b;
          value = m AND NOT (push_bit (unat irqline) 1)
      in port_out port value b)"

section \<open>Timer\<close>

record timer =
  tick :: u32
  frequency :: u32

definition timer_callback :: "timer \<Rightarrow> timer" where
  "timer_callback t = t\<lparr>tick := tick t + 1\<rparr>"

text \<open>The interrupt handler \<open>timer_init\<close> registers for IRQ 0 is \<open>timer_callback\<close>.\<close>

definition timer_init :: "u32 \<Rightarrow> timer \<Rightarrow> bus \<Rightarrow> (timer \<times> bus) option" where
  "timer_init freq t b =
     (if freq = 0 then None else
      let divisor = 1193180 div freq;
          b = port_out 0x43 0x36 b;
          b = port_out 0x40 (ucast (divisor AND 0xFF)) b;
          b = port_out 0x40 (ucast (drop_bit 8 divisor AND 0xFF)) b;
          (mask, b) = port_in 0x21 b;
          b = port_out 0x21 (mask AND NOT 1) b
      in do { b \<leftarrow> KINFO ''[PIT] Programmable Interval Timer configured'' b;
              Some (t\<lparr>frequency := freq\<rparr>, b) })"

text \<open>
  \<open>hlt\<close> returns after the next interrupt; the list says which IRQ each one is. The wait leaves the
  interrupts it has not consumed, \<open>None\<close> when they run out.
\<close>

fun sleep_loop :: "u32 \<Rightarrow> u32 \<Rightarrow> nat list \<Rightarrow> timer \<Rightarrow> (timer \<times> nat list) option" where
  "sleep_loop start ticks_to_wait irqs t =
     (if tick t - start < ticks_to_wait then
        (case irqs of [] \<Rightarrow> None
         | i # irqs' \<Rightarrow> sleep_loop start ticks_to_wait irqs' (if i = 0 then timer_callback t else t))
      else Some (t, irqs))"

declare sleep_loop.simps [simp del]

definition sleep :: "u32 \<Rightarrow> nat list \<Rightarrow> timer \<Rightarrow> (timer \<times> nat list) option" where
  "sleep ms irqs t = sleep_loop (tick t) (frequency t * ms div 1000) irqs t"

definition get_tick :: "timer \<Rightarrow> u32" where
  "get_tick t = tick t"

section \<open>What they do\<close>

text \<open>A transmitter that gets ready again and again.\<close>

definition uart_live :: "bus \<Rightarrow> bool" where
  "uart_live b \<longleftrightarrow> (\<forall>n. \<exists>m \<ge> n. script b m (SERIAL_PORT + 5) AND 0x20 \<noteq> 0)"

definition sent :: "bus \<Rightarrow> byte list \<Rightarrow> bus \<Rightarrow> bool" where
  "sent b cs b' \<longleftrightarrow> script b' = script b \<and> clock b \<le> clock b' \<and> writes b' = writes b @ map (Pair SERIAL_PORT) cs"

lemma serial_wait_step:
  "serial_wait b = (if script b (clock b) (SERIAL_PORT + 5) AND 0x20 = 0
     then serial_wait (b\<lparr>clock := clock b + 1\<rparr>) else Some (b\<lparr>clock := clock b + 1\<rparr>))"
  by (subst serial_wait.simps) (auto simp: serial_is_transmit_empty_def port_in_def unsigned_eq_0_iff)

lemma serial_wait_live:
  assumes "uart_live b"
  shows "\<exists>n. serial_wait b = Some (b\<lparr>clock := n\<rparr>) \<and> clock b \<le> n"
proof -
  obtain m where m: "m \<ge> clock b" "script b m (SERIAL_PORT + 5) AND 0x20 \<noteq> 0"
    using assms by (auto simp: uart_live_def)
  have "\<exists>n. serial_wait b = Some (b\<lparr>clock := n\<rparr>) \<and> clock b \<le> n"
    if "clock b + k = m" "script b m (SERIAL_PORT + 5) AND 0x20 \<noteq> 0" for k b
    using that
  proof (induction k arbitrary: b)
    case 0
    then show ?case by (subst serial_wait_step) auto
  next
    case (Suc k)
    show ?case
    proof (cases "script b (clock b) (SERIAL_PORT + 5) AND 0x20 = 0")
      case True
      from Suc.IH [of "b\<lparr>clock := clock b + 1\<rparr>"] Suc.prems obtain n where
        "serial_wait (b\<lparr>clock := clock b + 1\<rparr>) = Some (b\<lparr>clock := n\<rparr>)" "clock b + 1 \<le> n" by auto
      then show ?thesis using True by (subst serial_wait_step) auto
    next
      case False
      then show ?thesis by (subst serial_wait_step) auto
    qed
  qed
  from this [of b "m - clock b"] m show ?thesis by simp
qed

lemma sent_live: "sent b cs b' \<Longrightarrow> uart_live b \<Longrightarrow> uart_live b'"
  by (simp add: sent_def uart_live_def)

lemma sent_trans: "sent b cs b' \<Longrightarrow> sent b' ds b'' \<Longrightarrow> sent b (cs @ ds) b''"
  by (simp add: sent_def)

lemma serial_write_char_sent:
  "uart_live b \<Longrightarrow> \<exists>b'. serial_write_char c b = Some b' \<and> sent b [c] b'"
  using serial_wait_live [of b] by (auto simp: serial_write_char_def sent_def port_out_def)

lemma serial_write_loop_sent:
  "uart_live b \<Longrightarrow> str_at s i cs \<Longrightarrow> \<exists>b'. serial_write_loop s i b = Some b' \<and> sent b cs b'"
proof (induction cs arbitrary: i b)
  case Nil
  then show ?case by (subst serial_write_loop.simps) (simp add: sent_def)
next
  case (Cons c cs)
  obtain b1 where b1: "serial_write_char c b = Some b1" "sent b [c] b1"
    using serial_write_char_sent [OF Cons.prems(1)] by blast
  obtain b2 where "serial_write_loop s (Suc i) b1 = Some b2" "sent b1 cs b2"
    using Cons.IH [of b1 "Suc i"] sent_live [OF b1(2)] Cons.prems by auto
  then show ?case using b1 Cons.prems(2) sent_trans [OF b1(2), of cs b2] by (subst serial_write_loop.simps) simp
qed

lemma serial_write_string_sent:
  "uart_live b \<Longrightarrow> str_at s 0 cs \<Longrightarrow> \<exists>b'. serial_write_string s b = Some b' \<and> sent b cs b'"
  unfolding serial_write_string_def by (rule serial_write_loop_sent)

lemma klog_sent:
  assumes "uart_live b" "str_at level 0 ls" "str_at msg 0 ms"
  shows "\<exists>b'. klog level msg b = Some b' \<and> sent b (lit ''['' @ ls @ lit ''] '' @ ms @ [10, 13]) b'"
proof -
  obtain b1 where 1: "serial_write_char (chb CHR ''['') b = Some b1" "sent b [chb CHR ''[''] b1"
    using serial_write_char_sent [OF assms(1)] by blast
  have l1: "uart_live b1" using sent_live [OF 1(2) assms(1)] .
  obtain b2 where 2: "serial_write_string level b1 = Some b2" "sent b1 ls b2"
    using serial_write_string_sent [OF l1 assms(2)] by blast
  have l2: "uart_live b2" using sent_live [OF 2(2) l1] .
  have "str_at (lit ''] '' @ [0]) 0 (lit ''] '')" by (simp add: lit_def)
  then obtain b3 where 3: "serial_write_string (lit ''] '' @ [0]) b2 = Some b3" "sent b2 (lit ''] '') b3"
    using serial_write_string_sent [OF l2] by blast
  have l3: "uart_live b3" using sent_live [OF 3(2) l2] .
  obtain b4 where 4: "serial_write_string msg b3 = Some b4" "sent b3 ms b4"
    using serial_write_string_sent [OF l3 assms(3)] by blast
  have l4: "uart_live b4" using sent_live [OF 4(2) l3] .
  obtain b5 where 5: "serial_write_char 10 b4 = Some b5" "sent b4 [10] b5"
    using serial_write_char_sent [OF l4] by blast
  obtain b6 where 6: "serial_write_char 13 b5 = Some b6" "sent b5 [13] b6"
    using serial_write_char_sent [OF sent_live [OF 5(2) l4]] by blast
  have "klog level msg b = Some b6" using 1 2 3 4 5 6 by (simp add: klog_def)
  moreover have "sent b (lit ''['' @ ls @ lit ''] '' @ ms @ [10, 13]) b6"
    using sent_trans [OF 1(2) sent_trans [OF 2(2) sent_trans [OF 3(2) sent_trans [OF 4(2) sent_trans [OF 5(2) 6(2)]]]]]
    by (simp add: lit_def chb_def)
  ultimately show ?thesis by blast
qed

text \<open>Unmasking clears the line's bit and no other, the cascade's too for a line of the slave.\<close>

lemma mask_bit: "n < 8 \<Longrightarrow> bit (m AND NOT (2 ^ k) :: byte) n \<longleftrightarrow> bit m n \<and> n \<noteq> k"
proof -
  assume "n < 8"
  then have "bit (m AND NOT (push_bit k 1) :: byte) n \<longleftrightarrow> bit m n \<and> n \<noteq> k"
    by (auto simp: bit_simps simp del: push_bit_of_1)
  then show ?thesis by simp
qed

lemma pic_unmask_irq_spec:
  assumes "irq < 16"
  shows "\<exists>v b'. pic_unmask_irq irq b = b' \<and>
    writes b' = writes b @ (if irq < 8 then [(PIC1_DATA, v)]
      else [(PIC1_DATA, script b (clock b) PIC1_DATA AND NOT 4), (PIC2_DATA, v)]) \<and>
    (\<forall>n < 8. bit v n \<longleftrightarrow> n \<noteq> unat irq mod 8 \<and>
       bit (if irq < 8 then script b (clock b) PIC1_DATA else script b (clock b + 1) PIC2_DATA) n)"
proof (cases "irq < 8")
  case True
  then have "unat irq mod 8 = unat irq" by (simp add: word_less_nat_alt)
  then show ?thesis using True
    by (intro exI [of _ "script b (clock b) PIC1_DATA AND NOT (push_bit (unat irq) 1)"])
       (auto simp: pic_unmask_irq_def port_in_def port_out_def Let_def mask_bit)
next
  case False
  have "unat (irq - 8) = unat irq - 8" using False by (simp add: unat_sub_if_size word_less_nat_alt)
  moreover have "unat irq < 16" using assms by (simp add: word_less_nat_alt)
  ultimately have "unat irq mod 8 = unat (irq - 8)" using False by (simp add: word_less_nat_alt mod_if)
  then show ?thesis using False
    by (intro exI [of _ "script b (clock b + 1) PIC2_DATA AND NOT (push_bit (unat (irq - 8)) 1)"])
       (auto simp: pic_unmask_irq_def port_in_def port_out_def Let_def mask_bit)
qed

text \<open>A sleep ends with the timer interrupt that completes the wait, also when the tick counter wraps.\<close>

definition timer_irqs :: "nat list \<Rightarrow> nat" where
  "timer_irqs irqs = length (filter (\<lambda>i. i = 0) irqs)"

lemma unat_below: "unat (w :: u32) < 4294967296"
proof -
  have "unat w < 2 ^ LENGTH(32)" by (rule unsigned_less)
  then show ?thesis by simp
qed

lemma sleep_loop_spec:
  assumes "timer_irqs irqs = n" "unat (tick t - start) + n = unat wait" "irqs = [] \<or> last irqs = 0"
  shows "sleep_loop start wait (irqs @ rest) t = Some (t\<lparr>tick := tick t + of_nat n\<rparr>, rest)"
  using assms
proof (induction irqs arbitrary: n t)
  case Nil
  then have "\<not> tick t - start < wait" "n = 0" by (simp_all add: timer_irqs_def word_less_nat_alt)
  then show ?case by (subst sleep_loop.simps) simp
next
  case (Cons i irqs)
  have "0 < n"
    using Cons.prems(1,3) by (cases irqs rule: rev_cases) (auto simp: timer_irqs_def split: if_splits)
  then have lt: "tick t - start < wait" using Cons.prems(2) by (simp add: word_less_nat_alt)
  have last: "irqs = [] \<or> last irqs = 0" using Cons.prems(3) by (cases "irqs = []") simp_all
  show ?case
  proof (cases "i = 0")
    case True
    have "unat (tick t - start) + 1 \<le> unat wait" using lt by (simp add: word_less_nat_alt)
    then have "unat (tick t - start + 1) = unat (tick t - start) + 1"
      using unat_below [of wait] by (simp add: unat_word_ariths)
    then have "unat (tick (timer_callback t) - start) + (n - 1) = unat wait"
      using Cons.prems(2) \<open>0 < n\<close> by (simp add: timer_callback_def algebra_simps)
    moreover have "timer_irqs irqs = n - 1" using Cons.prems(1) True by (auto simp: timer_irqs_def)
    ultimately have "sleep_loop start wait (irqs @ rest) (timer_callback t) =
        Some ((timer_callback t)\<lparr>tick := tick (timer_callback t) + of_nat (n - 1)\<rparr>, rest)"
      using Cons.IH last by blast
    moreover have "tick t + 1 + of_nat (n - 1) = tick t + of_nat n"
      using \<open>0 < n\<close> by (cases n) simp_all
    ultimately show ?thesis using lt True by (subst sleep_loop.simps) (simp add: timer_callback_def)
  next
    case False
    then have "timer_irqs irqs = n" using Cons.prems(1) by (simp add: timer_irqs_def)
    then show ?thesis using Cons.IH [of n t] Cons.prems(2) last lt False
      by (subst sleep_loop.simps) simp
  qed
qed

lemma sleep_short:
  assumes "unat wait > unat (tick t - start) + timer_irqs irqs"
  shows "sleep_loop start wait irqs t = None"
  using assms
proof (induction irqs arbitrary: t)
  case Nil
  then show ?case by (subst sleep_loop.simps) (simp add: word_less_nat_alt)
next
  case (Cons i irqs)
  have lt: "tick t - start < wait" using Cons.prems by (simp add: word_less_nat_alt)
  show ?case
  proof (cases "i = 0")
    case True
    have "unat (tick t - start + 1) = unat (tick t - start) + 1"
      using Cons.prems unat_below [of wait] by (simp add: unat_word_ariths)
    then have "sleep_loop start wait irqs (timer_callback t) = None"
      using Cons.prems True by (intro Cons.IH) (simp add: timer_callback_def timer_irqs_def algebra_simps)
    then show ?thesis using lt True by (subst sleep_loop.simps) simp
  next
    case False
    then show ?thesis using lt Cons.prems Cons.IH [of t] by (subst sleep_loop.simps) (simp add: timer_irqs_def)
  qed
qed

lemma timer_init_divisor:
  assumes "19 \<le> freq" "freq \<le> 1193180"
  shows "\<exists>(b1 :: byte) (b2 :: byte). ucast ((1193180 div freq) AND 0xFF) = b1 \<and> ucast (drop_bit 8 (1193180 div freq) AND 0xFF) = b2 \<and>
    unat b1 + 256 * unat b2 = 1193180 div unat (freq :: u32)"
proof -
  have u: "unat (1193180 div freq) = 1193180 div unat freq" by (simp add: unat_div_distrib)
  have "19 \<le> unat freq" using assms(1) by (simp add: word_le_nat_alt)
  then have "1193180 div unat freq \<le> 1193180 div 19" by (intro div_le_mono2) simp_all
  then have lt: "1193180 div unat freq < 65536" by simp
  have m: "x AND 0xFF = take_bit 8 x" for x :: u32
  proof -
    have "(0xFF :: u32) = mask 8" by (simp add: mask_eq_exp_minus_1)
    then show ?thesis by (simp only: take_bit_eq_mask)
  qed
  have b: "unat (ucast (x AND 0xFF) :: byte) = unat x mod 256" for x :: u32
    by (simp add: m unsigned_ucast_eq take_bit_eq_mod unat_mod_distrib)
  have "unat (drop_bit 8 (1193180 div freq)) = 1193180 div unat freq div 256"
    by (simp add: drop_bit_eq_div unat_div_distrib)
  then show ?thesis using lt by (auto simp: b u)
qed

section \<open>Properties\<close>

definition example_bus :: bus where
  "example_bus = \<lparr>script = (\<lambda>n _. if odd n then 0x20 else 0), clock = 0, writes = []\<rparr>"

lemma example_bus_live: "uart_live example_bus"
proof -
  have "\<exists>m \<ge> n. odd m" for n :: nat by (metis even_Suc le_SucI order_refl)
  then show ?thesis by (auto simp: uart_live_def example_bus_def)
qed

text \<open>C37: klog, with a transmitter that keeps getting ready, returns, and what goes out on the serial port is
  "[level] message" followed by line feed and carriage return.\<close>

theorem klog_correct:
  assumes "uart_live b" "str_at level 0 ls" "str_at msg 0 ms"
  shows "\<exists>b'. klog level msg b = Some b' \<and> writes b' = writes b @ map (Pair SERIAL_PORT) (lit ''['' @ ls @ lit ''] '' @ ms @ [10, 13])"
  using klog_sent [OF assms] by (auto simp: sent_def)

theorem klog_correct_witness:
  "\<exists>b'. klog [75, 0] [33, 0] example_bus = Some b' \<and> map snd (writes b') = [91, 75, 93, 32, 33, 10, 13]"
proof -
  have "str_at [75, 0] 0 [75]" "str_at [33, 0] 0 [33]" by simp_all
  from klog_correct [OF example_bus_live this] show ?thesis by (auto simp: example_bus_def lit_def)
qed

text \<open>C36: sleep returns with the timer interrupt that completes the wait, neither earlier nor later, whatever
  other interrupts arrive in between and also when the tick counter wraps around; with fewer timer interrupts it
  does not return.\<close>

theorem sleep_correct:
  assumes "timer_irqs irqs = unat (frequency t * ms div 1000)" "irqs = [] \<or> last irqs = 0"
  shows "sleep ms (irqs @ rest) t = Some (t\<lparr>tick := tick t + frequency t * ms div 1000\<rparr>, rest) \<and>
    (\<forall>early. timer_irqs early < unat (frequency t * ms div 1000) \<longrightarrow> sleep ms early t = None)"
  using sleep_loop_spec [OF assms(1), of t "tick t" "frequency t * ms div 1000"] assms(2)
    sleep_short [of t "tick t" _ "frequency t * ms div 1000"]
  by (auto simp: sleep_def)

theorem sleep_correct_witness:
  "sleep 2 ([1, 0, 4, 0] @ [0]) \<lparr>tick = 0xFFFFFFFF, frequency = 1000\<rparr> = Some (\<lparr>tick = 1, frequency = 1000\<rparr>, [0])"
  using sleep_correct [of "[1, 0, 4, 0]" "\<lparr>tick = 0xFFFFFFFF, frequency = 1000\<rparr>" 2 "[0]"]
  by (simp add: timer_irqs_def)

text \<open>pic_unmask_irq clears the line's bit in the mask of the controller the line belongs to and changes
  no other bit of it; for a line of the slave it also clears the master's cascade bit.\<close>

theorem pic_unmask_correct:
  assumes "irq < 16"
  shows "\<exists>v. writes (pic_unmask_irq irq b) = writes b @ (if irq < 8 then [(PIC1_DATA, v)]
      else [(PIC1_DATA, script b (clock b) PIC1_DATA AND NOT 4), (PIC2_DATA, v)]) \<and>
    (\<forall>n < 8. bit v n \<longleftrightarrow> n \<noteq> unat irq mod 8 \<and>
       bit (if irq < 8 then script b (clock b) PIC1_DATA else script b (clock b + 1) PIC2_DATA) n)"
  using pic_unmask_irq_spec [OF assms, of b] by blast

theorem pic_unmask_correct_witness:
  "\<exists>v. writes (pic_unmask_irq 1 \<lparr>script = (\<lambda>_ _. 0xFF), clock = 0, writes = []\<rparr>) = [(PIC1_DATA, v)] \<and> \<not> bit v 1"
proof -
  have "(1 :: byte) < 16" "(1 :: byte) < 8" by simp_all
  then show ?thesis
    using pic_unmask_correct [of 1 "\<lparr>script = (\<lambda>_ _. 0xFF), clock = 0, writes = []\<rparr>"] by fastforce
qed

end
