(* ===== verification/C_Integer.thy ===== *)
theory C_Integer
  imports C_String
begin

text \<open>
  src/lib/integer.c: \<open>atoi\<close>, \<open>itoa\<close>, \<open>htoi\<close>. \<open>int\<close> arithmetic is checked (\<open>c_int\<close>): a signed
  overflow of the source is \<open>None\<close>. \<open>htoi\<close> works on \<open>uint32_t\<close> and keeps the low 32 bits.
\<close>

section \<open>Definitions\<close>

definition atoi_space :: "byte \<Rightarrow> bool" where
  "atoi_space c \<longleftrightarrow> c = 10 \<or> c = 9 \<or> c = 11 \<or> c = 32 \<or> c = 12 \<or> c = 13"

function atoi_skip :: "buf \<Rightarrow> nat \<Rightarrow> nat option" where
  "atoi_skip s i = do { c \<leftarrow> rd s i; if atoi_space c then atoi_skip s (Suc i) else Some i }"
  by pat_completeness auto
termination
  by (relation "measure (\<lambda>(s, i). length s - i)") (auto simp: rd_Some_conv)

function atoi_loop :: "buf \<Rightarrow> nat \<Rightarrow> int \<Rightarrow> int option" where
  "atoi_loop s i nbr = do {
     c \<leftarrow> rd s i;
     if c \<noteq> 0 \<and> 48 \<le> sint c \<and> sint c \<le> 57 then do {
       n10 \<leftarrow> c_int (nbr * 10);
       n \<leftarrow> c_int (n10 + (sint c - 48));
       atoi_loop s (Suc i) n }
     else Some nbr }"
  by pat_completeness auto
termination
  by (relation "measure (\<lambda>(s, i, nbr). length s - i)") (auto simp: rd_Some_conv)

definition atoi :: "buf \<Rightarrow> nat \<Rightarrow> int option" where
  "atoi s p = do {
     i \<leftarrow> atoi_skip s p;
     c \<leftarrow> rd s i;
     let negative = (c = 45);
     let j = (if c = 43 \<or> c = 45 then Suc i else i);
     nbr \<leftarrow> atoi_loop s j 0;
     if negative then c_int (- nbr) else Some nbr }"

function itoa_digits :: "int \<Rightarrow> buf \<Rightarrow> nat \<Rightarrow> (buf \<times> nat) option" where
  "itoa_digits nb b i =
     (if nb > 0 then do {
        b' \<leftarrow> wr b i (word_of_int (nb smod 10 + 48));
        itoa_digits (nb sdiv 10) b' (Suc i) }
      else Some (b, i))"
  by pat_completeness auto
termination
  by (relation "measure (\<lambda>(nb, b, i). nat nb)") (auto simp: signed_divide_int_def)

function itoa_reverse :: "buf \<Rightarrow> nat \<Rightarrow> buf option" where
  "itoa_reverse b i = do {
     n \<leftarrow> strlen b 0;
     if i < n div 2 then do {
       tmp \<leftarrow> rd b i;
       n1 \<leftarrow> strlen b 0;
       c \<leftarrow> rd b (n1 - 1 - i);
       b1 \<leftarrow> wr b i c;
       n2 \<leftarrow> strlen b1 0;
       b2 \<leftarrow> wr b1 (n2 - 1 - i) tmp;
       itoa_reverse b2 (Suc i) }
     else Some b }"
  by pat_completeness auto
termination
  by (relation "measure (\<lambda>(b, i). length b - i)") (auto simp: rd_Some_conv wr_Some_conv)

definition itoa :: "int \<Rightarrow> buf \<Rightarrow> buf option" where
  "itoa nb0 b0 = do {
     let negative = (nb0 < 0);
     nb \<leftarrow> (if negative then c_int (- nb0) else Some nb0);
     if nb = 0 then do { b1 \<leftarrow> wr b0 0 48; wr b1 1 0 }
     else do {
       (b1, i) \<leftarrow> itoa_digits nb b0 0;
       (b2, j) \<leftarrow> (if negative then do { b \<leftarrow> wr b1 i 45; Some (b, Suc i) } else Some (b1, i));
       b3 \<leftarrow> wr b2 j 0;
       itoa_reverse b3 0 } }"

function htoi_skip :: "buf \<Rightarrow> nat \<Rightarrow> nat option" where
  "htoi_skip s i = do { c \<leftarrow> rd s i; if c = 32 then htoi_skip s (Suc i) else Some i }"
  by pat_completeness auto
termination
  by (relation "measure (\<lambda>(s, i). length s - i)") (auto simp: rd_Some_conv)

definition htoi_prefix :: "buf \<Rightarrow> nat \<Rightarrow> nat option" where
  "htoi_prefix s i = do {
     c0 \<leftarrow> rd s i;
     if c0 = 48 then do {
       c1 \<leftarrow> rd s (i + 1);
       Some (if c1 = 120 \<or> c1 = 88 then i + 2 else i) }
     else Some i }"

definition hex_value :: "byte \<Rightarrow> u32 option" where
  "hex_value c =
     (if 48 \<le> sint c \<and> sint c \<le> 57 then Some (word_of_int (sint c - 48))
      else if 97 \<le> sint c \<and> sint c \<le> 102 then Some (word_of_int (sint c - 97 + 10))
      else if 65 \<le> sint c \<and> sint c \<le> 70 then Some (word_of_int (sint c - 65 + 10))
      else None)"

function htoi_loop :: "buf \<Rightarrow> nat \<Rightarrow> u32 \<Rightarrow> u32 option" where
  "htoi_loop s i result = do {
     c \<leftarrow> rd s i;
     if c \<noteq> 0 then
       (case hex_value c of
          Some v \<Rightarrow> htoi_loop s (Suc i) (push_bit 4 result OR v)
        | None \<Rightarrow> Some result)
     else Some result }"
  by pat_completeness auto
termination
  by (relation "measure (\<lambda>(s, i, result). length s - i)") (auto simp: rd_Some_conv)

definition htoi :: "buf \<Rightarrow> nat \<Rightarrow> u32 option" where
  "htoi s p = do { i \<leftarrow> htoi_skip s p; j \<leftarrow> htoi_prefix s i; htoi_loop s j 0 }"

declare atoi_skip.simps [simp del] atoi_loop.simps [simp del] itoa_digits.simps [simp del]
  itoa_reverse.simps [simp del] htoi_skip.simps [simp del] htoi_loop.simps [simp del]

section \<open>Decimal notation\<close>

text \<open>The reference: the digits of a number, least significant first, and its decimal string.\<close>

fun dec_rev :: "nat \<Rightarrow> byte list" where
  "dec_rev n = (if n = 0 then [] else of_nat (n mod 10 + 48) # dec_rev (n div 10))"

declare dec_rev.simps [simp del]

definition dec_string :: "int \<Rightarrow> byte list" where
  "dec_string n = (if n = 0 then [48]
     else (if n < 0 then [45] else []) @ rev (dec_rev (nat \<bar>n\<bar>)))"

definition is_digit :: "byte \<Rightarrow> bool" where
  "is_digit c \<longleftrightarrow> 48 \<le> c \<and> c \<le> 57"

definition digits_value :: "int \<Rightarrow> byte list \<Rightarrow> int" where
  "digits_value v ds = foldl (\<lambda>v d. v * 10 + (uint d - 48)) v ds"

lemma digits_value_simps [simp]:
  "digits_value v [] = v"
  "digits_value v (d # ds) = digits_value (v * 10 + (uint d - 48)) ds"
  "digits_value v (ds @ [d]) = digits_value v ds * 10 + (uint d - 48)"
  by (simp_all add: digits_value_def)

lemma uint_digit: "uint (of_nat (n mod 10 + 48) :: byte) = int (n mod 10) + 48"
proof -
  have "uint (of_nat (n mod 10 + 48) :: byte) = int ((n mod 10 + 48) mod 256)"
    by (simp add: unsigned_of_nat take_bit_eq_mod flip: of_nat_add)
  also have "(n mod 10 + 48) mod 256 = n mod 10 + 48" by simp
  finally show ?thesis by simp
qed

lemma is_digit_digit: "is_digit (of_nat (n mod 10 + 48))"
  unfolding is_digit_def word_le_def uint_digit by simp

lemma dec_rev_digits: "\<forall>d \<in> set (dec_rev n). is_digit d"
proof (induction n rule: dec_rev.induct)
  case (1 n)
  then show ?case using is_digit_digit [of n] by (subst dec_rev.simps) simp
qed

lemma dec_rev_value: "digits_value 0 (rev (dec_rev n)) = int n"
proof (induction n rule: dec_rev.induct)
  case (1 n)
  then show ?case
    using uint_digit [of n] by (subst dec_rev.simps) (simp add: of_nat_div of_nat_mod)
qed

lemma dec_rev_Nil_iff [simp]: "dec_rev n = [] \<longleftrightarrow> n = 0"
  by (subst dec_rev.simps) simp

lemma length_dec_rev: "n < 10 ^ k \<Longrightarrow> length (dec_rev n) \<le> k"
proof (induction k arbitrary: n)
  case 0
  then show ?case by (subst dec_rev.simps) simp
next
  case (Suc k)
  then have "n div 10 < 10 ^ k" by auto
  with Suc.IH show ?case by (subst dec_rev.simps) simp
qed

lemma is_digit_facts:
  assumes "is_digit c"
  shows "c \<noteq> 0" and "sint c = uint c" and "48 \<le> uint c" and "uint c \<le> 57"
    and "\<not> atoi_space c" and "c \<noteq> 43" and "c \<noteq> 45"
  using assms by (auto simp: is_digit_def word_le_def sint_byte atoi_space_def)

section \<open>The digit and reversal loops of itoa\<close>

lemma smod_sdiv_nat:
  "(int n) smod 10 = int (n mod 10)" "(int n) sdiv 10 = int (n div 10)"
  by (simp_all add: signed_modulo_int_def signed_divide_int_def of_nat_mod of_nat_div sgn_if)

lemma itoa_digits_dec_rev:
  "i + length (dec_rev n) \<le> length b \<Longrightarrow>
   itoa_digits (int n) b i = Some (overwrite b i (dec_rev n), i + length (dec_rev n))"
proof (induction n arbitrary: b i rule: dec_rev.induct)
  case (1 n)
  show ?case
  proof (cases "n = 0")
    case True
    then show ?thesis by (subst itoa_digits.simps) (simp add: dec_rev.simps [of 0])
  next
    case False
    let ?d = "of_nat (n mod 10 + 48) :: byte"
    have d: "dec_rev n = ?d # dec_rev (n div 10)"
      using False by (subst dec_rev.simps) simp
    then have l: "i < length b" and "Suc i + length (dec_rev (n div 10)) \<le> length (b[i := ?d])"
      using "1.prems" by auto
    from "1.IH" [OF False this(2)]
    have "itoa_digits (int n) b i =
        Some (overwrite (b[i := ?d]) (Suc i) (dec_rev (n div 10)), Suc i + length (dec_rev (n div 10)))"
      using False l by (subst itoa_digits.simps) (simp add: smod_sdiv_nat)
    then show ?thesis using d l by (simp add: overwrite_Cons)
  qed
qed

text \<open>The reversal loop, with \<open>xs\<close> and \<open>zs\<close> the ends already exchanged.\<close>

lemma itoa_reverse_mid:
  assumes "str_at b 0 (xs @ ys @ zs)" and "length xs = length zs"
  shows "itoa_reverse b (length xs) = Some (overwrite b 0 (xs @ rev ys @ zs))"
  using assms
proof (induction "length ys" arbitrary: xs ys zs b rule: less_induct)
  case less
  note at = less.prems(1) and len = less.prems(2)
  have n: "strlen b 0 = Some (length xs + length ys + length zs)"
    using strlen_str_at [OF at] by simp
  have b: "take (length (xs @ ys @ zs)) b = xs @ ys @ zs" and lb: "length (xs @ ys @ zs) < length b"
    using at by (auto simp: str_at_iff)
  show ?case
  proof (cases "length ys < 2")
    case True
    then have "rev ys = ys" by (cases ys) auto
    moreover have "overwrite b 0 (xs @ ys @ zs) = b"
      using b by (simp add: overwrite_def) (metis append_take_drop_id append.assoc b length_append)
    moreover have "\<not> length xs < (length xs + length ys + length zs) div 2"
      using True len by simp
    ultimately show ?thesis using n by (subst itoa_reverse.simps) simp
  next
    case False
    then obtain a ms where "ys = a # ms" "ms \<noteq> []" by (cases ys) (auto simp: Suc_le_eq)
    then obtain m e where ys: "ys = a # m @ [e]" by (cases ms rule: rev_cases) auto
    let ?i = "length xs" and ?j = "length xs + length m + 1"
    let ?n = "length xs + length ys + length zs"
    let ?cs1 = "xs @ [e] @ m @ [e] @ zs" and ?cs2 = "(xs @ [e]) @ m @ ([a] @ zs)"
    obtain rest where br: "b = xs @ (a # m @ [e]) @ zs @ 0 # rest" and z: "0 \<notin> set (xs @ ys @ zs)"
      using at ys by (auto simp: str_at_0_iff)
    have j: "?n - 1 - ?i = ?j" using ys len by simp
    have ri: "rd b ?i = Some a" and rj: "rd b ?j = Some e"
      by (auto simp: br rd_def nth_append)
    have b1: "b[?i := e] = ?cs1 @ 0 # rest" by (simp add: br list_update_append)
    have n2: "strlen (b[?i := e]) 0 = Some ?n"
      using strlen_str_at [of "b[?i := e]" 0 ?cs1] z ys unfolding b1 by (auto simp: str_at_0_iff)
    have b2: "b[?i := e, ?j := a] = ?cs2 @ 0 # rest"
      unfolding b1 by (simp add: list_update_append)
    have "str_at (b[?i := e, ?j := a]) 0 ?cs2"
      unfolding b2 using z ys by (auto simp: str_at_0_iff)
    moreover have "length (xs @ [e]) = length ([a] @ zs)" "length m < length ys"
      using len ys by auto
    ultimately have "itoa_reverse (b[?i := e, ?j := a]) (Suc ?i) =
        Some (overwrite (b[?i := e, ?j := a]) 0 ((xs @ [e]) @ rev m @ ([a] @ zs)))"
      using less.hyps [of m "b[?i := e, ?j := a]" "xs @ [e]" "[a] @ zs"] by simp
    also have "\<dots> = Some (overwrite b 0 (xs @ rev ys @ zs))"
      unfolding b2 by (simp add: overwrite_def br ys)
    finally have rec: "itoa_reverse (b[?i := e, ?j := a]) (Suc ?i) = Some (overwrite b 0 (xs @ rev ys @ zs))" .
    have "?i < ?n div 2" "?i < length b" "?j < length b"
      using ys len lb by auto
    then show ?thesis
      using n n2 ri rj j rec by (subst itoa_reverse.simps) simp
  qed
qed

lemma itoa_reverse_str_at:
  "str_at b 0 cs \<Longrightarrow> itoa_reverse b 0 = Some (overwrite b 0 (rev cs))"
  using itoa_reverse_mid [of b "[]" cs "[]"] by simp


section \<open>Correctness of itoa\<close>

lemma dec_string_zero [simp]: "dec_string 0 = [48]"
  by (simp add: dec_string_def)

lemma dec_string_nonzero_bytes: "0 \<notin> set (dec_string n)"
  using dec_rev_digits [of "nat \<bar>n\<bar>"] is_digit_facts(1) by (auto simp: dec_string_def)

lemma length_dec_string: "\<bar>n\<bar> < 10 ^ 10 \<Longrightarrow> length (dec_string n) \<le> 11"
proof -
  assume "\<bar>n\<bar> < 10 ^ 10"
  then have "nat \<bar>n\<bar> < 10 ^ 10" by simp
  then have "length (dec_rev (nat \<bar>n\<bar>)) \<le> 10" by (rule length_dec_rev)
  then show ?thesis by (auto simp: dec_string_def abs_if split: if_splits)
qed

text \<open>The unreversed buffer before the final loop.\<close>

lemma itoa_dec_string:
  assumes range: "INT_MIN < nb" "nb \<le> INT_MAX" and room: "length (dec_string nb) < length b"
  shows "\<exists>b'. itoa nb b = Some b' \<and> str_at b' 0 (dec_string nb) \<and> length b' = length b \<and>
    (\<forall>i > length (dec_string nb). rd b' i = rd b i)"
proof (cases "nb = 0")
  case True
  have "1 < length b" using room True by simp
  then have "0 < length b" by linarith
  note this \<open>1 < length b\<close>
  then have "itoa nb b = Some (b[0 := 48, 1 := 0])" using True by (simp add: itoa_def)
  also have "b[0 := 48, 1 := 0] = overwrite b 0 ([48] @ [0])"
    using \<open>1 < length b\<close> by (cases b; cases "tl b"; simp add: overwrite_def)
  finally have "itoa nb b = Some (overwrite b 0 ([48] @ [0]))" .
  moreover have "str_at (overwrite b 0 ([48] @ [0])) 0 [48]"
    using room True by (intro str_at_overwrite) simp_all
  ultimately show ?thesis using room True by (simp add: rd_overwrite)
next
  case False
  let ?n = "nat \<bar>nb\<bar>" and ?r = "dec_rev (nat \<bar>nb\<bar>)"
  let ?cs = "?r @ (if nb < 0 then [45] else [])"
  have ds: "dec_string nb = rev ?cs" using False by (simp add: dec_string_def)
  have z: "0 \<notin> set ?cs" using dec_string_nonzero_bytes [of nb] unfolding ds by simp
  have l: "length ?cs < length b" using room unfolding ds by (simp add: add.commute)
  have abs: "(if nb < 0 then c_int (- nb) else Some nb) = Some (int ?n)"
    using range by (simp add: INT_MIN_def INT_MAX_def)
  have dig: "itoa_digits (int ?n) b 0 = Some (overwrite b 0 ?r, length ?r)"
    using itoa_digits_dec_rev [of 0 ?n b] l by (simp add: split: if_splits)
  let ?b3 = "overwrite b 0 (?cs @ [0])"
  have b3: "wr (if nb < 0 then (overwrite b 0 ?r)[length ?r := 45] else overwrite b 0 ?r) (length ?cs) 0 = Some ?b3"
    using l by (auto simp: overwrite_def list_update_append drop_update_swap upd_conv_take_nth_drop)
  have at: "str_at ?b3 0 ?cs" using z l by (intro str_at_overwrite) simp_all
  have "itoa nb b = itoa_reverse ?b3 0"
    using False abs dig b3 l by (auto simp: itoa_def split: if_splits)
  then have "itoa nb b = Some (overwrite ?b3 0 (dec_string nb))"
    using itoa_reverse_str_at [OF at] by (simp add: ds)
  moreover have "overwrite ?b3 0 (dec_string nb) = overwrite b 0 (dec_string nb @ [0])"
    using l by (simp add: overwrite_def ds)
  moreover have "str_at (overwrite b 0 (dec_string nb @ [0])) 0 (dec_string nb)"
    using room dec_string_nonzero_bytes by (intro str_at_overwrite) simp_all
  ultimately show ?thesis using room by (auto simp: rd_overwrite)
qed

section \<open>Correctness of atoi\<close>

lemma digits_value_mono: "0 \<le> v \<Longrightarrow> \<forall>d \<in> set ds. is_digit d \<Longrightarrow> v \<le> digits_value v ds"
proof (induction ds arbitrary: v)
  case (Cons d ds)
  then have "48 \<le> uint d" using is_digit_facts by simp
  then have "v \<le> v * 10 + (uint d - 48)" using Cons.prems(1) by simp
  also have "\<dots> \<le> digits_value (v * 10 + (uint d - 48)) ds"
    using Cons \<open>48 \<le> uint d\<close> by simp
  finally show ?case by simp
qed simp

lemma atoi_loop_digits:
  assumes "str_at s i (ds @ rest)" and "\<forall>d \<in> set ds. is_digit d" and "rest = [] \<or> \<not> is_digit (hd rest)"
    and "0 \<le> v" and "digits_value v ds \<le> INT_MAX"
  shows "atoi_loop s i v = Some (digits_value v ds)"
  using assms
proof (induction ds arbitrary: i v)
  case Nil
  have "\<not> (48 \<le> sint c \<and> sint c \<le> 57)" if "\<not> is_digit c" for c
    using that uint_byte_bounds [of c] by (auto simp: is_digit_def sint_byte word_le_def)
  with Nil show ?case by (subst atoi_loop.simps) (cases rest; auto)
next
  case (Cons d ds)
  let ?v = "v * 10 + (uint d - 48)"
  have d: "is_digit d" using Cons.prems(2) by simp
  have "?v \<le> digits_value ?v ds"
    using Cons.prems is_digit_facts(3) [OF d] by (intro digits_value_mono) auto
  then have "?v \<le> INT_MAX" using Cons.prems(5) by simp
  then have "c_int (v * 10) = Some (v * 10)" "c_int ?v = Some ?v"
    using Cons.prems(4) is_digit_facts(3) [OF d] by (simp_all add: c_int_def INT_MAX_def INT_MIN_def)
  moreover have "atoi_loop s (Suc i) ?v = Some (digits_value ?v ds)"
    using Cons is_digit_facts(3) [OF d] by simp
  ultimately show ?case
    using Cons.prems(1) is_digit_facts [OF d] by (subst atoi_loop.simps) simp
qed

lemma atoi_skip_stop: "rd s p = Some c \<Longrightarrow> \<not> atoi_space c \<Longrightarrow> atoi_skip s p = Some p"
  by (subst atoi_skip.simps) simp

lemma atoi_skip_spaces:
  "str_at s p (ws @ cs) \<Longrightarrow> \<forall>w \<in> set ws. atoi_space w \<Longrightarrow> cs = [] \<or> \<not> atoi_space (hd cs) \<Longrightarrow>
   atoi_skip s p = Some (p + length ws)"
proof (induction ws arbitrary: p)
  case Nil
  have "\<not> atoi_space 0" by (simp add: atoi_space_def)
  with Nil show ?case by (cases cs) (auto intro: atoi_skip_stop)
next
  case (Cons w ws)
  then show ?case by (subst atoi_skip.simps) simp
qed

text \<open>Blanks, an optional sign, digits, and anything that is not a digit.\<close>

lemma atoi_spec:
  assumes at: "str_at s p (ws @ sg @ ds @ rest)" and ws: "\<forall>w \<in> set ws. atoi_space w"
    and sg: "sg \<in> {[], [43], [45]}" and ds: "\<forall>d \<in> set ds. is_digit d" and ne: "ds \<noteq> []"
    and rest: "rest = [] \<or> \<not> is_digit (hd rest)" and fit: "digits_value 0 ds \<le> INT_MAX"
  shows "atoi s p = Some (if sg = [45] then - digits_value 0 ds else digits_value 0 ds)"
proof -
  obtain d ds' where d: "ds = d # ds'" "is_digit d" using ds ne by (cases ds) auto
  have "sg @ ds @ rest = [] \<or> \<not> atoi_space (hd (sg @ ds @ rest))"
    using sg d is_digit_facts(5) by (auto simp: atoi_space_def)
  with at ws have skip: "atoi_skip s p = Some (p + length ws)" by (intro atoi_skip_spaces)
  have at1: "str_at s (p + length ws) (sg @ ds @ rest)"
    using str_at_drop [OF at, of "length ws"] by simp
  have at2: "str_at s (p + length ws + length sg) (ds @ rest)"
    using str_at_drop [OF at1, of "length sg"] by simp
  have loop: "atoi_loop s (p + length ws + length sg) 0 = Some (digits_value 0 ds)"
    using at2 ds rest fit by (intro atoi_loop_digits) simp_all
  have "0 \<le> digits_value 0 ds" using ds by (intro digits_value_mono) simp_all
  then have neg: "c_int (- digits_value 0 ds) = Some (- digits_value 0 ds)"
    using fit by (simp add: c_int_def INT_MAX_def INT_MIN_def)
  show ?thesis
    using sg skip loop neg at1 d is_digit_facts(6,7) [OF d(2)] by (auto simp: atoi_def)
qed

lemma atoi_dec_string:
  assumes "str_at s p (dec_string n)" and "INT_MIN < n" "n \<le> INT_MAX"
  shows "atoi s p = Some n"
proof (cases "n = 0")
  case True
  have "is_digit 48" by (simp add: is_digit_def)
  then show ?thesis
    using atoi_spec [of s p "[]" "[]" "[48]" "[]"] assms True by (simp add: INT_MAX_def)
next
  case False
  let ?sg = "if n < 0 then [45] else [] :: byte list"
  let ?ds = "rev (dec_rev (nat \<bar>n\<bar>))"
  have v: "digits_value 0 ?ds = \<bar>n\<bar>" by (simp add: dec_rev_value)
  have "atoi s p = Some (if ?sg = [45] then - digits_value 0 ?ds else digits_value 0 ?ds)"
  proof (rule atoi_spec)
    show "str_at s p ([] @ ?sg @ ?ds @ [])" using assms(1) False by (simp add: dec_string_def)
    show "digits_value 0 ?ds \<le> INT_MAX" unfolding v using assms by (auto simp: INT_MAX_def INT_MIN_def)
    show "\<forall>d \<in> set ?ds. is_digit d" using dec_rev_digits by simp
  qed (use False in auto)
  then show ?thesis unfolding v by (simp split: if_splits)
qed


section \<open>Hexadecimal\<close>

text \<open>The reference: the digit of a value below 16, and the last \<open>k\<close> digits of a word.\<close>

definition hex_digit :: "u32 \<Rightarrow> byte" where
  "hex_digit v = (if v < 10 then 48 + ucast v else 55 + ucast v)"

primrec hex_digits :: "nat \<Rightarrow> u32 \<Rightarrow> byte list" where
  "hex_digits 0 v = []"
| "hex_digits (Suc k) v = hex_digits k (drop_bit 4 v) @ [hex_digit (v AND 15)]"

definition hex_fold :: "u32 \<Rightarrow> byte list \<Rightarrow> u32" where
  "hex_fold r cs = foldl (\<lambda>r c. push_bit 4 r OR the (hex_value c)) r cs"

lemma hex_fold_simps [simp]:
  "hex_fold r [] = r"
  "hex_fold r (c # cs) = hex_fold (push_bit 4 r OR the (hex_value c)) cs"
  "hex_fold r (cs @ [c]) = push_bit 4 (hex_fold r cs) OR the (hex_value c)"
  by (simp_all add: hex_fold_def)

lemma length_hex_digits [simp]: "length (hex_digits k v) = k"
  by (induction k arbitrary: v) auto

lemma hex_digit_value: "v < 16 \<Longrightarrow> hex_value (hex_digit v) = Some v \<and> hex_digit v \<noteq> 0"
proof -
  assume "v < 16"
  then have "unat v < 16" by (simp add: word_less_nat_alt)
  then obtain n where "unat v = n" "n \<in> {0..<16}" by simp
  then have v: "v = of_nat n" by (simp flip: \<open>unat v = n\<close>)
  have "n \<in> set [0..<16]" using \<open>n \<in> {0..<16}\<close> by simp
  then show ?thesis
    unfolding v by (simp add: upt_rec) (elim disjE; simp add: hex_digit_def hex_value_def)
qed

lemma hex_digits_ok: "\<forall>c \<in> set (hex_digits k v). c \<noteq> 0 \<and> hex_value c \<noteq> None"
proof (induction k arbitrary: v)
  case (Suc k)
  have "v AND 15 < 16"
    using word_and_le1 [of v 15] by (simp add: word_le_nat_alt word_less_nat_alt)
  then show ?case using Suc hex_digit_value [of "v AND 15"] by auto
qed simp

lemma hex_fold_digits: "hex_fold 0 (hex_digits k v) = take_bit (4 * k) v"
proof (induction k arbitrary: v)
  case (Suc k)
  have m: "v AND 15 = take_bit 4 v"
    using take_bit_eq_mask [of 4 v] by (simp add: mask_eq_exp_minus_1)
  have "take_bit 4 v < 16"
    unfolding m [symmetric] using word_and_le1 [of v 15] by (simp add: word_le_nat_alt word_less_nat_alt)
  then have "the (hex_value (hex_digit (take_bit 4 v))) = take_bit 4 v"
    using hex_digit_value by simp
  then have "hex_fold 0 (hex_digits (Suc k) v) = push_bit 4 (take_bit (4 * k) (drop_bit 4 v)) OR take_bit 4 v"
    using Suc.IH [of "drop_bit 4 v"] by (simp add: m)
  also have "\<dots> = take_bit (4 * Suc k) v"
    by (rule bit_word_eqI) (auto simp: bit_simps)
  finally show ?case .
qed simp

lemma htoi_loop_fold:
  assumes "str_at s i (cs @ rest)" and "\<forall>c \<in> set cs. hex_value c \<noteq> None"
    and "rest = [] \<or> hex_value (hd rest) = None"
  shows "htoi_loop s i r = Some (hex_fold r cs)"
  using assms
proof (induction cs arbitrary: i r)
  case Nil
  then show ?case by (subst htoi_loop.simps) (cases rest; auto)
next
  case (Cons c cs)
  then show ?case by (subst htoi_loop.simps) auto
qed

lemma htoi_skip_spaces:
  "str_at s p (replicate k 32 @ cs) \<Longrightarrow> cs = [] \<or> hd cs \<noteq> 32 \<Longrightarrow> htoi_skip s p = Some (p + k)"
proof (induction k arbitrary: p)
  case 0
  then show ?case by (subst htoi_skip.simps) (cases cs; auto)
next
  case (Suc k)
  then show ?case by (subst htoi_skip.simps) simp
qed

text \<open>Spaces, an \<open>0x\<close> or \<open>0X\<close> prefix, hexadecimal digits, and then anything else.\<close>

lemma htoi_prefixed:
  assumes at: "str_at s p (replicate k 32 @ [48, x] @ cs @ rest)" and x: "x = 120 \<or> x = 88"
    and cs: "\<forall>c \<in> set cs. hex_value c \<noteq> None" and rest: "rest = [] \<or> hex_value (hd rest) = None"
  shows "htoi s p = Some (hex_fold 0 cs)"
proof -
  have "htoi_skip s p = Some (p + k)" using htoi_skip_spaces [of s p k "[48, x] @ cs @ rest"] at by simp
  moreover have at1: "str_at s (p + k) ([48, x] @ cs @ rest)"
    using str_at_drop [OF at, of k] by simp
  moreover have "htoi_prefix s (p + k) = Some (p + k + 2)"
    using at1 x by (auto simp: htoi_prefix_def)
  moreover have "str_at s (p + k + 2) (cs @ rest)"
    using str_at_drop [OF at1, of 2] by simp
  then have "htoi_loop s (p + k + 2) 0 = Some (hex_fold 0 cs)"
    using cs rest by (rule htoi_loop_fold)
  ultimately show ?thesis by (simp add: htoi_def)
qed

section \<open>Where the conversions overflow\<close>

lemma itoa_least: "itoa INT_MIN b = None"
  by (simp add: itoa_def c_int_def INT_MIN_def INT_MAX_def)

lemma atoi_overflow: "atoi (lit ''2147483648'' @ [0]) 0 = None"
  by (simp add: atoi_def atoi_skip.simps atoi_loop.simps lit_def c_int_def INT_MIN_def INT_MAX_def rd_def atoi_space_def Let_def)

section \<open>Conversions of any string\<close>

lemma digits_value_bound: "\<forall>d \<in> set ds. is_digit d \<Longrightarrow> digits_value 0 ds < 10 ^ length ds"
proof (induction ds rule: rev_induct)
  case (snoc d ds)
  then have "uint d - 48 < 10" by (auto simp: is_digit_def word_le_def)
  then show ?case using snoc by simp
qed simp

text \<open>\<open>atoi\<close> of a word of at most nine characters does not overflow, whatever they are.\<close>

lemma atoi_loop_total:
  assumes "str_at s i cs" "length cs \<le> 9"
  shows "\<exists>n. atoi_loop s i 0 = Some n \<and> 0 \<le> n \<and> n < 1000000000"
proof -
  let ?ds = "takeWhile is_digit cs" and ?rest = "dropWhile is_digit cs"
  have d: "\<forall>d \<in> set ?ds. is_digit d" by (auto dest: set_takeWhileD)
  have "(10 :: int) ^ length ?ds \<le> 10 ^ 9"
    using assms(2) length_takeWhile_le [of is_digit cs] by (intro power_increasing) simp_all
  then have v: "0 \<le> digits_value 0 ?ds" "digits_value 0 ?ds < 1000000000"
    using digits_value_bound [OF d] digits_value_mono [of 0 ?ds] d by simp_all
  have "atoi_loop s i 0 = Some (digits_value 0 ?ds)"
    using assms(1) d v(2) hd_dropWhile [of is_digit cs]
    by (intro atoi_loop_digits [of s i ?ds ?rest]) (auto simp: INT_MAX_def)
  then show ?thesis using v by auto
qed

lemma atoi_total:
  assumes "str_at s p cs" "length cs \<le> 9"
  shows "\<exists>n. atoi s p = Some n"
proof -
  let ?ws = "takeWhile atoi_space cs" and ?es = "dropWhile atoi_space cs"
  let ?i = "p + length ?ws"
  have sk: "atoi_skip s p = Some ?i"
    using assms(1) hd_dropWhile [of atoi_space cs] by (intro atoi_skip_spaces [of s p ?ws ?es]) (auto dest: set_takeWhileD)
  have es: "str_at s ?i ?es" using str_at_drop [OF assms(1), of "length ?ws"] by (simp add: length_takeWhile_le dropWhile_eq_drop)
  have le: "length ?es \<le> 9" using assms(2) length_dropWhile_le [of atoi_space cs] by simp
  obtain c where c: "rd s ?i = Some c" using es by (cases ?es) auto
  have "\<exists>n. atoi_loop s (if c = 43 \<or> c = 45 then Suc ?i else ?i) 0 = Some n \<and> 0 \<le> n \<and> n < 1000000000"
  proof (cases "c = 43 \<or> c = 45")
    case True
    then obtain ds where "?es = c # ds" using es c by (cases ?es) auto
    then show ?thesis using atoi_loop_total [of s "Suc ?i" ds] es le True by simp
  qed (use atoi_loop_total [OF es le] in simp)
  then show ?thesis using sk c by (auto simp: atoi_def Let_def c_int_def INT_MIN_def INT_MAX_def)
qed

text \<open>What \<open>htoi\<close> makes of a string: spaces, a prefix, digits up to the first other character.\<close>

definition hex_of :: "byte list \<Rightarrow> u32" where
  "hex_of cs = (let es = dropWhile (\<lambda>c. c = 32) cs;
     ds = (if 2 \<le> length es \<and> es ! 0 = 48 \<and> es ! 1 \<in> {120, 88} then drop 2 es else es)
   in hex_fold 0 (takeWhile (\<lambda>c. hex_value c \<noteq> None) ds))"

lemma htoi_loop_total:
  assumes "str_at s i cs"
  shows "htoi_loop s i r = Some (hex_fold r (takeWhile (\<lambda>c. hex_value c \<noteq> None) cs))"
proof (rule htoi_loop_fold)
  show "str_at s i (takeWhile (\<lambda>c. hex_value c \<noteq> None) cs @ dropWhile (\<lambda>c. hex_value c \<noteq> None) cs)" using assms by simp
  show "\<forall>c \<in> set (takeWhile (\<lambda>c. hex_value c \<noteq> None) cs). hex_value c \<noteq> None" by (blast dest: set_takeWhileD)
  show "dropWhile (\<lambda>c. hex_value c \<noteq> None) cs = [] \<or> hex_value (hd (dropWhile (\<lambda>c. hex_value c \<noteq> None) cs)) = None"
    using hd_dropWhile [of "\<lambda>c. hex_value c \<noteq> None" cs] by blast
qed

lemma htoi_prefix_spec:
  assumes "str_at s i es"
  shows "htoi_prefix s i = Some (if 2 \<le> length es \<and> es ! 0 = 48 \<and> es ! 1 \<in> {120, 88} then i + 2 else i)"
proof (cases es)
  case (Cons c ds)
  then show ?thesis using assms by (cases ds) (auto simp: htoi_prefix_def)
qed (use assms in \<open>auto simp: htoi_prefix_def\<close>)

lemma htoi_spec:
  assumes "str_at s p cs"
  shows "htoi s p = Some (hex_of cs)"
proof -
  let ?k = "length (takeWhile (\<lambda>c. c = 32) cs)" and ?es = "dropWhile (\<lambda>c. c = 32) cs"
  have "replicate ?k 32 = takeWhile (\<lambda>c. c = 32) cs"
    by (rule replicate_eqI [symmetric]) (auto dest: set_takeWhileD)
  then have "str_at s p (replicate ?k 32 @ ?es)" using assms by simp
  then have sk: "htoi_skip s p = Some (p + ?k)" using hd_dropWhile [of "\<lambda>c. c = 32" cs] by (intro htoi_skip_spaces) auto
  have es: "str_at s (p + ?k) ?es" using str_at_drop [OF assms, of ?k] by (simp add: length_takeWhile_le dropWhile_eq_drop)
  show ?thesis
  proof (cases "2 \<le> length ?es \<and> ?es ! 0 = 48 \<and> ?es ! 1 \<in> {120, 88}")
    case True
    then have "str_at s (p + ?k + 2) (drop 2 ?es)" using str_at_drop [OF es, of 2] by simp
    moreover have "htoi_prefix s (p + ?k) = Some (p + ?k + 2)" unfolding htoi_prefix_spec [OF es] if_P [OF True] ..
    ultimately show ?thesis unfolding hex_of_def Let_def if_P [OF True]
      using htoi_loop_total [of s "p + ?k + 2" "drop 2 ?es" 0] by (simp add: htoi_def sk)
  next
    case False
    have "htoi_prefix s (p + ?k) = Some (p + ?k)" unfolding htoi_prefix_spec [OF es] if_not_P [OF False] ..
    then show ?thesis unfolding hex_of_def Let_def if_not_P [OF False] using htoi_loop_total [OF es, of 0] by (simp add: htoi_def sk)
  qed
qed

section \<open>Properties\<close>

text \<open>C38: itoa writes the decimal notation of every int but INT_MIN, and atoi reads it back.\<close>

theorem itoa_atoi_roundtrip:
  assumes "INT_MIN < n" "n \<le> INT_MAX" "12 \<le> length b"
  shows "\<exists>b'. itoa n b = Some b' \<and> str_at b' 0 (dec_string n) \<and> length b' = length b \<and> atoi b' 0 = Some n"
proof -
  have "\<bar>n\<bar> < 10 ^ 10" using assms(1,2) by (simp add: INT_MIN_def INT_MAX_def)
  then have "length (dec_string n) < length b" using length_dec_string [of n] assms(3) by simp
  from itoa_dec_string [OF assms(1,2) this] obtain b' where
    "itoa n b = Some b'" "str_at b' 0 (dec_string n)" "length b' = length b" by blast
  then show ?thesis using atoi_dec_string [of b' 0 n] assms(1,2) by simp
qed

theorem itoa_atoi_roundtrip_witness:
  "\<exists>b'. itoa (-305) (replicate 16 0) = Some b' \<and> atoi b' 0 = Some (-305)"
  using itoa_atoi_roundtrip [of "-305" "replicate 16 0"] by (auto simp: INT_MIN_def INT_MAX_def)

text \<open>atoi skips white space, takes one sign and reads digits up to the first other character; the
  result is their value whenever it fits an int.\<close>

theorem atoi_correct:
  assumes "str_at s p (ws @ sg @ ds @ rest)" and "\<forall>w \<in> set ws. atoi_space w"
    and "sg \<in> {[], [43], [45]}" and "\<forall>d \<in> set ds. is_digit d" and "ds \<noteq> []"
    and "rest = [] \<or> \<not> is_digit (hd rest)" and "digits_value 0 ds \<le> INT_MAX"
  shows "atoi s p = Some (if sg = [45] then - digits_value 0 ds else digits_value 0 ds)"
  using assms by (rule atoi_spec)

theorem atoi_correct_witness: "atoi [32, 45, 49, 50, 120, 0] 0 = Some (-12)"
proof -
  have "str_at [32, 45, 49, 50, 120, 0] 0 ([32] @ [45] @ [49, 50] @ [120])" by simp
  from atoi_correct [OF this] show ?thesis
    by (simp add: atoi_space_def is_digit_def digits_value_def INT_MAX_def)
qed

end
