(* ===== verification/Terminal.thy ===== *)
theory Terminal
  imports C_Integer
begin

text \<open>
  src/kernel/terminal.c (the 80x25 VGA text screen) with src/kernel/ainsi.zig (the ANSI escape
  parser every character goes through) and src/include/terminal.h.

  \<open>terminal_buffer\<close> is the array of 2000 cells at 0xB8000; a store outside it is \<open>None\<close>.
  \<open>vga_ports\<close> is the sequence of \<open>outb\<close> calls (port, value), oldest first. The values the two
  \<open>inb\<close> calls of \<open>terminal_enable_cursor\<close> return are arguments. \<open>size_t\<close> rows and columns are
  \<open>nat\<close>: the invariant \<open>term_ok\<close> keeps them below 25 and 80, so no unsigned wrap-around occurs.
  The build without \<open>AURI_TEST_MODE\<close> is modelled (no copy of the output to the serial line).
\<close>

section \<open>State\<close>

datatype vga_color = VGA_COLOR_BLACK | VGA_COLOR_BLUE | VGA_COLOR_GREEN | VGA_COLOR_CYAN
  | VGA_COLOR_RED | VGA_COLOR_MAGENTA | VGA_COLOR_BROWN | VGA_COLOR_LIGHT_GREY
  | VGA_COLOR_DARK_GREY | VGA_COLOR_LIGHT_BLUE | VGA_COLOR_LIGHT_GREEN | VGA_COLOR_LIGHT_CYAN
  | VGA_COLOR_LIGHT_RED | VGA_COLOR_LIGHT_MAGENTA | VGA_COLOR_LIGHT_BROWN | VGA_COLOR_WHITE

fun vga_color_value :: "vga_color \<Rightarrow> byte" where
  "vga_color_value VGA_COLOR_BLACK = 0"
| "vga_color_value VGA_COLOR_BLUE = 1"
| "vga_color_value VGA_COLOR_GREEN = 2"
| "vga_color_value VGA_COLOR_CYAN = 3"
| "vga_color_value VGA_COLOR_RED = 4"
| "vga_color_value VGA_COLOR_MAGENTA = 5"
| "vga_color_value VGA_COLOR_BROWN = 6"
| "vga_color_value VGA_COLOR_LIGHT_GREY = 7"
| "vga_color_value VGA_COLOR_DARK_GREY = 8"
| "vga_color_value VGA_COLOR_LIGHT_BLUE = 9"
| "vga_color_value VGA_COLOR_LIGHT_GREEN = 10"
| "vga_color_value VGA_COLOR_LIGHT_CYAN = 11"
| "vga_color_value VGA_COLOR_LIGHT_RED = 12"
| "vga_color_value VGA_COLOR_LIGHT_MAGENTA = 13"
| "vga_color_value VGA_COLOR_LIGHT_BROWN = 14"
| "vga_color_value VGA_COLOR_WHITE = 15"

datatype ansi_state = Normal | Escape | Bracket (params: "u16 list") (param_index: nat)

record ansi_color =
  fg :: byte
  bg :: byte

record terminal =
  terminal_row :: nat
  terminal_column :: nat
  terminal_color :: byte
  terminal_buffer :: "u16 list"
  vga_ports :: "(u16 \<times> byte) list"
  current_state :: ansi_state
  active_color :: ansi_color

definition VGA_WIDTH :: nat where "VGA_WIDTH = 80"
definition VGA_HEIGHT :: nat where "VGA_HEIGHT = 25"

section \<open>terminal.c\<close>

definition outb :: "u16 \<Rightarrow> byte \<Rightarrow> terminal \<Rightarrow> terminal" where
  "outb port v t = t\<lparr>vga_ports := vga_ports t @ [(port, v)]\<rparr>"

definition terminal_enable_cursor :: "byte \<Rightarrow> byte \<Rightarrow> byte \<Rightarrow> byte \<Rightarrow> terminal \<Rightarrow> terminal" where
  "terminal_enable_cursor cursor_start cursor_end in1 in2 t =
     (let t1 = outb 0x3D4 0x0A t;
          t2 = outb 0x3D5 ((in1 AND 0xC0) OR cursor_start) t1;
          t3 = outb 0x3D4 0x0B t2
      in outb 0x3D5 ((in2 AND 0xE0) OR cursor_end) t3)"

definition terminal_update_cursor :: "nat \<Rightarrow> nat \<Rightarrow> terminal \<Rightarrow> terminal" where
  "terminal_update_cursor x y t =
     (let pos = (of_nat (y * VGA_WIDTH + x) :: u16);
          t1 = outb 0x3D4 0x0F t;
          t2 = outb 0x3D5 (ucast (pos AND 0xFF)) t1;
          t3 = outb 0x3D4 0x0E t2
      in outb 0x3D5 (ucast (drop_bit 8 pos AND 0xFF)) t3)"

definition vga_entry_color :: "vga_color \<Rightarrow> vga_color \<Rightarrow> byte" where
  "vga_entry_color f b = vga_color_value f OR push_bit 4 (vga_color_value b)"

definition vga_entry :: "byte \<Rightarrow> byte \<Rightarrow> u16" where
  "vga_entry uc color = ucast uc OR push_bit 8 (ucast color)"

definition store_cell :: "nat \<Rightarrow> u16 \<Rightarrow> terminal \<Rightarrow> terminal option" where
  "store_cell i v t = do { b \<leftarrow> wr (terminal_buffer t) i v; Some (t\<lparr>terminal_buffer := b\<rparr>) }"

definition terminal_initialize :: "byte \<Rightarrow> byte \<Rightarrow> terminal \<Rightarrow> terminal option" where
  "terminal_initialize in1 in2 t = do {
     let t1 = t\<lparr>terminal_row := 0, terminal_column := 0,
                terminal_color := vga_entry_color VGA_COLOR_LIGHT_GREY VGA_COLOR_BLACK\<rparr>;
     t2 \<leftarrow> for_upto 0 VGA_HEIGHT (\<lambda>y. for_upto 0 VGA_WIDTH (\<lambda>x t.
             store_cell (y * VGA_WIDTH + x) (vga_entry 32 (terminal_color t)) t)) t1;
     let t3 = terminal_enable_cursor 0 15 in1 in2 t2;
     Some (terminal_update_cursor (terminal_column t3) (terminal_row t3) t3) }"

definition terminal_setcolor :: "byte \<Rightarrow> terminal \<Rightarrow> terminal" where
  "terminal_setcolor color t = t\<lparr>terminal_color := color\<rparr>"

definition terminal_putentryat :: "byte \<Rightarrow> byte \<Rightarrow> nat \<Rightarrow> nat \<Rightarrow> terminal \<Rightarrow> terminal option" where
  "terminal_putentryat c color x y t = store_cell (y * VGA_WIDTH + x) (vga_entry c color) t"

definition terminal_scroll :: "terminal \<Rightarrow> terminal option" where
  "terminal_scroll t = do {
     t1 \<leftarrow> for_upto 1 VGA_HEIGHT (\<lambda>y. for_upto 0 VGA_WIDTH (\<lambda>x t. do {
             v \<leftarrow> rd (terminal_buffer t) (y * VGA_WIDTH + x);
             store_cell ((y - 1) * VGA_WIDTH + x) v t })) t;
     for_upto 0 VGA_WIDTH (\<lambda>x t.
       store_cell ((VGA_HEIGHT - 1) * VGA_WIDTH + x) (vga_entry 32 (terminal_color t)) t) t1 }"

text \<open>\<open>if (++terminal_row == VGA_HEIGHT) { terminal_scroll(); terminal_row = VGA_HEIGHT - 1; }\<close>\<close>

definition terminal_next_row :: "terminal \<Rightarrow> terminal option" where
  "terminal_next_row t = (let t1 = t\<lparr>terminal_row := terminal_row t + 1\<rparr> in
     if terminal_row t1 = VGA_HEIGHT
     then do { t2 \<leftarrow> terminal_scroll t1; Some (t2\<lparr>terminal_row := VGA_HEIGHT - 1\<rparr>) }
     else Some t1)"

definition terminal_putchar_raw :: "byte \<Rightarrow> terminal \<Rightarrow> terminal option" where
  "terminal_putchar_raw c t =
     (if c = 10 then do {
        t1 \<leftarrow> terminal_next_row (t\<lparr>terminal_column := 0\<rparr>);
        Some (terminal_update_cursor (terminal_column t1) (terminal_row t1) t1) }
      else do {
        t1 \<leftarrow> terminal_putentryat c (terminal_color t) (terminal_column t) (terminal_row t) t;
        let t2 = t1\<lparr>terminal_column := terminal_column t1 + 1\<rparr>;
        t3 \<leftarrow> (if terminal_column t2 = VGA_WIDTH
               then terminal_next_row (t2\<lparr>terminal_column := 0\<rparr>) else Some t2);
        Some (terminal_update_cursor (terminal_column t3) (terminal_row t3) t3) })"

definition terminal_clear :: "terminal \<Rightarrow> terminal option" where
  "terminal_clear t = do {
     t1 \<leftarrow> for_upto 0 VGA_HEIGHT (\<lambda>y. for_upto 0 VGA_WIDTH (\<lambda>x t.
             store_cell (y * VGA_WIDTH + x) (vga_entry 32 (terminal_color t)) t)) t;
     let t2 = t1\<lparr>terminal_row := 0, terminal_column := 0\<rparr>;
     Some (terminal_update_cursor (terminal_column t2) (terminal_row t2) t2) }"

definition terminal_clear_until_cursor :: "terminal \<Rightarrow> terminal option" where
  "terminal_clear_until_cursor t = for_upto 0 (terminal_row t * VGA_WIDTH + terminal_column t)
     (\<lambda>i t. store_cell i (vga_entry 32 (terminal_color t)) t) t"

definition terminal_clear_after_cursor :: "terminal \<Rightarrow> terminal option" where
  "terminal_clear_after_cursor t =
     for_upto (terminal_row t * VGA_WIDTH + terminal_column t) (VGA_WIDTH * VGA_HEIGHT)
       (\<lambda>i t. store_cell i (vga_entry 32 (terminal_color t)) t) t"

definition terminal_set_cursor :: "nat \<Rightarrow> nat \<Rightarrow> terminal \<Rightarrow> terminal" where
  "terminal_set_cursor x0 y0 t =
     (let x = (if x0 \<ge> VGA_WIDTH then VGA_WIDTH - 1 else x0);
          y = (if y0 \<ge> VGA_HEIGHT then VGA_HEIGHT - 1 else y0);
          t1 = t\<lparr>terminal_column := x, terminal_row := y\<rparr>
      in terminal_update_cursor (terminal_column t1) (terminal_row t1) t1)"

definition terminal_backspace :: "terminal \<Rightarrow> terminal option" where
  "terminal_backspace t = do {
     let t1 = (if terminal_column t > 0 then t\<lparr>terminal_column := terminal_column t - 1\<rparr>
               else if terminal_row t > 0
                 then t\<lparr>terminal_row := terminal_row t - 1, terminal_column := 79\<rparr>
               else t);
     t2 \<leftarrow> terminal_putentryat 32 (terminal_color t1) (terminal_column t1) (terminal_row t1) t1;
     Some (terminal_update_cursor (terminal_column t2) (terminal_row t2) t2) }"

text \<open>\<open>offset\<close> is an \<open>int\<close>; the sum with the position is checked for signed overflow.\<close>

definition terminal_move_cursor :: "int \<Rightarrow> terminal \<Rightarrow> terminal option" where
  "terminal_move_cursor offset t = do {
     p0 \<leftarrow> c_int (int (terminal_row t * VGA_WIDTH + terminal_column t) + offset);
     let p1 = (if p0 < 0 then 0 else p0);
     let p2 = (if p1 \<ge> int (VGA_WIDTH * VGA_HEIGHT) then int (VGA_WIDTH * VGA_HEIGHT) - 1 else p1);
     let t1 = t\<lparr>terminal_row := nat (p2 sdiv int VGA_WIDTH),
                terminal_column := nat (p2 smod int VGA_WIDTH)\<rparr>;
     Some (terminal_update_cursor (terminal_column t1) (terminal_row t1) t1) }"

section \<open>ainsi.zig\<close>

definition csi_to_vga :: "u16 \<Rightarrow> byte" where
  "csi_to_vga code =
     (if code = 0 then 0x07
      else if code = 30 \<or> code = 40 then 0 else if code = 31 \<or> code = 41 then 4
      else if code = 32 \<or> code = 42 then 2 else if code = 33 \<or> code = 43 then 6
      else if code = 34 \<or> code = 44 then 1 else if code = 35 \<or> code = 45 then 5
      else if code = 36 \<or> code = 46 then 3 else if code = 37 \<or> code = 47 then 7
      else if code = 90 then 8 else if code = 91 then 12 else if code = 92 then 10
      else if code = 93 then 14 else if code = 94 then 9 else if code = 95 then 13
      else if code = 96 then 11 else if code = 97 then 15
      else 0x07)"

definition to_vga :: "ansi_color \<Rightarrow> byte" where
  "to_vga a = csi_to_vga (ucast (fg a)) OR push_bit 4 (csi_to_vga (ucast (bg a)))"

definition drain :: "u16 \<Rightarrow> ansi_color \<Rightarrow> ansi_color" where
  "drain code a =
     (if (30 \<le> code \<and> code \<le> 39) \<or> (90 \<le> code \<and> code \<le> 97) then a\<lparr>fg := ucast code\<rparr>
      else if 40 \<le> code \<and> code \<le> 49 then a\<lparr>bg := ucast code\<rparr>
      else if code = 0 then a\<lparr>fg := 37, bg := 40\<rparr>
      else a)"

text \<open>\<open>p *| 10 +| n\<close> on \<open>u16\<close>: both operators saturate.\<close>

definition sat_digit :: "u16 \<Rightarrow> u16 \<Rightarrow> u16" where
  "sat_digit p n = of_nat (min 65535 (min 65535 (unat p * 10) + unat n))"

definition MAX_PARAMS :: nat where "MAX_PARAMS = 8"

definition ansi_process_char :: "byte \<Rightarrow> terminal \<Rightarrow> terminal option" where
  "ansi_process_char c t = (case current_state t of
     Normal \<Rightarrow>
       if c = 0x1B then Some (t\<lparr>current_state := Escape\<rparr>) else terminal_putchar_raw c t
   | Escape \<Rightarrow>
       if c = 0x5B then Some (t\<lparr>current_state := Bracket (replicate MAX_PARAMS 0) 0\<rparr>)
       else Some (t\<lparr>current_state := Normal\<rparr>)
   | Bracket ps i \<Rightarrow>
       if 0x30 \<le> c \<and> c \<le> 0x39 then do {
         p \<leftarrow> rd ps i;
         ps' \<leftarrow> wr ps i (sat_digit p (ucast (c - 0x30)));
         Some (t\<lparr>current_state := Bracket ps' i\<rparr>) }
       else if c = 0x4A then do {
         p0 \<leftarrow> rd ps 0;
         t1 \<leftarrow> (if p0 = 0 then terminal_clear_after_cursor t
               else if p0 = 1 then terminal_clear_until_cursor t
               else if p0 = 2 then terminal_clear t
               else Some t);
         Some (t1\<lparr>current_state := Normal\<rparr>) }
       else if c = 0x48 then do {
         p0 \<leftarrow> rd ps 0;
         p1 \<leftarrow> rd ps 1;
         let y = (if p0 = 0 then 1 else p0);
         let x = (if p1 = 0 then 1 else p1);
         let t1 = terminal_set_cursor (unat (x - 1)) (unat (y - 1)) t;
         Some (t1\<lparr>current_state := Normal\<rparr>) }
       else if c = 0x3B then Some (t\<lparr>current_state := Bracket ps ((i + 1) mod MAX_PARAMS)\<rparr>)
       else if c = 0x6D then do {
         a \<leftarrow> for_upto 0 (i + 1) (\<lambda>k a. do { p \<leftarrow> rd ps k; Some (drain p a) }) (active_color t);
         let t1 = terminal_setcolor (to_vga a) (t\<lparr>active_color := a\<rparr>);
         Some (t1\<lparr>current_state := Normal\<rparr>) }
       else Some (t\<lparr>current_state := Normal\<rparr>))"

section \<open>The output functions of terminal.c\<close>

definition terminal_putchar :: "byte \<Rightarrow> terminal \<Rightarrow> terminal option" where
  "terminal_putchar c t = ansi_process_char c t"

definition terminal_write :: "buf \<Rightarrow> nat \<Rightarrow> nat \<Rightarrow> terminal \<Rightarrow> terminal option" where
  "terminal_write data p n t =
     for_upto 0 n (\<lambda>i t. do { c \<leftarrow> rd data (p + i); terminal_putchar c t }) t"

definition terminal_writestring :: "buf \<Rightarrow> nat \<Rightarrow> terminal \<Rightarrow> terminal option" where
  "terminal_writestring data p t = do { n \<leftarrow> strlen data p; terminal_write data p n t }"

text \<open>\<open>for (int i = 9; i >= 2; i--)\<close>, the nibbles from the least significant one.\<close>

function print_hex_loop :: "nat \<Rightarrow> u32 \<Rightarrow> buf \<Rightarrow> buf option" where
  "print_hex_loop i val b =
     (if i \<ge> 2 then do {
        let nibble = (ucast (val AND 0xF) :: byte);
        b' \<leftarrow> wr b i (if nibble < 10 then 48 + nibble else 65 + (nibble - 10));
        print_hex_loop (i - 1) (drop_bit 4 val) b' }
      else Some b)"
  by pat_completeness auto
termination
  by (relation "measure (\<lambda>(i, val, b). i)") auto

declare print_hex_loop.simps [simp del]

text \<open>\<open>b0\<close> is the uninitialised \<open>char buf[11]\<close>.\<close>

definition print_hex_buf :: "buf \<Rightarrow> u32 \<Rightarrow> buf option" where
  "print_hex_buf b0 val = do {
     b1 \<leftarrow> wr b0 0 48;
     b2 \<leftarrow> wr b1 1 120;
     b3 \<leftarrow> print_hex_loop 9 val b2;
     wr b3 10 0 }"

definition terminal_print_hex :: "buf \<Rightarrow> u32 \<Rightarrow> terminal \<Rightarrow> terminal option" where
  "terminal_print_hex b0 val t = do { b \<leftarrow> print_hex_buf b0 val; terminal_writestring b 0 t }"

section \<open>Loops over the screen\<close>

definition blank :: "terminal \<Rightarrow> u16" where
  "blank t = vga_entry 32 (terminal_color t)"

lemma store_cell_in:
  "i < length (terminal_buffer t) \<Longrightarrow> store_cell i v t = Some (t\<lparr>terminal_buffer := (terminal_buffer t)[i := v]\<rparr>)"
  by (simp add: store_cell_def)

lemma fill_loop:
  assumes "i \<le> n" and "k + n \<le> length (terminal_buffer t)"
  shows "for_upto i n (\<lambda>x t. store_cell (k + x) (vga_entry 32 (terminal_color t)) t) t =
    Some (t\<lparr>terminal_buffer := overwrite (terminal_buffer t) (k + i) (replicate (n - i) (blank t))\<rparr>)"
proof -
  let ?b = "terminal_buffer t"
  let ?I = "\<lambda>j t'. t' = t\<lparr>terminal_buffer := overwrite ?b (k + i) (replicate (j - i) (blank t))\<rparr>"
  have "\<exists>s'. for_upto i n (\<lambda>x t. store_cell (k + x) (vga_entry 32 (terminal_color t)) t) t = Some s' \<and> ?I n s'"
  proof (rule for_upto_inv [where I = ?I])
    fix j s assume j: "i \<le> j" "j < n" and s: "?I j s"
    have "overwrite ?b (k + i) (replicate (Suc j - i) (blank t))
        = (overwrite ?b (k + i) (replicate (j - i) (blank t)))[k + j := blank t]"
    proof -
      have "replicate (Suc j - i) (blank t) = replicate (j - i) (blank t) @ [blank t]"
        using j by (simp add: Suc_diff_le replicate_append_same)
      moreover have "overwrite ?b (k + i) (replicate (j - i) (blank t) @ [blank t])
          = overwrite (overwrite ?b (k + i) (replicate (j - i) (blank t))) (k + j) [blank t]"
        using j assms overwrite_append [of "k + i" "replicate (j - i) (blank t)" "[blank t]" ?b] by simp
      ultimately show ?thesis
        using j assms by (simp add: overwrite_single)
    qed
    then show "\<exists>s'. store_cell (k + j) (vga_entry 32 (terminal_color s)) s = Some s' \<and> ?I (Suc j) s'"
      using j s assms by (auto simp: store_cell_in blank_def)
  qed (use assms in simp_all)
  then show ?thesis by simp
qed

lemma overwrite_replicate_prefix:
  "n + k \<le> length b \<Longrightarrow> take n b = replicate n v \<Longrightarrow> overwrite b n (replicate k v) = replicate (n + k) v @ drop (n + k) b"
  by (simp add: overwrite_def replicate_add)

lemma fill_screen:
  assumes "length (terminal_buffer t) = 2000"
  shows "for_upto 0 VGA_HEIGHT (\<lambda>y. for_upto 0 VGA_WIDTH (\<lambda>x t.
             store_cell (y * VGA_WIDTH + x) (vga_entry 32 (terminal_color t)) t)) t =
    Some (t\<lparr>terminal_buffer := replicate 2000 (blank t)\<rparr>)"
    (is "for_upto 0 VGA_HEIGHT ?body t = _")
proof -
  let ?b = "terminal_buffer t"
  let ?I = "\<lambda>y t'. t' = t\<lparr>terminal_buffer := replicate (y * 80) (blank t) @ drop (y * 80) ?b\<rparr>"
  have "\<exists>s'. for_upto 0 VGA_HEIGHT ?body t = Some s' \<and> ?I VGA_HEIGHT s'"
  proof (rule for_upto_inv [where I = ?I])
    fix y s assume y: "y < VGA_HEIGHT" and s: "?I y s"
    let ?bs = "replicate (y * 80) (blank t) @ drop (y * 80) ?b"
    have l: "y * 80 + 80 \<le> length (terminal_buffer s)" and bs: "blank s = blank t"
      using y s assms by (auto simp: VGA_HEIGHT_def blank_def)
    have "?body y s = Some (s\<lparr>terminal_buffer := overwrite ?bs (y * 80) (replicate 80 (blank t))\<rparr>)"
      using fill_loop [of 0 80 "y * 80" s] l s bs by (simp add: VGA_WIDTH_def)
    moreover have "overwrite ?bs (y * 80) (replicate 80 (blank t))
        = replicate (Suc y * 80) (blank t) @ drop (Suc y * 80) ?b"
      using l s by (subst overwrite_replicate_prefix) (simp_all add: add.commute)
    ultimately show "\<exists>s'. ?body y s = Some s' \<and> ?I (Suc y) s'" using s by simp
  qed simp_all
  then show ?thesis using assms by (simp add: VGA_HEIGHT_def)
qed

text \<open>The screen while it is being scrolled: the first \<open>m\<close> cells already come from one row below.\<close>

definition shifted :: "nat \<Rightarrow> 'a list \<Rightarrow> nat \<Rightarrow> 'a list" where
  "shifted w b m = take m (drop w b) @ drop m b"

lemma length_shifted [simp]: "m + w \<le> length b \<Longrightarrow> length (shifted w b m) = length b"
  by (simp add: shifted_def)

lemma nth_shifted: "m + w \<le> length b \<Longrightarrow> i < length b \<Longrightarrow> shifted w b m ! i = (if i < m then b ! (w + i) else b ! i)"
proof -
  assume "m + w \<le> length b" "i < length b"
  moreover from this have "length (take m (drop w b)) = m" by simp
  ultimately show ?thesis by (simp add: shifted_def nth_append)
qed

lemma shifted_step:
  assumes "m + w < length b"
  shows "shifted w b m ! (m + w) = b ! (m + w)"
    and "(shifted w b m)[m := b ! (m + w)] = shifted w b (Suc m)"
proof -
  show "shifted w b m ! (m + w) = b ! (m + w)"
    using assms by (simp add: nth_shifted)
  show "(shifted w b m)[m := b ! (m + w)] = shifted w b (Suc m)"
    using assms by (intro nth_equalityI) (auto simp: nth_shifted nth_list_update less_Suc_eq add.commute)
qed

lemma scroll_rows:
  assumes len: "length (terminal_buffer t) = 2000"
  shows "for_upto 1 VGA_HEIGHT (\<lambda>y. for_upto 0 VGA_WIDTH (\<lambda>x t. do {
             v \<leftarrow> rd (terminal_buffer t) (y * VGA_WIDTH + x);
             store_cell ((y - 1) * VGA_WIDTH + x) v t })) t =
    Some (t\<lparr>terminal_buffer := shifted 80 (terminal_buffer t) 1920\<rparr>)"
    (is "for_upto 1 VGA_HEIGHT ?row t = _")
proof -
  let ?b = "terminal_buffer t"
  let ?I = "\<lambda>y t'. t' = t\<lparr>terminal_buffer := shifted 80 ?b ((y - 1) * 80)\<rparr>"
  have "\<exists>s'. for_upto 1 VGA_HEIGHT ?row t = Some s' \<and> ?I VGA_HEIGHT s'"
  proof (rule for_upto_inv [where I = ?I])
    show "?I 1 t" by (simp add: shifted_def)
    fix y s assume y: "1 \<le> y" "y < VGA_HEIGHT" and s: "?I y s"
    let ?J = "\<lambda>x t'. t' = t\<lparr>terminal_buffer := shifted 80 ?b ((y - 1) * 80 + x)\<rparr>"
    have "\<exists>s'. ?row y s = Some s' \<and> ?J VGA_WIDTH s'"
    proof (rule for_upto_inv [where I = ?J])
      fix x u assume x: "x < VGA_WIDTH" and u: "?J x u"
      obtain m where m: "m = (y - 1) * 80 + x" by simp
      have "y * 80 = (y - 1) * 80 + 80" using y by (cases y) simp_all
      then have r: "y * VGA_WIDTH + x = m + 80" "m + 80 < length ?b"
        using x y len by (auto simp: m VGA_WIDTH_def VGA_HEIGHT_def)
      have u: "u = t\<lparr>terminal_buffer := shifted 80 ?b m\<rparr>" using u by (simp add: m)
      have "(do { v \<leftarrow> rd (terminal_buffer u) (m + 80); store_cell m v u })
          = Some (t\<lparr>terminal_buffer := shifted 80 ?b (Suc m)\<rparr>)"
        using r shifted_step [OF r(2)] by (simp add: u store_cell_in)
      then show "\<exists>s'. (do { v \<leftarrow> rd (terminal_buffer u) (y * VGA_WIDTH + x);
             store_cell ((y - 1) * VGA_WIDTH + x) v u }) = Some s' \<and> ?J (Suc x) s'"
        unfolding r(1) by (simp add: VGA_WIDTH_def m)
    qed (use s in simp_all)
    moreover have "(y - 1) * 80 + 80 = (Suc y - 1) * 80" using y by (cases y) simp_all
    ultimately show "\<exists>s'. ?row y s = Some s' \<and> ?I (Suc y) s'" by (simp add: VGA_WIDTH_def)
  qed (simp_all add: VGA_HEIGHT_def)
  then show ?thesis by (simp add: VGA_HEIGHT_def)
qed

lemma terminal_scroll_eq:
  assumes len: "length (terminal_buffer t) = 2000"
  shows "terminal_scroll t =
    Some (t\<lparr>terminal_buffer := drop 80 (terminal_buffer t) @ replicate 80 (blank t)\<rparr>)"
proof -
  let ?s = "t\<lparr>terminal_buffer := shifted 80 (terminal_buffer t) 1920\<rparr>"
  have "(VGA_HEIGHT - 1) * VGA_WIDTH = 1920" by (simp add: VGA_HEIGHT_def VGA_WIDTH_def)
  then have "terminal_scroll t = Some (?s\<lparr>terminal_buffer :=
      overwrite (terminal_buffer ?s) 1920 (replicate 80 (blank ?s))\<rparr>)"
    using fill_loop [of 0 80 1920 ?s] len scroll_rows [OF len]
    by (simp add: terminal_scroll_def VGA_WIDTH_def)
  then show ?thesis using len by (simp add: overwrite_def shifted_def blank_def)
qed


section \<open>The terminal invariant\<close>

text \<open>
  The cursor is on the screen, the screen has its 2000 cells, the parser's parameter index is in
  range, and the last four port writes told the video card the cursor's position.
\<close>

definition cursor_ports :: "nat \<Rightarrow> nat \<Rightarrow> (u16 \<times> byte) list" where
  "cursor_ports x y = (let pos = (of_nat (y * 80 + x) :: u16) in
     [(0x3D4, 0x0F), (0x3D5, ucast (pos AND 0xFF)), (0x3D4, 0x0E), (0x3D5, ucast (drop_bit 8 pos AND 0xFF))])"

definition parser_ok :: "ansi_state \<Rightarrow> bool" where
  "parser_ok a = (case a of Bracket ps i \<Rightarrow> length ps = 8 \<and> i < 8 | _ \<Rightarrow> True)"

definition term_ok :: "terminal \<Rightarrow> bool" where
  "term_ok t \<longleftrightarrow> terminal_row t < 25 \<and> terminal_column t < 80 \<and> length (terminal_buffer t) = 2000 \<and>
     parser_ok (current_state t) \<and>
     (\<exists>ps. vga_ports t = ps @ cursor_ports (terminal_column t) (terminal_row t))"

lemma parser_ok_simps [simp]:
  "parser_ok Normal" "parser_ok Escape" "parser_ok (Bracket ps i) \<longleftrightarrow> length ps = 8 \<and> i < 8"
  by (simp_all add: parser_ok_def)

lemma terminal_update_cursor_eq:
  "terminal_update_cursor x y t = t\<lparr>vga_ports := vga_ports t @ cursor_ports x y\<rparr>"
  by (simp add: terminal_update_cursor_def outb_def cursor_ports_def VGA_WIDTH_def Let_def)

text \<open>The linear position of the cursor.\<close>

definition cursor_pos :: "terminal \<Rightarrow> nat" where
  "cursor_pos t = terminal_row t * 80 + terminal_column t"

lemma cursor_pos_bound: "term_ok t \<Longrightarrow> cursor_pos t < 2000"
  by (simp add: term_ok_def cursor_pos_def)

lemma terminal_next_row_eq:
  assumes "length (terminal_buffer t) = 2000" "terminal_row t < 25"
  shows "terminal_next_row t = Some (if terminal_row t = 24
     then t\<lparr>terminal_buffer := drop 80 (terminal_buffer t) @ replicate 80 (blank t)\<rparr>
     else t\<lparr>terminal_row := terminal_row t + 1\<rparr>)"
proof (cases "terminal_row t = 24")
  case True
  then show ?thesis
    using assms terminal_scroll_eq [of "t\<lparr>terminal_row := 25\<rparr>"]
    by (simp add: terminal_next_row_def VGA_HEIGHT_def blank_def)
next
  case False
  then show ?thesis using assms by (simp add: terminal_next_row_def VGA_HEIGHT_def)
qed

lemma terminal_putchar_raw_ok:
  assumes "term_ok t"
  shows "\<exists>t'. terminal_putchar_raw c t = Some t' \<and> term_ok t' \<and>
    current_state t' = current_state t \<and> active_color t' = active_color t \<and> terminal_color t' = terminal_color t"
proof (cases "c = 10")
  case True
  then show ?thesis
    using assms by (auto simp: terminal_putchar_raw_def terminal_next_row_eq terminal_update_cursor_eq term_ok_def)
next
  case False
  have i: "terminal_row t * VGA_WIDTH + terminal_column t < length (terminal_buffer t)"
    using assms by (auto simp: term_ok_def VGA_WIDTH_def)
  show ?thesis
    using assms i False
    by (auto simp: terminal_putchar_raw_def terminal_putentryat_def store_cell_in terminal_next_row_eq
        terminal_update_cursor_eq term_ok_def VGA_WIDTH_def Let_def)
qed

lemma terminal_clear_eq:
  "length (terminal_buffer t) = 2000 \<Longrightarrow> terminal_clear t =
     Some (t\<lparr>terminal_buffer := replicate 2000 (blank t), terminal_row := 0, terminal_column := 0,
       vga_ports := vga_ports t @ cursor_ports 0 0\<rparr>)"
  by (simp add: terminal_clear_def fill_screen terminal_update_cursor_eq)

lemma terminal_clear_until_cursor_eq:
  "term_ok t \<Longrightarrow> terminal_clear_until_cursor t =
     Some (t\<lparr>terminal_buffer := overwrite (terminal_buffer t) 0 (replicate (cursor_pos t) (blank t))\<rparr>)"
  using fill_loop [of 0 "cursor_pos t" 0 t] cursor_pos_bound [of t]
  by (simp add: terminal_clear_until_cursor_def cursor_pos_def VGA_WIDTH_def term_ok_def)

lemma terminal_clear_after_cursor_eq:
  "term_ok t \<Longrightarrow> terminal_clear_after_cursor t =
     Some (t\<lparr>terminal_buffer := overwrite (terminal_buffer t) (cursor_pos t) (replicate (2000 - cursor_pos t) (blank t))\<rparr>)"
  using fill_loop [of "cursor_pos t" 2000 0 t] cursor_pos_bound [of t]
  by (simp add: terminal_clear_after_cursor_def cursor_pos_def VGA_WIDTH_def VGA_HEIGHT_def term_ok_def)

lemma terminal_set_cursor_eq:
  "terminal_set_cursor x y t = t\<lparr>terminal_column := min x 79, terminal_row := min y 24,
     vga_ports := vga_ports t @ cursor_ports (min x 79) (min y 24)\<rparr>"
  by (auto simp: terminal_set_cursor_def terminal_update_cursor_eq VGA_WIDTH_def VGA_HEIGHT_def Let_def min_def)

lemma terminal_backspace_ok:
  "term_ok t \<Longrightarrow> \<exists>t'. terminal_backspace t = Some t' \<and> term_ok t' \<and> current_state t' = current_state t"
  by (auto simp: terminal_backspace_def terminal_putentryat_def store_cell_in terminal_update_cursor_eq
      term_ok_def VGA_WIDTH_def Let_def)

lemma sdiv_smod_80: "0 \<le> p \<Longrightarrow> p sdiv 80 = p div 80 \<and> p smod 80 = p mod (80::int)"
  by (simp add: signed_divide_int_def signed_modulo_int_def sgn_if)

lemma terminal_move_cursor_eq:
  assumes ok: "term_ok t" and off: "- 2000000000 \<le> offset" "offset \<le> 2000000000"
  defines "p \<equiv> nat (max 0 (min 1999 (int (cursor_pos t) + offset)))"
  shows "terminal_move_cursor offset t = Some (t\<lparr>terminal_row := p div 80, terminal_column := p mod 80,
     vga_ports := vga_ports t @ cursor_ports (p mod 80) (p div 80)\<rparr>)"
proof -
  let ?q = "int (cursor_pos t) + offset"
  let ?r = "if (if ?q < 0 then 0 else ?q) \<ge> 2000 then 1999 else (if ?q < 0 then 0 else ?q)"
  have c: "c_int ?q = Some ?q"
    using cursor_pos_bound [OF ok] off by (simp add: c_int_def INT_MIN_def INT_MAX_def)
  have r: "?r = int p" by (auto simp: p_def)
  have "terminal_move_cursor offset t = Some (terminal_update_cursor (nat (?r smod 80)) (nat (?r sdiv 80))
      (t\<lparr>terminal_row := nat (?r sdiv 80), terminal_column := nat (?r smod 80)\<rparr>))"
    using c by (simp add: terminal_move_cursor_def VGA_WIDTH_def VGA_HEIGHT_def cursor_pos_def Let_def)
  then show ?thesis
    unfolding r using sdiv_smod_80 [of "int p"]
    by (simp add: terminal_update_cursor_eq nat_div_distrib nat_mod_distrib)
qed

lemma terminal_move_cursor_ok:
  assumes "term_ok t" "- 2000000000 \<le> offset" "offset \<le> 2000000000"
  shows "\<exists>t'. terminal_move_cursor offset t = Some t' \<and> term_ok t' \<and> current_state t' = current_state t"
proof -
  let ?p = "nat (max 0 (min 1999 (int (cursor_pos t) + offset)))"
  have "?p < 2000" by auto
  then have "?p div 80 < 25" by auto
  then show ?thesis
    using assms by (auto simp: terminal_move_cursor_eq term_ok_def)
qed


section \<open>The escape parser keeps the invariant\<close>

lemma term_ok_state: "term_ok t \<Longrightarrow> parser_ok a \<Longrightarrow> term_ok (t\<lparr>current_state := a\<rparr>)"
  by (simp add: term_ok_def)

lemma term_ok_color: "term_ok t \<Longrightarrow> term_ok (t\<lparr>active_color := a, terminal_color := c\<rparr>)"
  by (simp add: term_ok_def)

lemma term_ok_set_cursor: "term_ok t \<Longrightarrow> term_ok (terminal_set_cursor x y t)"
  by (auto simp: terminal_set_cursor_eq term_ok_def)

lemma term_ok_clears:
  assumes "term_ok t"
  shows "\<exists>t'. terminal_clear t = Some t' \<and> term_ok t'"
    and "\<exists>t'. terminal_clear_until_cursor t = Some t' \<and> term_ok t'"
    and "\<exists>t'. terminal_clear_after_cursor t = Some t' \<and> term_ok t'"
proof -
  have l: "length (terminal_buffer t) = 2000" "cursor_pos t < 2000"
    using assms cursor_pos_bound by (auto simp: term_ok_def)
  show "\<exists>t'. terminal_clear t = Some t' \<and> term_ok t'"
    using assms by (auto simp: terminal_clear_eq term_ok_def)
  show "\<exists>t'. terminal_clear_until_cursor t = Some t' \<and> term_ok t'"
    using assms l by (auto simp: terminal_clear_until_cursor_eq term_ok_def)
  show "\<exists>t'. terminal_clear_after_cursor t = Some t' \<and> term_ok t'"
    using assms l by (auto simp: terminal_clear_after_cursor_eq term_ok_def)
qed

lemma drain_loop:
  "k \<le> length ps \<Longrightarrow> \<exists>a'. for_upto 0 k (\<lambda>j a. do { p \<leftarrow> rd ps j; Some (drain p a) }) a = Some a'"
  using for_upto_inv [of 0 k "\<lambda>_ _. True" a "\<lambda>j a. do { p \<leftarrow> rd ps j; Some (drain p a) }"] by auto

lemma ansi_bracket_ok:
  assumes ok: "term_ok t" and st: "current_state t = Bracket ps i"
  shows "\<exists>t'. ansi_process_char c t = Some t' \<and> term_ok t'"
proof -
  have b: "length ps = 8" "i < 8" using ok st by (auto simp: term_ok_def)
  then obtain a where a: "for_upto 0 (i + 1) (\<lambda>j a. do { p \<leftarrow> rd ps j; Some (drain p a) }) (active_color t) = Some a"
    using drain_loop [of "i + 1" ps "active_color t"] by auto
  have rds: "rd ps 0 = Some (ps ! 0)" "rd ps 1 = Some (ps ! 1)" "rd ps i = Some (ps ! i)"
    using b by auto
  let ?J = "if ps ! 0 = 0 then terminal_clear_after_cursor t
       else if ps ! 0 = 1 then terminal_clear_until_cursor t
       else if ps ! 0 = 2 then terminal_clear t else Some t"
  have "\<exists>t1. ?J = Some t1 \<and> term_ok t1" using ok term_ok_clears [OF ok] by simp
  then obtain t1 where t1: "?J = Some t1" "term_ok t1" by blast
  consider "0x30 \<le> c \<and> c \<le> 0x39" | "c = 0x4A" | "c = 0x48" | "c = 0x3B" | "c = 0x6D"
    | "\<not> (0x30 \<le> c \<and> c \<le> 0x39)" "c \<noteq> 0x4A" "c \<noteq> 0x48" "c \<noteq> 0x3B" "c \<noteq> 0x6D" by blast
  then show ?thesis
  proof cases
    case 1
    then show ?thesis using ok st b rds
      by (simp add: ansi_process_char_def term_ok_state)
  next
    case 2
    then have "ansi_process_char c t = Some (t1\<lparr>current_state := Normal\<rparr>)"
      using st rds t1(1) by (simp add: ansi_process_char_def split: if_splits)
    then show ?thesis using t1(2) by (simp add: term_ok_state)
  next
    case 3
    then show ?thesis using ok st rds
      by (simp add: ansi_process_char_def term_ok_state term_ok_set_cursor Let_def)
  next
    case 4
    then show ?thesis using ok st b
      by (simp add: ansi_process_char_def term_ok_state MAX_PARAMS_def)
  next
    case 5
    then show ?thesis using ok st a
      by (simp add: ansi_process_char_def term_ok_state term_ok_color terminal_setcolor_def)
  next
    case 6
    then show ?thesis using ok st by (auto simp: ansi_process_char_def term_ok_state)
  qed
qed

lemma terminal_putchar_ok: "term_ok t \<Longrightarrow> \<exists>t'. terminal_putchar c t = Some t' \<and> term_ok t'"
proof (cases "current_state t")
  case Normal
  then show "term_ok t \<Longrightarrow> ?thesis" using terminal_putchar_raw_ok [of t c]
    by (auto simp: terminal_putchar_def ansi_process_char_def term_ok_state)
next
  case Escape
  then show "term_ok t \<Longrightarrow> ?thesis"
    by (auto simp: terminal_putchar_def ansi_process_char_def term_ok_state MAX_PARAMS_def)
next
  case (Bracket ps i)
  then show "term_ok t \<Longrightarrow> ?thesis" using ansi_bracket_ok by (simp add: terminal_putchar_def)
qed

interpretation vga: console terminal_putchar term_ok
  by unfold_locales (rule terminal_putchar_ok)

lemma terminal_writestring_puts:
  "str_at s p cs \<Longrightarrow> terminal_writestring s p t = puts terminal_putchar cs t"
  using for_upto_puts [of s p cs 0 terminal_putchar t]
  by (simp add: terminal_writestring_def terminal_write_def strlen_str_at)

section \<open>Printing plain characters\<close>

definition plain :: "byte \<Rightarrow> bool" where
  "plain c \<longleftrightarrow> c \<noteq> 0x1B \<and> c \<noteq> 10"

lemma terminal_putchar_plain:
  assumes "term_ok t" "current_state t = Normal" "plain c" "Suc (cursor_pos t) < 2000"
  shows "\<exists>t'. terminal_putchar c t = Some t' \<and> term_ok t' \<and> current_state t' = Normal \<and>
    cursor_pos t' = Suc (cursor_pos t) \<and> terminal_color t' = terminal_color t \<and>
    terminal_buffer t' = (terminal_buffer t)[cursor_pos t := vga_entry c (terminal_color t)]"
proof -
  have i: "terminal_row t * 80 + terminal_column t < length (terminal_buffer t)"
    using assms by (auto simp: term_ok_def)
  show ?thesis
  proof (cases "terminal_column t = 79")
    case True
    then have "terminal_row t < 24" using assms(4) by (simp add: cursor_pos_def)
    then show ?thesis using assms i True
      by (auto simp: terminal_putchar_def ansi_process_char_def plain_def terminal_putchar_raw_def
          terminal_putentryat_def store_cell_in terminal_next_row_eq terminal_update_cursor_eq
          term_ok_def VGA_WIDTH_def cursor_pos_def Let_def)
  next
    case False
    then show ?thesis using assms i
      by (auto simp: terminal_putchar_def ansi_process_char_def plain_def terminal_putchar_raw_def
          terminal_putentryat_def store_cell_in terminal_update_cursor_eq
          term_ok_def VGA_WIDTH_def cursor_pos_def Let_def)
  qed
qed

lemma puts_plain:
  assumes "term_ok t" "current_state t = Normal" "\<forall>c \<in> set cs. plain c" "cursor_pos t + length cs < 2000"
  shows "\<exists>t'. puts terminal_putchar cs t = Some t' \<and> term_ok t' \<and> current_state t' = Normal \<and>
    cursor_pos t' = cursor_pos t + length cs \<and> terminal_color t' = terminal_color t \<and>
    terminal_buffer t' = overwrite (terminal_buffer t) (cursor_pos t) (map (\<lambda>c. vga_entry c (terminal_color t)) cs)"
  using assms
proof (induction cs arbitrary: t)
  case Nil
  then show ?case by simp
next
  case (Cons c cs)
  then obtain t1 where t1: "terminal_putchar c t = Some t1" "term_ok t1" "current_state t1 = Normal"
    "cursor_pos t1 = Suc (cursor_pos t)" "terminal_color t1 = terminal_color t"
    "terminal_buffer t1 = (terminal_buffer t)[cursor_pos t := vga_entry c (terminal_color t)]"
    using terminal_putchar_plain [of t c] by auto
  have "cursor_pos t < length (terminal_buffer t)"
    using Cons.prems cursor_pos_bound [of t] by (simp add: term_ok_def)
  then show ?case
    using Cons.IH [OF t1(2,3)] Cons.prems t1 by (auto simp: overwrite_Cons)
qed


section \<open>Control sequences\<close>

lemma putchar_escape:
  "current_state t = Normal \<Longrightarrow>
   puts terminal_putchar (0x1B # 0x5B # cs) t =
   puts terminal_putchar cs (t\<lparr>current_state := Bracket (replicate 8 0) 0\<rparr>)"
  by (simp add: terminal_putchar_def ansi_process_char_def MAX_PARAMS_def)

text \<open>A run of digits accumulates, saturating, in the current parameter.\<close>

definition param_fold :: "u16 \<Rightarrow> byte list \<Rightarrow> u16" where
  "param_fold p cs = foldl (\<lambda>p c. sat_digit p (ucast (c - 0x30))) p cs"

lemma param_fold_simps [simp]:
  "param_fold p [] = p" "param_fold p (c # cs) = param_fold (sat_digit p (ucast (c - 0x30))) cs"
  by (simp_all add: param_fold_def)

lemma is_digit_hex: "is_digit c \<longleftrightarrow> 0x30 \<le> c \<and> c \<le> 0x39"
  by (simp add: is_digit_def)

lemma putchar_digits:
  assumes "i < length ps" "\<forall>c \<in> set cs. is_digit c"
  shows "puts terminal_putchar (cs @ ds) (t\<lparr>current_state := Bracket ps i\<rparr>) =
    puts terminal_putchar ds (t\<lparr>current_state := Bracket (ps[i := param_fold (ps ! i) cs]) i\<rparr>)"
  using assms
proof (induction cs arbitrary: ps)
  case (Cons c cs)
  let ?ps = "ps[i := sat_digit (ps ! i) (ucast (c - 0x30))]"
  have "terminal_putchar c (t\<lparr>current_state := Bracket ps i\<rparr>) = Some (t\<lparr>current_state := Bracket ?ps i\<rparr>)"
    using Cons.prems by (simp add: terminal_putchar_def ansi_process_char_def is_digit_hex)
  moreover have "puts terminal_putchar (cs @ ds) (t\<lparr>current_state := Bracket ?ps i\<rparr>) =
    puts terminal_putchar ds (t\<lparr>current_state := Bracket (?ps[i := param_fold (?ps ! i) cs]) i\<rparr>)"
    using Cons by simp
  ultimately show ?case using Cons.prems by simp
qed simp

lemma sat_digit_value:
  assumes "is_digit c" "int (unat p) * 10 + (uint c - 48) \<le> 65535"
  shows "int (unat (sat_digit p (ucast (c - 0x30)))) = int (unat p) * 10 + (uint c - 48)"
proof -
  have c: "48 \<le> uint c" "uint c \<le> 57" using is_digit_facts assms(1) by auto
  then have le: "48 \<le> c" by (simp add: word_le_def)
  have "uint (c - 48) = uint c - 48" using le by (simp add: uint_minus_simple_alt [THEN iffD1])
  then have u: "int (unat (c - 48)) = uint c - 48" by simp
  then have "unat (c - 48) < 65536" using c by linarith
  then have "unat (ucast (c - 48) :: u16) = unat (c - 48)"
    by (simp add: unsigned_ucast_eq take_bit_nat_eq_self)
  then have "sat_digit p (ucast (c - 48)) = of_nat (min 65535 (min 65535 (unat p * 10) + unat (c - 48)))"
    by (simp only: sat_digit_def)
  moreover have s: "unat p * 10 + unat (c - 48) \<le> 65535" using assms(2) u by linarith
  then have "min 65535 (min 65535 (unat p * 10) + unat (c - 48)) = unat p * 10 + unat (c - 48)" by linarith
  ultimately have "unat (sat_digit p (ucast (c - 48))) = unat p * 10 + unat (c - 48)"
    using s by (simp only: unat_of_nat) (simp add: take_bit_nat_eq_self)
  then show ?thesis using u by linarith
qed

lemma param_fold_value:
  assumes "\<forall>c \<in> set cs. is_digit c" "digits_value (int (unat p)) cs \<le> 65535"
  shows "int (unat (param_fold p cs)) = digits_value (int (unat p)) cs"
  using assms
proof (induction cs arbitrary: p)
  case (Cons c cs)
  let ?v = "int (unat p) * 10 + (uint c - 48)"
  have c: "is_digit c" using Cons.prems by simp
  have "?v \<le> digits_value ?v cs"
    using Cons.prems is_digit_facts(3) [OF c] by (intro digits_value_mono) auto
  then have v: "int (unat (sat_digit p (ucast (c - 0x30)))) = ?v"
    using Cons.prems by (intro sat_digit_value) simp_all
  then show ?case using Cons.IH [of "sat_digit p (ucast (c - 0x30))"] Cons.prems by simp
qed simp

lemma dec_string_digits: "0 \<le> n \<Longrightarrow> \<forall>c \<in> set (dec_string n). is_digit c"
  using dec_rev_digits [of "nat n"] by (auto simp: dec_string_def is_digit_def)

lemma dec_string_value: "0 \<le> n \<Longrightarrow> digits_value 0 (dec_string n) = n"
  by (simp add: dec_string_def dec_rev_value)

lemma param_fold_dec:
  assumes "0 \<le> n" "n \<le> 65535"
  shows "param_fold 0 (dec_string n) = word_of_int n"
proof -
  have n: "int (unat (param_fold 0 (dec_string n))) = n"
    using param_fold_value [of "dec_string n" 0] dec_string_digits [of n] dec_string_value [of n] assms
    by simp
  show ?thesis by (subst n [symmetric]) simp
qed

text \<open>The text \<open>ESC [ y ; x H\<close> moves the cursor; nothing else on the screen changes.\<close>

lemma csi_cursor:
  assumes "term_ok t" "current_state t = Normal" "1 \<le> x" "x \<le> 65535" "1 \<le> y" "y \<le> 65535"
  shows "puts terminal_putchar ([0x1B, 0x5B] @ dec_string y @ [0x3B] @ dec_string x @ [0x48]) t =
    Some (t\<lparr>terminal_column := min (nat x - 1) 79, terminal_row := min (nat y - 1) 24,
       vga_ports := vga_ports t @ cursor_ports (min (nat x - 1) 79) (min (nat y - 1) 24)\<rparr>)"
proof -
  let ?X = "word_of_int x :: u16" and ?Y = "word_of_int y :: u16"
  let ?p1 = "(replicate 8 0)[0 := ?Y]" and ?p2 = "(replicate 8 0)[0 := ?Y, 1 := ?X]"
  let ?set = "\<lambda>ps i. t\<lparr>current_state := Bracket ps i\<rparr>"
  have d: "\<forall>c \<in> set (dec_string x). is_digit c" "\<forall>c \<in> set (dec_string y). is_digit c"
    using assms dec_string_digits [of x] dec_string_digits [of y] by simp_all
  have u: "uint ?X = x" "uint ?Y = y"
    using assms by (simp_all add: uint_word_of_int take_bit_int_eq_self)
  have nz: "?X \<noteq> 0" "?Y \<noteq> 0" using u assms by (auto simp del: uint_word_of_int)
  have m1: "unat (w - 1) = nat (uint w) - 1" if "w \<noteq> 0" for w :: u16
    using that by (simp add: unat_minus_one)
  have "puts terminal_putchar ([0x1B, 0x5B] @ dec_string y @ [0x3B] @ dec_string x @ [0x48]) t
      = puts terminal_putchar (dec_string y @ [0x3B] @ dec_string x @ [0x48]) (?set (replicate 8 0) 0)"
    using putchar_escape [OF assms(2)] by simp
  also have "\<dots> = puts terminal_putchar ([0x3B] @ dec_string x @ [0x48]) (?set ?p1 0)"
    using putchar_digits [of 0 "replicate 8 0"] d param_fold_dec [of y] assms by simp
  also have "\<dots> = puts terminal_putchar (dec_string x @ [0x48]) (?set ?p1 1)"
    by (simp add: terminal_putchar_def ansi_process_char_def MAX_PARAMS_def)
  also have "\<dots> = puts terminal_putchar [0x48] (?set ?p2 1)"
    using putchar_digits [of 1 ?p1] d param_fold_dec [of x] assms by simp
  also have "\<dots> = Some (terminal_set_cursor (nat x - 1) (nat y - 1) (?set ?p2 1)\<lparr>current_state := Normal\<rparr>)"
    using nz m1 [OF nz(1)] m1 [OF nz(2)] u
    by (simp add: terminal_putchar_def ansi_process_char_def Let_def)
  finally show ?thesis using assms(2) by (simp add: terminal_set_cursor_eq)
qed


section \<open>Hexadecimal output and colours\<close>

lemma print_hex_loop_digits:
  assumes "i < length b" "k = i - 1" "1 \<le> i"
  shows "print_hex_loop i v b = Some (overwrite b 2 (hex_digits k v))"
  using assms
proof (induction k arbitrary: i v b)
  case 0
  then show ?case by (subst print_hex_loop.simps) simp
next
  case (Suc k)
  let ?d = "hex_digit (v AND 15)"
  have n: "v AND 15 < 16"
    using word_and_le1 [of v 15] by (simp add: word_le_nat_alt word_less_nat_alt)
  have nib: "(if (ucast (v AND 15) :: byte) < 10 then 48 + ucast (v AND 15) else 65 + (ucast (v AND 15) - 10)) = ?d"
  proof -
    have u: "unat (ucast (v AND 15) :: byte) = unat (v AND 15)"
      using n by (simp add: unsigned_ucast_eq take_bit_nat_eq_self word_less_nat_alt)
    then have "(ucast (v AND 15) :: byte) < 10 \<longleftrightarrow> v AND 15 < 10"
      by (simp add: word_less_nat_alt)
    then show ?thesis by (simp add: hex_digit_def)
  qed
  have i: "i = k + 2" "2 \<le> i" using Suc.prems by simp_all
  have rec: "print_hex_loop (i - 1) (drop_bit 4 v) (b[i := ?d]) =
      Some (overwrite (b[i := ?d]) 2 (hex_digits k (drop_bit 4 v)))"
    using Suc.prems by (intro Suc.IH) auto
  have ow: "overwrite (b[i := ?d]) 2 (hex_digits k (drop_bit 4 v)) = overwrite b 2 (hex_digits (Suc k) v)"
  proof -
    have "2 + length (hex_digits k (drop_bit 4 v)) = i" using i(1) by simp
    then show ?thesis
      using overwrite_snoc [of 2 "hex_digits k (drop_bit 4 v)" b ?d] Suc.prems(1)
      unfolding hex_digits.simps by simp
  qed
  have "print_hex_loop i v b = do { b' \<leftarrow> wr b i ?d; print_hex_loop (i - 1) (drop_bit 4 v) b' }"
    unfolding nib [symmetric] using i(2) by (subst print_hex_loop.simps) (simp only: Let_def if_True)
  also have "wr b i ?d = Some (b[i := ?d])" using Suc.prems by simp
  finally show ?case unfolding rec ow bind.bind_lunit .
qed

lemma print_hex_buf_str:
  assumes "length b0 = 11"
  shows "\<exists>b. print_hex_buf b0 v = Some b \<and> str_at b 0 (48 # 120 # hex_digits 8 v)"
proof -
  let ?b2 = "b0[0 := 48, 1 := 120]"
  let ?b3 = "overwrite ?b2 2 (hex_digits 8 v)"
  have "print_hex_loop 9 v ?b2 = Some ?b3"
    using assms by (intro print_hex_loop_digits) auto
  then have "print_hex_buf b0 v = Some (?b3[10 := 0])"
    using assms by (auto simp: print_hex_buf_def)
  moreover have "?b3[10 := 0] = (48 # 120 # hex_digits 8 v) @ [0]"
    using assms by (intro nth_equalityI) (auto simp: overwrite_def nth_append nth_list_update nth_Cons' min_def numeral_2_eq_2)
  moreover have "0 \<notin> set (48 # 120 # hex_digits 8 v)"
    using hex_digits_ok [of 8 v] by fastforce
  then have "str_at ((48 # 120 # hex_digits 8 v) @ [0]) 0 (48 # 120 # hex_digits 8 v)"
    unfolding str_at_0_iff by blast
  ultimately show ?thesis by metis
qed

text \<open>The text of \<open>terminal_print_hex\<close>, read back by \<open>htoi\<close>.\<close>

lemma htoi_print_hex:
  assumes "length b0 = 11"
  shows "\<exists>b. print_hex_buf b0 v = Some b \<and> htoi b 0 = Some v"
proof -
  obtain b where b: "print_hex_buf b0 v = Some b" "str_at b 0 (48 # 120 # hex_digits 8 v)"
    using print_hex_buf_str [OF assms] by blast
  have "htoi b 0 = Some (hex_fold 0 (hex_digits 8 v))"
    using htoi_prefixed [of b 0 0 120 "hex_digits 8 v" "[]"] b(2) hex_digits_ok [of 8 v] by simp
  also have "hex_fold 0 (hex_digits 8 v) = v"
    unfolding hex_fold_digits by (simp add: take_bit_word_eq_self)
  finally show ?thesis using b(1) by blast
qed

text \<open>\<open>ESC [ n m\<close> sets the colour attribute through \<open>drain\<close> and \<open>to_vga\<close>.\<close>

lemma csi_sgr:
  assumes "current_state t = Normal" "0 \<le> n" "n \<le> 65535"
  shows "puts terminal_putchar ([0x1B, 0x5B] @ dec_string n @ [0x6D]) t =
    Some (t\<lparr>active_color := drain (word_of_int n) (active_color t),
       terminal_color := to_vga (drain (word_of_int n) (active_color t))\<rparr>)"
proof -
  let ?ps = "(replicate 8 0)[0 := word_of_int n]" and ?a = "drain (word_of_int n) (active_color t)"
  have "puts terminal_putchar ([0x1B, 0x5B] @ dec_string n @ [0x6D]) t
      = puts terminal_putchar (dec_string n @ [0x6D]) (t\<lparr>current_state := Bracket (replicate 8 0) 0\<rparr>)"
    using putchar_escape [OF assms(1)] by simp
  also have "\<dots> = puts terminal_putchar [0x6D] (t\<lparr>current_state := Bracket ?ps 0\<rparr>)"
    using putchar_digits [of 0 "replicate 8 0"] dec_string_digits [of n] param_fold_dec [of n] assms by simp
  also have "\<dots> = Some (t\<lparr>current_state := Normal, active_color := ?a, terminal_color := to_vga ?a\<rparr>)"
    by (simp add: terminal_putchar_def ansi_process_char_def for_upto_step terminal_setcolor_def)
  finally show ?thesis using assms(1) by simp
qed

section \<open>Properties\<close>

text \<open>An initialised terminal.\<close>

definition boot_terminal :: terminal where
  "boot_terminal = \<lparr>terminal_row = 0, terminal_column = 0, terminal_color = 7,
     terminal_buffer = replicate 2000 (vga_entry 32 7), vga_ports = cursor_ports 0 0,
     current_state = Normal, active_color = \<lparr>fg = 7, bg = 0\<rparr>\<rparr>"

lemma boot_terminal_ok: "term_ok boot_terminal" "current_state boot_terminal = Normal" "cursor_pos boot_terminal = 0"
  "terminal_color boot_terminal = 7" "length (terminal_buffer boot_terminal) = 2000"
  by (auto simp: term_ok_def boot_terminal_def cursor_pos_def intro: exI [of _ "[]"])

text \<open>C16: whatever bytes are printed, escape sequences included, every step is in bounds and keeps the
  terminal's invariant: the cursor on the screen, 2000 cells, at most eight parameters in the parser and
  the hardware cursor where the software cursor is.\<close>

theorem terminal_safe:
  assumes "term_ok t"
  shows "\<exists>t'. puts terminal_putchar cs t = Some t' \<and> term_ok t'"
  using assms by (rule vga.puts_ok)

theorem terminal_safe_witness:
  "\<exists>t'. puts terminal_putchar [0x1B, 0x5B, 0x39, 0x39, 0x3B, 0x48, 10, 200] boot_terminal = Some t' \<and> term_ok t'"
  using terminal_safe [OF boot_terminal_ok(1)] .

text \<open>C18: printing n plain characters that fit before the end of the screen writes them, in the current
  colour, into the n cells from the cursor on, changes no other cell and moves the cursor by n.\<close>

theorem terminal_prints_plain:
  assumes "term_ok t" "current_state t = Normal" "\<forall>c \<in> set cs. plain c" "cursor_pos t + length cs < 2000"
  shows "\<exists>t'. puts terminal_putchar cs t = Some t' \<and> term_ok t' \<and> cursor_pos t' = cursor_pos t + length cs \<and>
    terminal_buffer t' = overwrite (terminal_buffer t) (cursor_pos t) (map (\<lambda>c. vga_entry c (terminal_color t)) cs)"
  using puts_plain [OF assms] by blast

theorem terminal_prints_plain_witness:
  "\<exists>t'. puts terminal_putchar [104, 105] boot_terminal = Some t' \<and> cursor_pos t' = 2 \<and>
     terminal_buffer t' ! 1 = vga_entry 105 7"
proof -
  have "\<forall>c \<in> set [104, 105]. plain c" by (simp add: plain_def)
  from terminal_prints_plain [OF boot_terminal_ok(1,2) this] show ?thesis
    by (auto simp: boot_terminal_ok overwrite_def)
qed

text \<open>C17: a line feed on the last row scrolls: every row moves up by one, the last row becomes blank in the
  current colour, and the cursor stays on the last row, in column 0.\<close>

theorem terminal_scrolls:
  assumes "term_ok t" "current_state t = Normal" "terminal_row t = 24"
  shows "\<exists>t'. terminal_putchar 10 t = Some t' \<and> term_ok t' \<and>
    terminal_buffer t' = drop 80 (terminal_buffer t) @ replicate 80 (blank t) \<and>
    terminal_row t' = 24 \<and> terminal_column t' = 0"
  using assms terminal_putchar_raw_ok [OF assms(1), of 10]
  by (auto simp: terminal_putchar_def ansi_process_char_def terminal_putchar_raw_def terminal_next_row_eq
      terminal_update_cursor_eq term_ok_def blank_def)

theorem terminal_scrolls_witness:
  "\<exists>t'. terminal_putchar 10 (terminal_set_cursor 0 24 boot_terminal) = Some t' \<and> terminal_row t' = 24"
proof -
  let ?t = "terminal_set_cursor 0 24 boot_terminal"
  have "term_ok ?t" using boot_terminal_ok(1) by (rule term_ok_set_cursor)
  moreover have "current_state ?t = Normal" "terminal_row ?t = 24"
    by (simp_all add: terminal_set_cursor_eq boot_terminal_ok)
  ultimately show ?thesis using terminal_scrolls by blast
qed

text \<open>C19: the sequence ESC [ y ; x H with decimal parameters moves the cursor to row y - 1 and column x - 1,
  clamped to the screen, and changes nothing else but the hardware cursor.\<close>

theorem terminal_csi_cursor:
  assumes "term_ok t" "current_state t = Normal" "1 \<le> x" "x \<le> 65535" "1 \<le> y" "y \<le> 65535"
  shows "puts terminal_putchar ([0x1B, 0x5B] @ dec_string y @ [0x3B] @ dec_string x @ [0x48]) t =
    Some (t\<lparr>terminal_column := min (nat x - 1) 79, terminal_row := min (nat y - 1) 24,
       vga_ports := vga_ports t @ cursor_ports (min (nat x - 1) 79) (min (nat y - 1) 24)\<rparr>)"
  using assms by (rule csi_cursor)

theorem terminal_csi_cursor_witness:
  "\<exists>t'. puts terminal_putchar ([0x1B, 0x5B] @ dec_string 3 @ [0x3B] @ dec_string 500 @ [0x48]) boot_terminal = Some t' \<and>
     terminal_row t' = 2 \<and> terminal_column t' = 79"
  using terminal_csi_cursor [OF boot_terminal_ok(1,2), of 500 3] by simp

text \<open>terminal_move_cursor moves the cursor by any offset along the rows and stops at the two ends of
  the screen.\<close>

theorem terminal_move_clamps:
  assumes "term_ok t" "- 2000000000 \<le> offset" "offset \<le> 2000000000"
  shows "\<exists>t'. terminal_move_cursor offset t = Some t' \<and> term_ok t' \<and>
    int (cursor_pos t') = max 0 (min 1999 (int (cursor_pos t) + offset)) \<and> terminal_buffer t' = terminal_buffer t"
proof -
  let ?p = "nat (max 0 (min 1999 (int (cursor_pos t) + offset)))"
  from terminal_move_cursor_ok [OF assms] obtain t' where t': "terminal_move_cursor offset t = Some t'" "term_ok t'" by blast
  have "cursor_pos t' = ?p" "terminal_buffer t' = terminal_buffer t"
    using t'(1) terminal_move_cursor_eq [OF assms] by (auto simp: cursor_pos_def)
  with t' show ?thesis by auto
qed

theorem terminal_move_clamps_witness:
  "\<exists>t'. terminal_move_cursor 5000 boot_terminal = Some t' \<and> cursor_pos t' = 1999"
proof -
  have "- 2000000000 \<le> (5000 :: int)" "(5000 :: int) \<le> 2000000000" by simp_all
  from terminal_move_clamps [OF boot_terminal_ok(1) this] show ?thesis by (auto simp: boot_terminal_ok)
qed

text \<open>C27: htoi reads back the number terminal_print_hex prints, for every 32-bit value.\<close>

theorem print_hex_htoi_roundtrip:
  assumes "length b0 = 11"
  shows "\<exists>b. print_hex_buf b0 v = Some b \<and> str_at b 0 (48 # 120 # hex_digits 8 v) \<and> htoi b 0 = Some v"
proof -
  obtain b where b: "print_hex_buf b0 v = Some b" "str_at b 0 (48 # 120 # hex_digits 8 v)"
    using print_hex_buf_str [OF assms] by blast
  moreover have "htoi b 0 = Some v" using htoi_print_hex [OF assms, where v = v] b(1) by simp
  ultimately show ?thesis by blast
qed

theorem print_hex_htoi_roundtrip_witness:
  "\<exists>b. print_hex_buf (replicate 11 0) 0xDEADBEEF = Some b \<and> htoi b 0 = Some 0xDEADBEEF"
proof -
  have "length (replicate 11 (0 :: byte)) = 11" by simp
  from print_hex_htoi_roundtrip [OF this, where v = "0xDEADBEEF"] show ?thesis by blast
qed

end
