(* ===== verification/History.thy ===== *)
theory History
  imports C_String
begin

text \<open>
  src/kernel/history.c: the ring of the last 16 shell commands. The record mirrors
  \<open>history_t\<close>; the counters are C \<open>int\<close>s. A returned \<open>const char *\<close> into the structure is the
  array it points to (offset 0). The locale \<open>command_log\<close> is the interface the shell uses: a
  list of commands, newest first, a position in it and a saved draft line.
\<close>

section \<open>The code\<close>

definition HISTORY_CAPACITY :: int where "HISTORY_CAPACITY = 16"
definition HISTORY_ENTRY_SIZE :: nat where "HISTORY_ENTRY_SIZE = 256"

record history =
  h_entries :: "buf list"
  h_head :: int
  h_count :: int
  h_cursor :: int
  h_draft :: buf

definition slot :: "history \<Rightarrow> int \<Rightarrow> int option" where
  "slot h back = do {
     a \<leftarrow> c_int (h_head h - back);
     b \<leftarrow> c_int (a + HISTORY_CAPACITY);
     Some (b smod HISTORY_CAPACITY) }"

definition history_init :: "history \<Rightarrow> history option" where
  "history_init h = do {
     d \<leftarrow> wr (h_draft h) 0 0;
     Some (h\<lparr>h_head := 0, h_count := 0, h_cursor := 0, h_draft := d\<rparr>) }"

definition history_push :: "history \<Rightarrow> (buf \<times> nat) option \<Rightarrow> history option" where
  "history_push h cmd = (case cmd of
     None \<Rightarrow> Some h
   | Some (s, p) \<Rightarrow> do {
       c \<leftarrow> rd s p;
       if c = 0 then Some h
       else do {
         e \<leftarrow> rdi (h_entries h) (h_head h);
         e' \<leftarrow> strlcpy e 0 s p (HISTORY_ENTRY_SIZE - 1);
         es \<leftarrow> wri (h_entries h) (h_head h) e';
         d \<leftarrow> wr (h_draft h) 0 0;
         Some (h\<lparr>h_entries := es,
                 h_count := (if h_count h < HISTORY_CAPACITY then h_count h + 1 else HISTORY_CAPACITY),
                 h_head := (h_head h + 1) smod HISTORY_CAPACITY,
                 h_cursor := 0, h_draft := d\<rparr>) } })"

definition history_getcurrentcommand :: "history \<Rightarrow> buf option" where
  "history_getcurrentcommand h =
     (if h_cursor h = 0 then Some (h_draft h)
      else do { i \<leftarrow> slot h (h_cursor h); rdi (h_entries h) i })"

definition history_prev :: "history \<Rightarrow> (buf \<times> nat) option \<Rightarrow> (history \<times> buf) option" where
  "history_prev h current = do {
     d \<leftarrow> (case current of
            Some (s, p) \<Rightarrow>
              if h_cursor h = 0 then strlcpy (h_draft h) 0 s p (HISTORY_ENTRY_SIZE - 1)
              else Some (h_draft h)
          | None \<Rightarrow> Some (h_draft h));
     let h1 = h\<lparr>h_draft := d\<rparr>;
     let h2 = (if h_cursor h1 < h_count h1 then h1\<lparr>h_cursor := h_cursor h1 + 1\<rparr> else h1);
     r \<leftarrow> history_getcurrentcommand h2;
     Some (h2, r) }"

definition history_next :: "history \<Rightarrow> (history \<times> buf) option" where
  "history_next h = do {
     let h1 = (if h_cursor h > 0 then h\<lparr>h_cursor := h_cursor h - 1\<rparr> else h);
     r \<leftarrow> history_getcurrentcommand h1;
     Some (h1, r) }"

definition history_getcursor :: "history \<Rightarrow> int" where "history_getcursor h = h_cursor h"
definition history_getcount :: "history \<Rightarrow> int" where "history_getcount h = h_count h"
definition history_gethead :: "history \<Rightarrow> int" where "history_gethead h = h_head h"

text \<open>The static \<open>h\<close> before any call: zero bytes.\<close>

definition history_zero :: history where
  "history_zero = \<lparr>h_entries = replicate 16 (replicate 256 0), h_head = 0, h_count = 0,
     h_cursor = 0, h_draft = replicate 256 0\<rparr>"

section \<open>The interface\<close>

record log_view =
  commands :: "byte list list" \<comment> \<open>newest first\<close>
  position :: nat \<comment> \<open>0: the line being edited, k: the k-th newest command\<close>
  saved :: "byte list"

text \<open>A history entry holds a line cut to 254 bytes.\<close>

definition kept :: "byte list \<Rightarrow> byte list" where
  "kept cs = take 254 cs"

definition log_push :: "byte list \<Rightarrow> log_view \<Rightarrow> log_view" where
  "log_push cs v = (if cs = [] then v
     else \<lparr>commands = take 16 (kept cs # commands v), position = 0, saved = []\<rparr>)"

definition log_prev :: "byte list \<Rightarrow> log_view \<Rightarrow> log_view" where
  "log_prev cs v = v\<lparr>saved := (if position v = 0 then kept cs else saved v),
     position := (if position v < length (commands v) then position v + 1 else position v)\<rparr>"

definition log_next :: "log_view \<Rightarrow> log_view" where
  "log_next v = v\<lparr>position := position v - 1\<rparr>"

definition log_line :: "log_view \<Rightarrow> byte list" where
  "log_line v = (if position v = 0 then saved v else commands v ! (position v - 1))"

text \<open>
  Pressing Up \<open>k\<close> times, and Down \<open>k\<close> times, with the lines that come back in their order. As in the shell, the line
  that an Up brings is the one being edited at the next.
\<close>

primrec ups :: "('s \<Rightarrow> (buf \<times> nat) option \<Rightarrow> ('s \<times> buf) option) \<Rightarrow> nat \<Rightarrow> buf \<times> nat \<Rightarrow> 's \<Rightarrow> ('s \<times> buf list) option" where
  "ups prev 0 c s = Some (s, [])"
| "ups prev (Suc k) c s = do { (s1, r) \<leftarrow> prev s (Some c); (s2, rs) \<leftarrow> ups prev k (r, 0) s1; Some (s2, r # rs) }"

primrec downs :: "('s \<Rightarrow> ('s \<times> buf) option) \<Rightarrow> nat \<Rightarrow> 's \<Rightarrow> ('s \<times> buf list) option" where
  "downs nxt 0 s = Some (s, [])"
| "downs nxt (Suc k) s = do { (s1, r) \<leftarrow> nxt s; (s2, rs) \<leftarrow> downs nxt k s1; Some (s2, r # rs) }"

text \<open>The line at each position on the way.\<close>

definition line_at :: "log_view \<Rightarrow> nat \<Rightarrow> byte list" where
  "line_at v i = log_line (v\<lparr>position := i\<rparr>)"

locale command_log =
  fixes push :: "'s \<Rightarrow> (buf \<times> nat) option \<Rightarrow> 's option"
    and prev :: "'s \<Rightarrow> (buf \<times> nat) option \<Rightarrow> ('s \<times> buf) option"
    and nxt :: "'s \<Rightarrow> ('s \<times> buf) option"
    and view :: "'s \<Rightarrow> log_view"
    and inv :: "'s \<Rightarrow> bool"
  assumes push_law: "inv s \<Longrightarrow> str_at b p cs \<Longrightarrow>
      \<exists>s'. push s (Some (b, p)) = Some s' \<and> inv s' \<and> view s' = log_push cs (view s)"
    and prev_law: "inv s \<Longrightarrow> str_at b p cs \<Longrightarrow>
      \<exists>s' r. prev s (Some (b, p)) = Some (s', r) \<and> inv s' \<and> view s' = log_prev cs (view s) \<and>
        str_at r 0 (log_line (view s')) \<and> length r = 256"
    and next_law: "inv s \<Longrightarrow>
      \<exists>s' r. nxt s = Some (s', r) \<and> inv s' \<and> view s' = log_next (view s) \<and>
        str_at r 0 (log_line (view s')) \<and> length r = 256"
begin

lemma ups_law:
  assumes "inv s" "str_at b p cs" "position (view s) + k \<le> length (commands (view s))"
    "position (view s) = 0 \<or> saved (view s) = d"  "position (view s) = 0 \<longrightarrow> kept cs = d"
  shows "\<exists>s' rs. ups prev k (b, p) s = Some (s', rs) \<and> inv s' \<and> commands (view s') = commands (view s) \<and>
    position (view s') = position (view s) + k \<and> (0 < k \<longrightarrow> saved (view s') = d) \<and>
    list_all2 (\<lambda>r i. str_at r 0 (commands (view s) ! i)) rs [position (view s)..<position (view s) + k]"
  using assms
proof (induction k arbitrary: s b p cs)
  case 0
  then show ?case by simp
next
  case (Suc k)
  from prev_law [OF Suc.prems(1,2)] obtain s1 r where s1: "prev s (Some (b, p)) = Some (s1, r)" "inv s1"
    "view s1 = log_prev cs (view s)" "str_at r 0 (log_line (view s1))" by blast
  then have v: "position (view s1) = Suc (position (view s))" "commands (view s1) = commands (view s)" "saved (view s1) = d"
    using Suc.prems(3,4,5) by (auto simp: log_prev_def)
  have r: "str_at r 0 (commands (view s) ! position (view s))" using s1(4) v(1,2) by (simp add: log_line_def)
  obtain s2 rs where s2: "ups prev k (r, 0) s1 = Some (s2, rs)" "inv s2" "commands (view s2) = commands (view s)"
    "position (view s2) = Suc (position (view s)) + k" "0 < k \<longrightarrow> saved (view s2) = d"
    "list_all2 (\<lambda>r i. str_at r 0 (commands (view s) ! i)) rs [Suc (position (view s))..<Suc (position (view s)) + k]"
    using Suc.IH [OF s1(2,4)] Suc.prems(3) v by auto
  have "k = 0 \<Longrightarrow> s2 = s1" using s2(1) by simp
  then have "saved (view s2) = d" using s2(5) v(3) by (cases "k = 0") auto
  moreover have "[position (view s)..<position (view s) + Suc k] =
      position (view s) # [Suc (position (view s))..<Suc (position (view s)) + k]" by (simp add: upt_conv_Cons del: upt_Suc)
  ultimately show ?case using s1(1) s2 r by auto
qed

lemma downs_law:
  assumes "inv s" "k \<le> position (view s)"
  shows "\<exists>s' rs. downs nxt k s = Some (s', rs) \<and> inv s' \<and> commands (view s') = commands (view s) \<and>
    position (view s') = position (view s) - k \<and> saved (view s') = saved (view s) \<and>
    list_all2 (\<lambda>r i. str_at r 0 (line_at (view s) i)) rs (rev [position (view s) - k..<position (view s)])"
  using assms
proof (induction k arbitrary: s)
  case 0
  then show ?case by simp
next
  case (Suc k)
  from next_law [OF Suc.prems(1)] obtain s1 r where s1: "nxt s = Some (s1, r)" "inv s1" "view s1 = log_next (view s)"
    "str_at r 0 (log_line (view s1))" by blast
  let ?n = "position (view s) - 1"
  have v: "view s1 = (view s)\<lparr>position := ?n\<rparr>" "k \<le> position (view s1)" "line_at (view s1) = line_at (view s)"
    using s1(3) Suc.prems(2) by (auto simp: log_next_def line_at_def)
  obtain s2 rs where s2: "downs nxt k s1 = Some (s2, rs)" "inv s2" "commands (view s2) = commands (view s)"
    "position (view s2) = ?n - k" "saved (view s2) = saved (view s)"
    "list_all2 (\<lambda>r i. str_at r 0 (line_at (view s) i)) rs (rev [?n - k..<?n])"
    using Suc.IH [OF s1(2) v(2)] v(1,3) by auto
  have "rev [position (view s) - Suc k..<position (view s)] = ?n # rev [?n - k..<?n]"
    using Suc.prems(2) by (cases "position (view s)") simp_all
  moreover have "str_at r 0 (line_at (view s) ?n)" using s1(4) v(1) by (simp add: line_at_def)
  ultimately show ?case using s1(1) s2 by auto
qed

end

section \<open>Invariant and refinement\<close>

definition cstring :: "buf \<Rightarrow> byte list" where
  "cstring b = takeWhile (\<lambda>c. c \<noteq> 0) b"

lemma cstring_str_at [simp]: "str_at b 0 cs \<Longrightarrow> cstring b = cs"
  by (auto simp: str_at_0_iff cstring_def takeWhile_append2)
     (metis (mono_tags, lifting) append.right_neutral takeWhile.simps(2) takeWhile_append2)

lemma strings_map: "list_all2 (\<lambda>r i. str_at r 0 (f i)) rs is \<Longrightarrow> map cstring rs = map f is"
  by (induction rule: list_all2_induct) auto

definition is_line :: "buf \<Rightarrow> bool" where
  "is_line b \<longleftrightarrow> length b = 256 \<and> 0 \<in> set b"

lemma is_lineI: "str_at b 0 cs \<Longrightarrow> length b = 256 \<Longrightarrow> is_line b"
  by (auto simp: is_line_def str_at_0_iff)

lemma is_line_str_at: "is_line b \<Longrightarrow> str_at b 0 (cstring b)"
  using str_at_ex [of 0 b] cstring_str_at by (auto simp: is_line_def)

text \<open>The index of the \<open>k\<close>-th newest entry.\<close>

definition ring_index :: "int \<Rightarrow> nat \<Rightarrow> nat" where
  "ring_index h0 k = nat ((h0 - int k + 16) mod 16)"

definition history_ok :: "history \<Rightarrow> bool" where
  "history_ok h \<longleftrightarrow> length (h_entries h) = 16 \<and> (\<forall>e \<in> set (h_entries h). length e = 256) \<and>
     0 \<le> h_head h \<and> h_head h < 16 \<and> 0 \<le> h_count h \<and> h_count h \<le> 16 \<and>
     0 \<le> h_cursor h \<and> h_cursor h \<le> h_count h \<and> is_line (h_draft h) \<and>
     (\<forall>k. 1 \<le> k \<and> int k \<le> h_count h \<longrightarrow> 0 \<in> set (h_entries h ! ring_index (h_head h) k))"

definition history_view :: "history \<Rightarrow> log_view" where
  "history_view h =
     \<lparr>commands = map (\<lambda>k. cstring (h_entries h ! ring_index (h_head h) k)) [1..<Suc (nat (h_count h))],
      position = nat (h_cursor h), saved = cstring (h_draft h)\<rparr>"

lemma ring_bound: "ring_index h0 k < 16"
proof -
  have "0 \<le> (h0 - int k + 16) mod 16 \<and> (h0 - int k + 16) mod 16 < 16" by simp
  then show ?thesis unfolding ring_index_def by linarith
qed

lemma ring_index_cases:
  assumes "0 \<le> h0" "h0 < 16" "k \<le> 16"
  shows "ring_index h0 k = (if int k \<le> h0 then nat (h0 - int k) else nat (h0 - int k + 16))"
proof (cases "int k \<le> h0")
  case True
  then show ?thesis
    using assms mod_pos_pos_trivial [of "h0 - int k" 16] by (simp add: ring_index_def)
next
  case False
  then show ?thesis
    using assms mod_pos_pos_trivial [of "h0 - int k + 16" 16] by (simp add: ring_index_def)
qed

lemma next_head: "0 \<le> h0 \<Longrightarrow> h0 < 16 \<Longrightarrow> (h0 + 1) mod 16 = (if h0 = 15 then 0 else h0 + 1 :: int)"
  by (simp add: mod_pos_pos_trivial)

lemma ring_newest: "0 \<le> h0 \<Longrightarrow> h0 < 16 \<Longrightarrow> ring_index ((h0 + 1) mod 16) 1 = nat h0"
  by (subst ring_index_cases) (auto simp: next_head)

lemma ring_older:
  "0 \<le> h0 \<Longrightarrow> h0 < 16 \<Longrightarrow> k \<le> 15 \<Longrightarrow> ring_index ((h0 + 1) mod 16) (Suc k) = ring_index h0 k"
  by (subst (1 2) ring_index_cases) (auto simp: next_head)

lemma ring_not_head:
  "0 \<le> h0 \<Longrightarrow> h0 < 16 \<Longrightarrow> 1 \<le> k \<Longrightarrow> k \<le> 15 \<Longrightarrow> ring_index h0 k \<noteq> nat h0"
  by (subst ring_index_cases) auto

lemma smod_mod: "0 \<le> a \<Longrightarrow> a smod 16 = (a mod 16 :: int)"
  by (auto simp: signed_modulo_int_def sgn_if)

lemma slot_ring:
  "0 \<le> h_head h \<Longrightarrow> h_head h < 16 \<Longrightarrow> k \<le> 16 \<Longrightarrow> slot h (int k) = Some (int (ring_index (h_head h) k))"
  by (simp add: slot_def HISTORY_CAPACITY_def c_int_def INT_MIN_def INT_MAX_def ring_index_def smod_mod)

lemma strlcpy_line:
  assumes "str_at s p cs" and l: "length d = 256"
  shows "\<exists>d'. strlcpy d 0 s p (HISTORY_ENTRY_SIZE - 1) = Some d' \<and> str_at d' 0 (kept cs) \<and> length d' = 256"
proof -
  have "0 \<notin> set (kept cs)" and k: "length (kept cs) \<le> 254"
    using str_at_nonzero [OF assms(1)] by (auto simp: kept_def dest: in_set_takeD)
  moreover have "strlcpy d 0 s p (HISTORY_ENTRY_SIZE - 1) = Some (overwrite d 0 (kept cs @ [0]))"
    using strlcpy_str_at [OF assms(1), of "HISTORY_ENTRY_SIZE - 1" 0 d] l
    by (simp add: HISTORY_ENTRY_SIZE_def kept_def)
  ultimately show ?thesis using l by (auto intro!: str_at_overwrite)
qed

lemma history_ok_entry:
  assumes "history_ok h" "1 \<le> k" "int k \<le> h_count h"
  shows "is_line (h_entries h ! ring_index (h_head h) k)"
    and "rdi (h_entries h) (int (ring_index (h_head h) k)) = Some (h_entries h ! ring_index (h_head h) k)"
proof -
  have "ring_index (h_head h) k < length (h_entries h)"
    using assms(1) ring_bound by (simp add: history_ok_def)
  with assms show "is_line (h_entries h ! ring_index (h_head h) k)"
    by (auto simp: history_ok_def is_line_def)
  show "rdi (h_entries h) (int (ring_index (h_head h) k)) = Some (h_entries h ! ring_index (h_head h) k)"
    using \<open>ring_index (h_head h) k < length (h_entries h)\<close> by simp
qed

lemma history_current:
  assumes "history_ok h"
  shows "\<exists>r. history_getcurrentcommand h = Some r \<and> str_at r 0 (log_line (history_view h)) \<and> length r = 256"
proof (cases "h_cursor h = 0")
  case True
  have "is_line (h_draft h)" using assms by (simp add: history_ok_def)
  then show ?thesis
    using True is_line_str_at
    by (auto simp: history_getcurrentcommand_def log_line_def history_view_def is_line_def)
next
  case False
  define k where "k = nat (h_cursor h)"
  have k: "1 \<le> k" "int k \<le> h_count h" "h_cursor h = int k" "k \<le> 16"
    using assms False by (auto simp: history_ok_def k_def)
  have "slot h (int k) = Some (int (ring_index (h_head h) k))"
    using assms k by (intro slot_ring) (auto simp: history_ok_def)
  then have c: "history_getcurrentcommand h = Some (h_entries h ! ring_index (h_head h) k)"
    using False k history_ok_entry [OF assms k(1,2)] by (simp add: history_getcurrentcommand_def)
  have l: "log_line (history_view h) = cstring (h_entries h ! ring_index (h_head h) k)"
    using k by (auto simp: log_line_def history_view_def nth_append simp del: upt_Suc)
  have "is_line (h_entries h ! ring_index (h_head h) k)"
    using history_ok_entry [OF assms k(1,2)] by simp
  then show ?thesis
    unfolding c l using is_line_str_at by (auto simp: is_line_def)
qed

lemma is_line_clear: "is_line d \<Longrightarrow> is_line (d[0 := 0]) \<and> cstring (d[0 := 0]) = []"
  by (cases d) (auto simp: is_line_def cstring_def)

lemma history_push_entries:
  assumes ok: "history_ok h" and e': "length e' = 256" "str_at e' 0 cs" and d: "is_line d" "cstring d = []"
  defines "h' \<equiv> h\<lparr>h_entries := (h_entries h)[nat (h_head h) := e'],
      h_count := (if h_count h < 16 then h_count h + 1 else 16),
      h_head := (h_head h + 1) mod 16, h_cursor := 0, h_draft := d\<rparr>"
  shows "history_ok h'"
    and "history_view h' = \<lparr>commands = take 16 (cs # commands (history_view h)), position = 0, saved = []\<rparr>"
proof -
  let ?m = "nat (min 15 (h_count h))" and ?hd = "(h_head h + 1) mod 16"
  have b: "0 \<le> h_head h" "h_head h < 16" "0 \<le> h_count h" "h_count h \<le> 16" "length (h_entries h) = 16"
    using ok by (auto simp: history_ok_def)
  have c: "nat (h_count h') = Suc ?m" using b by (auto simp: h'_def)
  have new: "h_entries h' ! ring_index ?hd 1 = e'"
    using b ring_newest [of "h_head h"] by (simp add: h'_def)
  have old: "h_entries h' ! ring_index ?hd (Suc k) = h_entries h ! ring_index (h_head h) k"
    if "1 \<le> k" "k \<le> ?m" for k
  proof -
    have "k \<le> 15" using that by (auto simp: min_def split: if_splits)
    then show ?thesis
      using that b ring_older [of "h_head h" k] ring_not_head [of "h_head h" k] by (simp add: h'_def)
  qed
  have z: "0 \<in> set (h_entries h' ! ring_index ?hd k)" if "1 \<le> k" "k \<le> Suc ?m" for k
  proof (cases "k = 1")
    case True
    then show ?thesis using e'(2) new by (auto simp: str_at_0_iff)
  next
    case False
    then have "k = Suc (k - 1)" "1 \<le> k - 1" "k - 1 \<le> ?m" using that by auto
    then obtain j where "k = Suc j" "1 \<le> j" "j \<le> ?m" by blast
    then show ?thesis using old [of j] ok by (auto simp: history_ok_def)
  qed
  have len: "\<forall>e \<in> set (h_entries h'). length e = 256"
    using ok e'(1) set_update_subset_insert [of "h_entries h" "nat (h_head h)" e']
    by (auto simp: h'_def history_ok_def)
  show "history_ok h'"
    using b d z c len unfolding history_ok_def by (auto simp: h'_def)
  have "map (\<lambda>k. cstring (h_entries h' ! ring_index ?hd k)) [1..<Suc (Suc ?m)]
      = cs # map (\<lambda>k. cstring (h_entries h ! ring_index (h_head h) k)) [1..<Suc ?m]"
  proof -
    have "[1..<Suc (Suc ?m)] = 1 # map Suc [1..<Suc ?m]"
      by (simp add: upt_conv_Cons map_Suc_upt del: upt_Suc)
    then show ?thesis using new e'(2) old by (auto simp del: upt_Suc)
  qed
  also have "map (\<lambda>k. cstring (h_entries h ! ring_index (h_head h) k)) [1..<Suc ?m]
      = take 15 (commands (history_view h))"
    using b by (auto simp: history_view_def take_map min_def simp del: upt_Suc)
  finally show "history_view h' = \<lparr>commands = take 16 (cs # commands (history_view h)), position = 0, saved = []\<rparr>"
    using c d(2) by (simp add: history_view_def h'_def take_Cons')
qed

lemma history_push_refines:
  assumes ok: "history_ok h" and at: "str_at b p cs"
  shows "\<exists>h'. history_push h (Some (b, p)) = Some h' \<and> history_ok h' \<and>
    history_view h' = log_push cs (history_view h)"
proof (cases cs)
  case Nil
  then show ?thesis using ok at by (simp add: history_push_def log_push_def)
next
  case (Cons c cs')
  let ?i = "nat (h_head h)"
  have i: "0 \<le> h_head h" "h_head h < 16" "?i < length (h_entries h)" "is_line (h_draft h)"
    using ok by (auto simp: history_ok_def)
  have "length (h_entries h ! ?i) = 256" using ok i by (auto simp: history_ok_def)
  from strlcpy_line [OF at this] obtain e' where e':
    "strlcpy (h_entries h ! ?i) 0 b p (HISTORY_ENTRY_SIZE - 1) = Some e'" "str_at e' 0 (kept cs)" "length e' = 256"
    by blast
  have io: "rdi (h_entries h) (h_head h) = Some (h_entries h ! ?i)"
    "wri (h_entries h) (h_head h) e' = Some ((h_entries h)[?i := e'])"
    "wr (h_draft h) 0 0 = Some ((h_draft h)[0 := 0])"
    using i by (auto simp: rdi_def wri_def is_line_def)
  note res = history_push_entries [OF ok e'(3,2), of "(h_draft h)[0 := 0]"]
  show ?thesis
    using at Cons e'(1) io res is_line_clear [OF i(4)] i
    by (auto simp: history_push_def log_push_def HISTORY_CAPACITY_def smod_mod)
qed

lemma history_prev_refines:
  assumes ok: "history_ok h" and at: "str_at b p cs"
  shows "\<exists>h' r. history_prev h (Some (b, p)) = Some (h', r) \<and> history_ok h' \<and>
    history_view h' = log_prev cs (history_view h) \<and> str_at r 0 (log_line (history_view h')) \<and> length r = 256"
proof -
  have "length (h_draft h) = 256" using ok by (simp add: history_ok_def is_line_def)
  from strlcpy_line [OF at this] obtain d where d:
    "strlcpy (h_draft h) 0 b p (HISTORY_ENTRY_SIZE - 1) = Some d" "str_at d 0 (kept cs)" "length d = 256"
    by blast
  let ?d = "if h_cursor h = 0 then d else h_draft h"
  let ?h = "if h_cursor h < h_count h then h\<lparr>h_draft := ?d, h_cursor := h_cursor h + 1\<rparr>
    else h\<lparr>h_draft := ?d\<rparr>"
  have dl: "is_line ?d" using ok d by (auto simp: history_ok_def intro: is_lineI)
  then have ok': "history_ok ?h" using ok by (auto simp: history_ok_def)
  have v: "history_view ?h = log_prev cs (history_view h)"
    using ok d by (auto simp: history_view_def log_prev_def history_ok_def)
  obtain r where r: "history_getcurrentcommand ?h = Some r"
    "str_at r 0 (log_line (history_view ?h))" "length r = 256"
    using history_current [OF ok'] by blast
  have "history_prev h (Some (b, p)) = Some (?h, r)"
    using r(1) d(1) by (auto simp: history_prev_def Let_def)
  then show ?thesis using ok' v r by blast
qed

lemma history_next_refines:
  assumes ok: "history_ok h"
  shows "\<exists>h' r. history_next h = Some (h', r) \<and> history_ok h' \<and>
    history_view h' = log_next (history_view h) \<and> str_at r 0 (log_line (history_view h')) \<and> length r = 256"
proof -
  let ?c = "if h_cursor h > 0 then h_cursor h - 1 else h_cursor h"
  let ?h = "h\<lparr>h_cursor := ?c\<rparr>"
  have ok': "history_ok ?h" using ok by (auto simp: history_ok_def)
  have v: "history_view ?h = log_next (history_view h)"
    using ok by (auto simp: history_view_def log_next_def history_ok_def)
  obtain r where r: "history_getcurrentcommand ?h = Some r"
    "str_at r 0 (log_line (history_view ?h))" "length r = 256"
    using history_current [OF ok'] by blast
  have "history_next h = Some (?h, r)" using r(1) by (auto simp: history_next_def)
  then show ?thesis using ok' v r by blast
qed

interpretation hist: command_log history_push history_prev history_next history_view history_ok
  by unfold_locales (blast intro: history_push_refines history_prev_refines history_next_refines)+

lemma history_zero_ok: "history_ok history_zero"
  by (auto simp: history_ok_def history_zero_def is_line_def)

lemma history_zero_view: "history_view history_zero = \<lparr>commands = [], position = 0, saved = []\<rparr>"
  by (simp add: history_view_def history_zero_def cstring_def)

section \<open>Properties\<close>

text \<open>C20: history_push adds a non-empty line as the newest of at most 16 commands (cut to 254 bytes),
  forgets the draft and leaves history mode; an empty line changes nothing.\<close>

theorem history_push_correct:
  assumes "history_ok h" and "str_at b p cs"
  shows "\<exists>h'. history_push h (Some (b, p)) = Some h' \<and> history_ok h' \<and>
    history_view h' = log_push cs (history_view h)"
  using assms by (rule hist.push_law)

theorem history_push_correct_witness:
  "\<exists>h'. history_push history_zero (Some ([108, 115, 0], 0)) = Some h' \<and> commands (history_view h') = [[108, 115]]"
proof -
  have "str_at [108, 115, 0] 0 [108, 115]" by simp
  from history_push_correct [OF history_zero_ok this] show ?thesis
    by (auto simp: history_zero_view log_push_def kept_def)
qed

text \<open>C21: pressing Up k times, each time with the line that came back before, returns the k newest commands one
  after the other, newest first; pressing Down k times then returns the commands before the k-th again and, last, the line
  that was being edited when Up was first pressed (cut to 254 bytes). The stored commands do not change.\<close>

theorem history_up_down:
  assumes "history_ok h" "str_at b p cs" "position (history_view h) = 0"
    "0 < k" "k \<le> length (commands (history_view h))"
  shows "\<exists>h1 rs h2 ss. ups history_prev k (b, p) h = Some (h1, rs) \<and> map cstring rs = take k (commands (history_view h)) \<and>
    downs history_next k h1 = Some (h2, ss) \<and> map cstring ss = rev (take (k - 1) (commands (history_view h))) @ [kept cs] \<and>
    history_ok h2 \<and> commands (history_view h2) = commands (history_view h) \<and> position (history_view h2) = 0"
proof -
  let ?c = "commands (history_view h)"
  from hist.ups_law [OF assms(1,2), of k "kept cs"] assms(3,5) obtain h1 rs where
    1: "ups history_prev k (b, p) h = Some (h1, rs)" "history_ok h1" "commands (history_view h1) = ?c"
      "position (history_view h1) = k" "saved (history_view h1) = kept cs"
      "list_all2 (\<lambda>r i. str_at r 0 (?c ! i)) rs [0..<k]" using assms(4) by auto
  from hist.downs_law [OF 1(2), of k] 1(4) obtain h2 ss where
    2: "downs history_next k h1 = Some (h2, ss)" "history_ok h2" "commands (history_view h2) = commands (history_view h1)"
    "position (history_view h2) = 0" "list_all2 (\<lambda>r i. str_at r 0 (line_at (history_view h1) i)) ss (rev [0..<k])" by auto
  have "map cstring rs = map (\<lambda>i. ?c ! i) [0..<k]" by (rule strings_map [OF 1(6)])
  also have "\<dots> = take k ?c" using assms(5) by (simp add: list_eq_iff_nth_eq)
  finally have rs: "map cstring rs = take k ?c" .
  have l: "line_at (history_view h1) i = (if i = 0 then kept cs else ?c ! (i - 1))" for i
    using 1(3,5) by (simp add: line_at_def log_line_def)
  obtain j where j: "k = Suc j" using assms(4) by (cases k) simp_all
  have "map cstring ss = rev (map (line_at (history_view h1)) [0..<k])" using strings_map [OF 2(5)] by (simp add: rev_map)
  also have "map (line_at (history_view h1)) [0..<k] = kept cs # take j ?c"
    using assms(5) unfolding j by (intro nth_equalityI) (auto simp: l nth_Cons' simp del: upt_Suc)
  finally show ?thesis using 1(1,3) rs 2(1-4) j by (intro exI [of _ h1] exI [of _ rs] exI [of _ h2] exI [of _ ss]) simp
qed

theorem history_up_down_witness:
  "\<exists>h h1 rs h2 ss. history_push history_zero (Some ([108, 115, 0], 0)) = Some h \<and>
     ups history_prev 1 ([120, 0], 0) h = Some (h1, rs) \<and> map cstring rs = [[108, 115]] \<and>
     downs history_next 1 h1 = Some (h2, ss) \<and> map cstring ss = [[120]]"
proof -
  have "str_at [108, 115, 0] 0 [108, 115]" by simp
  from hist.push_law [OF history_zero_ok this] obtain h where
    h: "history_push history_zero (Some ([108, 115, 0], 0)) = Some h" "history_ok h"
      "history_view h = log_push [108, 115] (history_view history_zero)" by blast
  then have v: "commands (history_view h) = [[108, 115]]" "position (history_view h) = 0"
    by (simp_all add: history_zero_view log_push_def kept_def)
  have "str_at [120, 0] 0 [120]" by simp
  from history_up_down [OF h(2) this v(2), of 1] v(1) h(1) show ?thesis by (auto simp: kept_def)
qed

end
