(* ===== verification/Pmm.thy ===== *)
theory Pmm
  imports Auri_Prelude
begin

text \<open>
  src/mm/pmm.zig: the physical frame allocator. \<open>bitmap\<close> is a slice of bytes, one bit per 4096-byte
  page, 1 for used. Zig's checked operations are modelled: an index outside the slice, an
  overflowing \<open>usize\<close> addition and the overflow of the \<open>u3\<close> bit counter panic (the kernel hangs),
  which is \<open>None\<close>. The bytes of the bitmap are a field of the state, and so is its address: that no other
  part of the program writes them is a matter of \<open>own_pages\<close>. The locale \<open>frame_allocator\<close> is what the page tables and the heap rely on.
\<close>

section \<open>The code\<close>

definition PAGE_SIZE :: nat where "PAGE_SIZE = 4096"

record pmm =
  bitmap :: buf
  bitmap_at :: u32 \<comment> \<open>the address of the slice\<close>

definition pmm_init :: "u32 \<Rightarrow> u32 \<Rightarrow> pmm" where
  "pmm_init max_ram_addr kernel_end_addr =
     (let total_pages = unat max_ram_addr div PAGE_SIZE; bitmap_size = total_pages div 8
      in \<lparr>bitmap = replicate bitmap_size 0xFF, bitmap_at = kernel_end_addr\<rparr>)"

text \<open>\<open>(base + size) / PAGE_SIZE\<close> with the checked addition.\<close>

definition end_page :: "u32 \<Rightarrow> u32 \<Rightarrow> nat option" where
  "end_page base sz = (if unat base + unat sz < 2 ^ 32 then Some ((unat base + unat sz) div PAGE_SIZE) else None)"

definition clear_page_bit :: "nat \<Rightarrow> buf \<Rightarrow> buf option" where
  "clear_page_bit i bm = do { b \<leftarrow> rd bm (i div 8); wr bm (i div 8) (b AND NOT (push_bit (i mod 8) 1)) }"

definition set_page_bit :: "nat \<Rightarrow> buf \<Rightarrow> buf option" where
  "set_page_bit i bm = do { b \<leftarrow> rd bm (i div 8); wr bm (i div 8) (b OR push_bit (i mod 8) 1) }"

definition pmm_mark_region_free :: "u32 \<Rightarrow> u32 \<Rightarrow> pmm \<Rightarrow> pmm option" where
  "pmm_mark_region_free base sz m = do {
     e \<leftarrow> end_page base sz;
     bm \<leftarrow> for_upto (unat base div PAGE_SIZE) e clear_page_bit (bitmap m);
     Some (m\<lparr>bitmap := bm\<rparr>) }"

definition pmm_mark_region_used :: "u32 \<Rightarrow> u32 \<Rightarrow> pmm \<Rightarrow> pmm option" where
  "pmm_mark_region_used base sz m = do {
     e \<leftarrow> end_page base sz;
     bm \<leftarrow> for_upto (unat base div PAGE_SIZE) e set_page_bit (bitmap m);
     Some (m\<lparr>bitmap := bm\<rparr>) }"

text \<open>
  The scan of one byte. \<open>bit_idx < 8\<close> is always true of a \<open>u3\<close>; counting past 7 overflows.
\<close>

function scan_bits :: "byte \<Rightarrow> nat \<Rightarrow> nat option" where
  "scan_bits b i =
     (if b AND push_bit i 1 = 0 then Some i
      else if i \<ge> 7 then None else scan_bits b (Suc i))"
  by pat_completeness auto
termination
  by (relation "measure (\<lambda>(b, i). 7 - i)") auto

fun pmm_scan :: "buf \<Rightarrow> nat \<Rightarrow> pmm \<Rightarrow> (pmm \<times> u32) option" where
  "pmm_scan [] byte_idx m = Some (m, 0)"
| "pmm_scan (b # bs) byte_idx m =
     (if b \<noteq> 0xFF then do {
        bit_idx \<leftarrow> scan_bits b 0;
        let phys = (byte_idx * 8 + bit_idx) * PAGE_SIZE;
        if phys < 2 ^ 32 then do {
          m' \<leftarrow> pmm_mark_region_used (of_nat phys) (of_nat PAGE_SIZE) m;
          Some (m', of_nat phys) }
        else None }
      else pmm_scan bs (Suc byte_idx) m)"

definition pmm_alloc_frame :: "pmm \<Rightarrow> (pmm \<times> u32) option" where
  "pmm_alloc_frame m = pmm_scan (bitmap m) 0 m"

definition pmm_free_frame :: "u32 \<Rightarrow> pmm \<Rightarrow> pmm option" where
  "pmm_free_frame phys_addr m = pmm_mark_region_free phys_addr (of_nat PAGE_SIZE) m"

declare scan_bits.simps [simp del]

section \<open>The pages the bitmap calls free\<close>

definition free_pages :: "pmm \<Rightarrow> nat set" where
  "free_pages m = {p. p < 8 * length (bitmap m) \<and> \<not> bit (bitmap m ! (p div 8)) (p mod 8)}"

text \<open>The bitmap covers fewer than \<open>2^20 - 1\<close> pages, as \<open>pmm_init\<close> makes it for any 32-bit address.\<close>

definition pmm_ok :: "pmm \<Rightarrow> bool" where
  "pmm_ok m \<longleftrightarrow> 8 * length (bitmap m) < 1048576"

lemma bit_FF: "i < 8 \<Longrightarrow> bit (0xFF :: byte) i"
proof -
  assume "i < 8"
  then have "bit (- 1 :: byte) i" by (simp only: bit_minus_1_iff possible_bit_word) simp
  moreover have "(0xFF :: byte) = - 1" by simp
  ultimately show ?thesis by (simp only:)
qed

lemma pmm_init_ok: "pmm_ok (pmm_init max_ram kend)" "free_pages (pmm_init max_ram kend) = {}"
proof -
  have "unat max_ram < 2 ^ 32" using unsigned_less [of max_ram] by simp
  then have "unat max_ram \<le> 4294967295" by simp
  then have "unat max_ram div (4096 * 8) \<le> 4294967295 div (4096 * 8)" by (rule div_le_mono)
  then have "unat max_ram div 4096 div 8 \<le> 131071" by (simp only: div_mult2_eq)
  then show "pmm_ok (pmm_init max_ram kend)"
    by (simp add: pmm_ok_def pmm_init_def PAGE_SIZE_def Let_def)
  have "bit (replicate k (255 :: byte) ! (p div 8)) (p mod 8)" if "p < 8 * k" for p k
  proof -
    have "p div 8 < k" using that by auto
    then show ?thesis using bit_FF [of "p mod 8"] by simp
  qed
  then show "free_pages (pmm_init max_ram kend) = {}"
    unfolding free_pages_def pmm_init_def Let_def by fastforce
qed

lemma clear_page_bit_free:
  assumes "p < 8 * length (bitmap m)"
  shows "\<exists>bm. clear_page_bit p (bitmap m) = Some bm \<and> length bm = length (bitmap m) \<and>
    free_pages (m\<lparr>bitmap := bm\<rparr>) = insert p (free_pages m)"
proof -
  have i: "p div 8 < length (bitmap m)" using assms by auto
  let ?bm = "(bitmap m)[p div 8 := bitmap m ! (p div 8) AND NOT (push_bit (p mod 8) 1)]"
  have "free_pages (m\<lparr>bitmap := ?bm\<rparr>) = insert p (free_pages m)"
    using assms i
    by (auto simp: free_pages_def nth_list_update bit_simps split: if_splits)
       (metis div_mult_mod_eq)
  then show ?thesis using i by (simp add: clear_page_bit_def)
qed

lemma set_page_bit_free:
  assumes "p < 8 * length (bitmap m)"
  shows "\<exists>bm. set_page_bit p (bitmap m) = Some bm \<and> length bm = length (bitmap m) \<and>
    free_pages (m\<lparr>bitmap := bm\<rparr>) = free_pages m - {p}"
proof -
  have i: "p div 8 < length (bitmap m)" using assms by auto
  let ?bm = "(bitmap m)[p div 8 := bitmap m ! (p div 8) OR push_bit (p mod 8) 1]"
  have "free_pages (m\<lparr>bitmap := ?bm\<rparr>) = free_pages m - {p}"
    using assms i
    by (auto simp: free_pages_def nth_list_update bit_simps split: if_splits)
       (metis div_mult_mod_eq)+
  then show ?thesis using i by (simp add: set_page_bit_def)
qed

section \<open>The kernel's own pages\<close>

text \<open>
  The pages of the boot stack, of the screen, and from the kernel's first page to the last byte of the bitmap behind it.
  The allocator's bitmap and everything else the kernel's code keeps for itself is there.
\<close>

definition own_pages :: "pmm \<Rightarrow> nat set" where
  "own_pages m = {0x80..<0x90} \<union> {0xB8} \<union> {0x100..<(unat (bitmap_at m) + length (bitmap m) + 4095) div 4096}"

definition apart :: "pmm \<Rightarrow> bool" where
  "apart m \<longleftrightarrow> free_pages m \<inter> own_pages m = {}"

text \<open>A step that frees nothing and leaves the bitmap where it is.\<close>

definition shrinks :: "pmm \<Rightarrow> pmm \<Rightarrow> bool" where
  "shrinks m m' \<longleftrightarrow> bitmap_at m' = bitmap_at m \<and> length (bitmap m') = length (bitmap m) \<and> free_pages m' \<subseteq> free_pages m"

lemma shrinks_refl [simp]: "shrinks m m"
  by (simp add: shrinks_def)

lemma shrinks_trans [trans]: "shrinks m m1 \<Longrightarrow> shrinks m1 m2 \<Longrightarrow> shrinks m m2"
  unfolding shrinks_def by auto

lemma shrinks_apart: "shrinks m m' \<Longrightarrow> apart m \<Longrightarrow> apart m'"
  unfolding shrinks_def apart_def own_pages_def by auto

lemma set_page_bit_shrinks:
  assumes "set_page_bit i (bitmap m) = Some bm"
  shows "shrinks m (m\<lparr>bitmap := bm\<rparr>)"
proof -
  have i: "i div 8 < length (bitmap m)" using assms by (auto simp: set_page_bit_def wr_Some_conv bind_eq_Some_conv)
  then have "i < 8 * length (bitmap m)" by (simp add: less_mult_imp_div_less div_less_iff_less_mult mult.commute)
  then show ?thesis using set_page_bit_free [of i m] assms by (auto simp: shrinks_def)
qed

lemma set_bits_shrinks: "for_upto s e set_page_bit (bitmap m) = Some bm \<Longrightarrow> shrinks m (m\<lparr>bitmap := bm\<rparr>)"
proof (induction "e - s" arbitrary: s m)
  case 0
  then show ?case by (auto simp: shrinks_def free_pages_def)
next
  case (Suc k)
  then obtain b where b: "set_page_bit s (bitmap m) = Some b" "for_upto (Suc s) e set_page_bit b = Some bm"
    by (auto simp: for_upto_step bind_eq_Some_conv)
  then have "shrinks (m\<lparr>bitmap := b\<rparr>) (m\<lparr>bitmap := b, bitmap := bm\<rparr>)"
    using Suc.hyps(1) [of "Suc s" "m\<lparr>bitmap := b\<rparr>"] Suc.hyps(2) by simp
  with set_page_bit_shrinks [OF b(1)] show ?case by (auto simp: shrinks_def)
qed

lemma mark_used_shrinks: "pmm_mark_region_used base sz m = Some m' \<Longrightarrow> shrinks m m'"
  using set_bits_shrinks by (auto simp: pmm_mark_region_used_def bind_eq_Some_conv)

lemma pmm_scan_shrinks: "pmm_scan bs k m = Some (m', a) \<Longrightarrow> shrinks m m'"
  by (induction bs arbitrary: k) (auto simp: bind_eq_Some_conv Let_def mark_used_shrinks split: if_splits)

lemma alloc_shrinks: "pmm_alloc_frame m = Some (m', a) \<Longrightarrow> shrinks m m'"
  unfolding pmm_alloc_frame_def by (rule pmm_scan_shrinks)

section \<open>Regions\<close>

lemma clear_region:
  assumes "s \<le> e" "e \<le> 8 * length (bitmap m)"
  shows "\<exists>bm. for_upto s e clear_page_bit (bitmap m) = Some bm \<and> length bm = length (bitmap m) \<and>
    free_pages (m\<lparr>bitmap := bm\<rparr>) = free_pages m \<union> {s..<e}"
proof -
  let ?I = "\<lambda>i bm. length bm = length (bitmap m) \<and> free_pages (m\<lparr>bitmap := bm\<rparr>) = free_pages m \<union> {s..<i}"
  have "\<exists>bm. for_upto s e clear_page_bit (bitmap m) = Some bm \<and> ?I e bm"
  proof (rule for_upto_inv [where I = ?I])
    fix j bm assume j: "s \<le> j" "j < e" and I: "?I j bm"
    have "{s..<Suc j} = insert j {s..<j}" using j by auto
    then show "\<exists>bm'. clear_page_bit j bm = Some bm' \<and> ?I (Suc j) bm'"
      using clear_page_bit_free [of j "m\<lparr>bitmap := bm\<rparr>"] I j assms by auto
  qed (use assms in auto)
  then show ?thesis by blast
qed

lemma set_region:
  assumes "s \<le> e" "e \<le> 8 * length (bitmap m)"
  shows "\<exists>bm. for_upto s e set_page_bit (bitmap m) = Some bm \<and> length bm = length (bitmap m) \<and>
    free_pages (m\<lparr>bitmap := bm\<rparr>) = free_pages m - {s..<e}"
proof -
  let ?I = "\<lambda>i bm. length bm = length (bitmap m) \<and> free_pages (m\<lparr>bitmap := bm\<rparr>) = free_pages m - {s..<i}"
  have "\<exists>bm. for_upto s e set_page_bit (bitmap m) = Some bm \<and> ?I e bm"
  proof (rule for_upto_inv [where I = ?I])
    fix j bm assume j: "s \<le> j" "j < e" and I: "?I j bm"
    have "{s..<Suc j} = insert j {s..<j}" using j by auto
    then show "\<exists>bm'. set_page_bit j bm = Some bm' \<and> ?I (Suc j) bm'"
      using set_page_bit_free [of j "m\<lparr>bitmap := bm\<rparr>"] I j assms by auto
  qed (use assms in auto)
  then show ?thesis by blast
qed

text \<open>The pages a call marks: from \<open>base / 4096\<close> to \<open>(base + size) / 4096\<close>, both rounded down.\<close>

definition region_pages :: "u32 \<Rightarrow> u32 \<Rightarrow> nat set" where
  "region_pages base sz = {unat base div 4096 ..< (unat base + unat sz) div 4096}"

lemma mark_region:
  assumes "unat base + unat sz < 2 ^ 32" "(unat base + unat sz) div 4096 \<le> 8 * length (bitmap m)"
  shows "\<exists>m'. pmm_mark_region_free base sz m = Some m' \<and> length (bitmap m') = length (bitmap m) \<and>
      free_pages m' = free_pages m \<union> region_pages base sz"
    and "\<exists>m'. pmm_mark_region_used base sz m = Some m' \<and> length (bitmap m') = length (bitmap m) \<and>
      free_pages m' = free_pages m - region_pages base sz"
proof -
  let ?s = "unat base div PAGE_SIZE" and ?e = "(unat base + unat sz) div PAGE_SIZE"
  have e: "end_page base sz = Some ?e" using assms(1) by (simp add: end_page_def)
  have le: "?s \<le> ?e" by (intro div_le_mono) simp
  have len: "?e \<le> 8 * length (bitmap m)" using assms(2) by (simp add: PAGE_SIZE_def)
  have r: "region_pages base sz = {?s..<?e}" by (simp add: region_pages_def PAGE_SIZE_def)
  from clear_region [OF le len] obtain bm where
    "for_upto ?s ?e clear_page_bit (bitmap m) = Some bm" "length bm = length (bitmap m)"
    "free_pages (m\<lparr>bitmap := bm\<rparr>) = free_pages m \<union> {?s..<?e}" by blast
  then show "\<exists>m'. pmm_mark_region_free base sz m = Some m' \<and> length (bitmap m') = length (bitmap m) \<and>
      free_pages m' = free_pages m \<union> region_pages base sz"
    using e r by (simp add: pmm_mark_region_free_def)
  from set_region [OF le len] obtain bm where
    "for_upto ?s ?e set_page_bit (bitmap m) = Some bm" "length bm = length (bitmap m)"
    "free_pages (m\<lparr>bitmap := bm\<rparr>) = free_pages m - {?s..<?e}" by blast
  then show "\<exists>m'. pmm_mark_region_used base sz m = Some m' \<and> length (bitmap m') = length (bitmap m) \<and>
      free_pages m' = free_pages m - region_pages base sz"
    using e r by (simp add: pmm_mark_region_used_def)
qed

text \<open>Zig's bounds and overflow checks: a region past the bitmap panics.\<close>

lemma mark_region_free_panics:
  assumes "unat base div 4096 < (unat base + unat sz) div 4096" "8 * length (bitmap m) < (unat base + unat sz) div 4096"
  shows "pmm_mark_region_free base sz m = None"
proof -
  have stuck: "for_upto i e clear_page_bit bm = None" if "i < e" "8 * length bm < e" for i e bm
    using that
  proof (induction "e - i" arbitrary: i bm)
    case (Suc k)
    show ?case
    proof (cases "clear_page_bit i bm")
      case None
      then show ?thesis using Suc.prems by (simp add: for_upto_step)
    next
      case (Some bm')
      then have l: "length bm' = length bm" "i div 8 < length bm"
        by (auto simp: clear_page_bit_def wr_Some_conv bind_eq_Some_conv)
      then have "Suc i < e" using Suc.prems by linarith
      then show ?thesis using Some l Suc by (simp add: for_upto_step)
    qed
  qed simp
  show ?thesis
  proof (cases "unat base + unat sz < 2 ^ 32")
    case True
    then show ?thesis
      using stuck [of "unat base div PAGE_SIZE" "(unat base + unat sz) div PAGE_SIZE" "bitmap m"] assms
      by (simp add: pmm_mark_region_free_def end_page_def PAGE_SIZE_def)
  next
    case False
    then show ?thesis by (simp add: pmm_mark_region_free_def end_page_def)
  qed
qed

section \<open>Allocation\<close>

definition page_addr :: "nat \<Rightarrow> u32" where
  "page_addr p = of_nat (p * 4096)"

lemma page_region:
  assumes "p < 1048576"
  shows "unat (page_addr p) = p * 4096"
    and "p < 1048575 \<Longrightarrow> region_pages (page_addr p) (of_nat 4096) = {p}"
proof -
  show u: "unat (page_addr p) = p * 4096"
    unfolding page_addr_def using assms by (simp add: unat_of_nat take_bit_nat_eq_self del: of_nat_mult)
  have "(p * 4096 + 4096) div 4096 = Suc p" by simp
  then show "region_pages (page_addr p) (of_nat 4096) = {p}"
    unfolding region_pages_def u by (auto simp: unat_of_nat take_bit_nat_eq_self)
qed

lemma and_bit_iff: "b AND 2 ^ i = 0 \<longleftrightarrow> \<not> bit (b :: byte) i"
  by (simp add: and_exp_eq_0_iff_not_bit)

lemma scan_bits_least:
  assumes "k \<le> i" "i < 8" "\<not> bit b i" "\<And>j. j < i \<Longrightarrow> bit b j"
  shows "scan_bits b k = Some i"
  using assms(1)
proof (induction "i - k" arbitrary: k)
  case 0
  then have "k = i" by simp
  then show ?case using assms by (subst scan_bits.simps) (simp add: and_bit_iff)
next
  case (Suc n)
  then have "k < i" by simp
  moreover have "scan_bits b (Suc k) = Some i" using Suc by simp
  ultimately show ?case using assms by (subst scan_bits.simps) (simp add: and_bit_iff)
qed

lemma byte_zero_bit: "b \<noteq> 0xFF \<Longrightarrow> \<exists>i < 8. \<not> bit (b :: byte) i"
proof (rule ccontr)
  assume "b \<noteq> 0xFF" and "\<not> (\<exists>i < 8. \<not> bit b i)"
  then have "b = - 1" by (intro bit_word_eqI) simp
  with \<open>b \<noteq> 0xFF\<close> show False by simp
qed

lemma pmm_scan_full:
  "\<forall>b \<in> set bs. b = 0xFF \<Longrightarrow> pmm_scan bs k m = Some (m, 0)"
  by (induction bs arbitrary: k) auto

lemma pmm_mark_page:
  assumes ok: "pmm_ok m" and p: "p < 8 * length (bitmap m)"
  shows "\<exists>m'. pmm_mark_region_used (page_addr p) (of_nat 4096) m = Some m' \<and> pmm_ok m' \<and>
    length (bitmap m') = length (bitmap m) \<and> free_pages m' = free_pages m - {p}"
    and "\<exists>m'. pmm_mark_region_free (page_addr p) (of_nat 4096) m = Some m' \<and> pmm_ok m' \<and>
    length (bitmap m') = length (bitmap m) \<and> free_pages m' = insert p (free_pages m)"
proof -
  let ?b = "page_addr p" and ?s = "of_nat 4096 :: u32"
  have l: "8 * length (bitmap m) < 1048576" using ok by (simp add: pmm_ok_def)
  then have p': "p < 1048575" using p by presburger
  have u: "unat ?b = p * 4096" "unat ?s = 4096"
    using p' page_region(1) [of p] by (simp_all add: unat_of_nat take_bit_nat_eq_self)
  have r: "region_pages ?b ?s = {p}" using p' by (intro page_region(2)) auto
  have c: "unat ?b + unat ?s < 2 ^ 32" "(unat ?b + unat ?s) div 4096 \<le> 8 * length (bitmap m)"
    unfolding u using p p' by simp_all
  from mark_region [OF c] r l show
    "\<exists>m'. pmm_mark_region_used ?b ?s m = Some m' \<and> pmm_ok m' \<and>
      length (bitmap m') = length (bitmap m) \<and> free_pages m' = free_pages m - {p}"
    "\<exists>m'. pmm_mark_region_free ?b ?s m = Some m' \<and> pmm_ok m' \<and>
      length (bitmap m') = length (bitmap m) \<and> free_pages m' = insert p (free_pages m)"
    by (auto simp: pmm_ok_def)
qed

lemma pmm_scan_first:
  assumes ok: "pmm_ok m" and p: "p < 8 * length (bitmap m)" and fr: "p \<in> free_pages m"
    and least: "\<forall>q < p. q \<notin> free_pages m" and k: "k \<le> p div 8"
  shows "\<exists>m'. pmm_scan (drop k (bitmap m)) k m = Some (m', page_addr p) \<and> pmm_ok m' \<and>
    length (bitmap m') = length (bitmap m) \<and> free_pages m' = free_pages m - {p}"
  using k
proof (induction "p div 8 - k" arbitrary: k)
  case 0
  then have k: "k = p div 8" by simp
  let ?b = "bitmap m ! (p div 8)"
  have d: "drop k (bitmap m) = ?b # drop (Suc k) (bitmap m)"
    using p k by (simp add: Cons_nth_drop_Suc)
  have nb: "\<not> bit ?b (p mod 8)" using fr by (simp add: free_pages_def)
  then have "?b \<noteq> 0xFF" using bit_FF [of "p mod 8"] by auto
  moreover have "scan_bits ?b 0 = Some (p mod 8)"
  proof (rule scan_bits_least)
    fix j assume j: "j < p mod 8"
    let ?q = "p div 8 * 8 + j"
    have q: "?q < p" "?q div 8 = p div 8" "?q mod 8 = j" "?q < 8 * length (bitmap m)"
      using j p by (auto simp: div_add1_eq) presburger+
    then have "?q \<notin> free_pages m" using least by blast
    then show "bit ?b j" using q by (simp add: free_pages_def)
  qed (use nb in simp_all)
  moreover have "(k * 8 + p mod 8) * PAGE_SIZE = p * 4096" using k by (simp add: PAGE_SIZE_def)
  moreover have "p * 4096 < 2 ^ 32" using ok p by (simp add: pmm_ok_def)
  moreover obtain m' where m': "pmm_mark_region_used (page_addr p) (of_nat PAGE_SIZE) m = Some m'"
    "pmm_ok m'" "length (bitmap m') = length (bitmap m)" "free_pages m' = free_pages m - {p}"
    using pmm_mark_page(1) [OF ok p] by (auto simp: PAGE_SIZE_def)
  ultimately have "pmm_scan (drop k (bitmap m)) k m = Some (m', page_addr p)"
    unfolding d page_addr_def by (simp del: of_nat_mult)
  with m' show ?case by blast
next
  case (Suc n)
  then have k: "k < p div 8" by simp
  then have kl: "k < length (bitmap m)" using p by auto
  have "\<And>i. i < 8 \<Longrightarrow> bit (bitmap m ! k) i"
  proof -
    fix i :: nat assume i: "i < 8"
    have "k * 8 + i < p" using k i by presburger
    then have "k * 8 + i \<notin> free_pages m" "k * 8 + i < 8 * length (bitmap m)"
      using least p by auto
    then show "bit (bitmap m ! k) i" using i by (simp add: free_pages_def div_add1_eq)
  qed
  then have "bitmap m ! k = 0xFF" using byte_zero_bit by blast
  then have "pmm_scan (drop k (bitmap m)) k m = pmm_scan (drop (Suc k) (bitmap m)) (Suc k) m"
    using kl by (simp add: Cons_nth_drop_Suc [symmetric])
  then show ?case using Suc k by simp
qed

lemma free_pages_bound: "p \<in> free_pages m \<Longrightarrow> p < 8 * length (bitmap m)"
  by (simp add: free_pages_def)

text \<open>First fit: the lowest free page, or 0 when there is none.\<close>

lemma pmm_alloc_frame_spec:
  assumes ok: "pmm_ok m"
  shows "\<exists>m' a. pmm_alloc_frame m = Some (m', a) \<and> pmm_ok m' \<and> length (bitmap m') = length (bitmap m) \<and>
    (if free_pages m = {} then a = 0 \<and> m' = m
     else \<exists>p \<in> free_pages m. (\<forall>q \<in> free_pages m. p \<le> q) \<and> a = page_addr p \<and>
            free_pages m' = free_pages m - {p})"
proof (cases "free_pages m = {}")
  case True
  have "\<forall>b \<in> set (bitmap m). b = 0xFF"
  proof
    fix b assume "b \<in> set (bitmap m)"
    then obtain k where k: "k < length (bitmap m)" "bitmap m ! k = b" by (auto simp: in_set_conv_nth)
    have "bit b i" if "i < 8" for i
    proof -
      have "8 * k + i \<notin> free_pages m" using True by simp
      then show ?thesis using k that by (auto simp: free_pages_def div_add1_eq)
    qed
    then show "b = 0xFF" using byte_zero_bit by blast
  qed
  then show ?thesis using True ok by (simp add: pmm_alloc_frame_def pmm_scan_full)
next
  case False
  then obtain p where p: "p \<in> free_pages m" "\<forall>q < p. q \<notin> free_pages m"
    using exists_least_iff [of "\<lambda>p. p \<in> free_pages m"] by blast
  then have "\<forall>q \<in> free_pages m. p \<le> q" using not_less by blast
  moreover obtain m' where "pmm_scan (bitmap m) 0 m = Some (m', page_addr p)" "pmm_ok m'"
    "length (bitmap m') = length (bitmap m)" "free_pages m' = free_pages m - {p}"
    using pmm_scan_first [OF ok free_pages_bound [OF p(1)] p(1,2), of 0] by auto
  ultimately show ?thesis using p(1) False unfolding pmm_alloc_frame_def by auto
qed

section \<open>The interface\<close>

text \<open>\<open>n\<close> successive allocations, and the addresses they return.\<close>

primrec alloc_many :: "('s \<Rightarrow> ('s \<times> u32) option) \<Rightarrow> nat \<Rightarrow> 's \<Rightarrow> ('s \<times> u32 list) option" where
  "alloc_many alloc 0 s = Some (s, [])"
| "alloc_many alloc (Suc n) s = do {
     (s1, a) \<leftarrow> alloc s;
     (s2, xs) \<leftarrow> alloc_many alloc n s1;
     Some (s2, a # xs) }"

locale frame_allocator =
  fixes alloc :: "'s \<Rightarrow> ('s \<times> u32) option" and release :: "u32 \<Rightarrow> 's \<Rightarrow> 's option"
    and free :: "'s \<Rightarrow> nat set" and total :: "'s \<Rightarrow> nat" and inv :: "'s \<Rightarrow> bool"
  assumes alloc_law: "inv s \<Longrightarrow> \<exists>s' a. alloc s = Some (s', a) \<and> inv s' \<and> total s' = total s \<and>
      (if free s = {} then a = 0 \<and> s' = s
       else \<exists>p \<in> free s. a = page_addr p \<and> free s' = free s - {p})"
    and release_law: "inv s \<Longrightarrow> p < total s \<Longrightarrow>
      \<exists>s'. release (page_addr p) s = Some s' \<and> inv s' \<and> total s' = total s \<and> free s' = insert p (free s)"
    and free_bound: "p \<in> free s \<Longrightarrow> p < total s"
    and total_bound: "inv s \<Longrightarrow> total s < 1048576"
begin

lemma finite_free: "finite (free s)"
  using free_bound finite_nat_set_iff_bounded by auto

lemma alloc_many_law:
  assumes "inv s" "n \<le> card (free s)"
  shows "\<exists>s' ps. alloc_many alloc n s = Some (s', map (\<lambda>p. page_addr p) ps) \<and> inv s' \<and>
    length ps = n \<and> distinct ps \<and> set ps \<subseteq> free s \<and> free s' = free s - set ps \<and> total s' = total s"
  using assms
proof (induction n arbitrary: s)
  case 0
  then show ?case by auto
next
  case (Suc n)
  then have "free s \<noteq> {}" by auto
  with alloc_law [OF Suc.prems(1)] obtain s1 p where s1: "alloc s = Some (s1, page_addr p)"
    "inv s1" "p \<in> free s" "free s1 = free s - {p}" "total s1 = total s" by auto
  then have "n \<le> card (free s1)" using Suc.prems(2) finite_free by simp
  from Suc.IH [OF s1(2) this] obtain s2 ps where s2:
    "alloc_many alloc n s1 = Some (s2, map (\<lambda>p. page_addr p) ps)" "inv s2" "length ps = n"
    "distinct ps" "set ps \<subseteq> free s1" "free s2 = free s1 - set ps" "total s2 = total s1" by blast
  show ?case
    using s1 s2 by (intro exI [of _ s2] exI [of _ "p # ps"]) auto
qed

text \<open>Frames that are not page 0 have addresses that differ from each other and from 0.\<close>

lemma page_address_inj:
  "p < 1048576 \<Longrightarrow> q < 1048576 \<Longrightarrow> page_addr p = page_addr q \<longleftrightarrow> p = q"
proof -
  assume "p < 1048576" "q < 1048576"
  then have "unat (page_addr p) = p * 4096" "unat (page_addr q) = q * 4096"
    by (simp_all add: page_addr_def unat_of_nat take_bit_nat_eq_self del: of_nat_mult)
  then show ?thesis by (metis mult_cancel2 zero_neq_numeral)
qed

lemma alloc_release:
  assumes "inv s" "free s \<noteq> {}"
  shows "\<exists>s1 a s2. alloc s = Some (s1, a) \<and> release a s1 = Some s2 \<and> inv s2 \<and> free s2 = free s"
proof -
  from alloc_law [OF assms(1)] assms(2) obtain s1 p where s1: "alloc s = Some (s1, page_addr p)"
    "inv s1" "p \<in> free s" "free s1 = free s - {p}" "total s1 = total s" by auto
  then have "p < total s1" using free_bound by simp
  from release_law [OF s1(2) this] s1 show ?thesis by (auto simp: insert_absorb)
qed

end

interpretation frames: frame_allocator pmm_alloc_frame pmm_free_frame free_pages "\<lambda>m. 8 * length (bitmap m)" pmm_ok
proof unfold_locales
  fix s :: pmm and p :: nat assume ok: "pmm_ok s"
  from pmm_alloc_frame_spec [OF ok] show "\<exists>s' a. pmm_alloc_frame s = Some (s', a) \<and> pmm_ok s' \<and>
      8 * length (bitmap s') = 8 * length (bitmap s) \<and>
      (if free_pages s = {} then a = 0 \<and> s' = s
       else \<exists>p \<in> free_pages s. a = page_addr p \<and> free_pages s' = free_pages s - {p})"
    by (elim ex_forward conj_forward) (auto split: if_splits)
  show "8 * length (bitmap s) < 1048576" using ok by (simp add: pmm_ok_def)
  assume "p < 8 * length (bitmap s)"
  from pmm_mark_page(2) [OF ok this] show "\<exists>s'. pmm_free_frame (page_addr p) s = Some s' \<and> pmm_ok s' \<and>
      8 * length (bitmap s') = 8 * length (bitmap s) \<and> free_pages s' = insert p (free_pages s)"
    by (auto simp: pmm_free_frame_def PAGE_SIZE_def)
qed (rule free_pages_bound)

section \<open>Properties\<close>

text \<open>256 pages, all free but page 0.\<close>

definition example_pmm :: pmm where
  "example_pmm = \<lparr>bitmap = 1 # replicate 31 0, bitmap_at = 0x120000\<rparr>"

lemma example_pmm_facts: "pmm_ok example_pmm" "free_pages example_pmm = {1..<256}" "card (free_pages example_pmm) = 255"
  "0 \<notin> free_pages example_pmm" "free_pages example_pmm \<noteq> {}"
proof -
  have b: "bit ((1 # replicate 31 0 :: buf) ! (p div 8)) (p mod 8) \<longleftrightarrow> p = 0" if "p < 256" for p
  proof (cases "p div 8")
    case 0
    then have "p mod 8 = p" by (metis div_mult_mod_eq mult_0 add_0)
    then show ?thesis using 0 by (simp add: bit_1_iff)
  next
    case (Suc k)
    moreover have "p div 8 < 32" using that by (simp add: less_mult_imp_div_less)
    ultimately show ?thesis by auto
  qed
  show f: "free_pages example_pmm = {1..<256}"
    using b by (auto simp: free_pages_def example_pmm_def Suc_le_eq)
  show "pmm_ok example_pmm" by (simp add: pmm_ok_def example_pmm_def)
  show "card (free_pages example_pmm) = 255" "0 \<notin> free_pages example_pmm" "free_pages example_pmm \<noteq> {}"
    unfolding f by auto
qed

text \<open>C15: pmm_alloc_frame returns the address of the lowest free page and marks exactly that page used; it
  returns 0 and changes nothing exactly when no page is free.\<close>

theorem pmm_alloc_lowest:
  assumes "pmm_ok m"
  shows "\<exists>m' a. pmm_alloc_frame m = Some (m', a) \<and> pmm_ok m' \<and> length (bitmap m') = length (bitmap m) \<and>
    (if free_pages m = {} then a = 0 \<and> m' = m
     else \<exists>p \<in> free_pages m. (\<forall>q \<in> free_pages m. p \<le> q) \<and> a = page_addr p \<and>
            free_pages m' = free_pages m - {p})"
  using assms by (rule pmm_alloc_frame_spec)

theorem pmm_alloc_lowest_witness:
  "\<exists>m'. pmm_alloc_frame example_pmm = Some (m', 0x1000) \<and> free_pages m' = {2..<256}"
proof -
  from pmm_alloc_lowest [OF example_pmm_facts(1)] example_pmm_facts(5) obtain m' p where
    m': "pmm_alloc_frame example_pmm = Some (m', page_addr p)" "p \<in> free_pages example_pmm"
      "\<forall>q \<in> free_pages example_pmm. p \<le> q" "free_pages m' = free_pages example_pmm - {p}" by auto
  have "1 \<in> free_pages example_pmm" by (simp add: example_pmm_facts)
  then have "p = 1" using m'(2,3) by (metis example_pmm_facts(2) atLeastLessThan_iff le_antisym)
  moreover have "{1..<256} - {1} = {2..<256::nat}" by auto
  ultimately show ?thesis using m' by (simp add: page_addr_def example_pmm_facts)
qed

text \<open>C12: n successive allocations, with n pages free, return n different frames, all free before and none free
  after: no frame is handed out twice.\<close>

theorem pmm_no_double_allocation:
  assumes "pmm_ok m" "n \<le> card (free_pages m)"
  shows "\<exists>m' ps. alloc_many pmm_alloc_frame n m = Some (m', map page_addr ps) \<and> pmm_ok m' \<and>
    length ps = n \<and> distinct ps \<and> distinct (map page_addr ps) \<and> set ps \<subseteq> free_pages m \<and> free_pages m' = free_pages m - set ps"
proof -
  obtain m' ps where r: "alloc_many pmm_alloc_frame n m = Some (m', map page_addr ps)" "pmm_ok m'" "length ps = n"
    "distinct ps" "set ps \<subseteq> free_pages m" "free_pages m' = free_pages m - set ps"
    using frames.alloc_many_law [OF assms] by blast
  have "p < 1048576" if "p \<in> set ps" for p
    using that r(5) free_pages_bound [of p m] assms(1) by (auto simp: pmm_ok_def)
  then have "inj_on page_addr (set ps)" using frames.page_address_inj by (intro inj_onI) blast
  then show ?thesis using r by (auto simp: distinct_map)
qed

theorem pmm_no_double_allocation_witness:
  "\<exists>m' ps. alloc_many pmm_alloc_frame 40 example_pmm = Some (m', map page_addr ps) \<and> length ps = 40 \<and> distinct ps"
  using pmm_no_double_allocation [OF example_pmm_facts(1), of 40] example_pmm_facts(3) by auto

text \<open>pmm_mark_region_free and pmm_mark_region_used mark exactly the pages from base / 4096 up to, and not
  including, (base + size) / 4096: both ends are rounded down.\<close>

theorem pmm_mark_region_pages:
  assumes "unat base + unat sz < 2 ^ 32" "(unat base + unat sz) div 4096 \<le> 8 * length (bitmap m)"
  shows "\<exists>m1 m2. pmm_mark_region_free base sz m = Some m1 \<and> free_pages m1 = free_pages m \<union> region_pages base sz \<and>
    pmm_mark_region_used base sz m = Some m2 \<and> free_pages m2 = free_pages m - region_pages base sz"
  using mark_region [OF assms] by blast

theorem pmm_mark_region_pages_witness:
  "\<exists>m2. pmm_mark_region_used 0x1000 0x1FFF example_pmm = Some m2 \<and> free_pages m2 = {2..<256}"
proof -
  have "unat (0x1000 :: u32) + unat (0x1FFF :: u32) < 2 ^ 32"
    "(unat (0x1000 :: u32) + unat (0x1FFF :: u32)) div 4096 \<le> 8 * length (bitmap example_pmm)"
    by (simp_all add: example_pmm_def)
  from pmm_mark_region_pages [OF this] obtain m2 where
    "pmm_mark_region_used 0x1000 0x1FFF example_pmm = Some m2"
    "free_pages m2 = free_pages example_pmm - region_pages 0x1000 0x1FFF" by blast
  moreover have "{1..<256} - {1..<2} = {2..<256::nat}" by auto
  ultimately show ?thesis by (simp add: region_pages_def example_pmm_facts)
qed

end
