(* ===== verification/Mmu.thy ===== *)
theory Mmu
  imports Pmm
begin

text \<open>
  src/mm/mmu.zig: the page tables. A page directory and a page table are frames of physical memory,
  1024 32-bit entries each, so \<open>frames\<close> maps a frame number to its 1024 words. With paging on, the
  code reaches the directory through the virtual address 0xFFFFF000 and a table through
  \<open>0xFFC00000 + (pd_index << 12)\<close>; these accesses are translated by the processor's page walk
  (\<open>translate\<close>, the documented two-level walk of the i386), which works because entry 1023 of the
  directory maps the directory itself. An access to an unmapped page is \<open>None\<close>. The translation
  cache is not modelled: every change is followed by \<open>invlpg\<close> of the page it affects.
\<close>

section \<open>Entries\<close>

record page_table_entry =
  pte_present :: bool
  pte_rw :: bool
  pte_user :: bool
  pte_write_through :: bool
  pte_cache_disable :: bool
  pte_accessed :: bool
  pte_dirty :: bool
  pte_pat :: bool
  pte_global :: bool
  pte_available :: "3 word"
  pte_physical_frame :: "20 word"

record page_directory_entry =
  pde_present :: bool
  pde_rw :: bool
  pde_user :: bool
  pde_write_through :: bool
  pde_cache_disable :: bool
  pde_accessed :: bool
  pde_ignored :: bool
  pde_page_size :: bool
  pde_global :: bool
  pde_available :: "3 word"
  pde_pt_frame :: "20 word"

text \<open>The packed layout, the first field in the lowest bit.\<close>

definition pack :: "bool list \<Rightarrow> 3 word \<Rightarrow> 20 word \<Rightarrow> u32" where
  "pack flags av f = horner_sum of_bool 2 flags OR push_bit 9 (ucast av) OR push_bit 12 (ucast f)"

definition pte_word :: "page_table_entry \<Rightarrow> u32" where
  "pte_word e = pack [pte_present e, pte_rw e, pte_user e, pte_write_through e, pte_cache_disable e,
     pte_accessed e, pte_dirty e, pte_pat e, pte_global e] (pte_available e) (pte_physical_frame e)"

definition pde_word :: "page_directory_entry \<Rightarrow> u32" where
  "pde_word e = pack [pde_present e, pde_rw e, pde_user e, pde_write_through e, pde_cache_disable e,
     pde_accessed e, pde_ignored e, pde_page_size e, pde_global e] (pde_available e) (pde_pt_frame e)"

text \<open>Entries with the fields the code sets; the others have their default 0.\<close>

definition make_pte :: "bool \<Rightarrow> bool \<Rightarrow> u32 \<Rightarrow> u32" where
  "make_pte w u frame = pte_word \<lparr>pte_present = True, pte_rw = w, pte_user = u,
     pte_write_through = False, pte_cache_disable = False, pte_accessed = False, pte_dirty = False,
     pte_pat = False, pte_global = False, pte_available = 0, pte_physical_frame = ucast frame\<rparr>"

definition make_pde :: "bool \<Rightarrow> u32 \<Rightarrow> u32" where
  "make_pde u frame = pde_word \<lparr>pde_present = True, pde_rw = True, pde_user = u,
     pde_write_through = False, pde_cache_disable = False, pde_accessed = False, pde_ignored = False,
     pde_page_size = False, pde_global = False, pde_available = 0, pde_pt_frame = ucast frame\<rparr>"

definition entry_present :: "u32 \<Rightarrow> bool" where "entry_present w \<longleftrightarrow> bit w 0"
definition entry_frame :: "u32 \<Rightarrow> nat" where "entry_frame w = unat (drop_bit 12 w)"

section \<open>State and page walk\<close>

record mm =
  phys :: pmm
  frames :: "nat \<Rightarrow> u32 list"
  kernel_directory :: nat \<comment> \<open>the frame of the directory\<close>
  cr3 :: nat
  paging :: bool

definition pd_index :: "u32 \<Rightarrow> nat" where "pd_index va = unat (drop_bit 22 va)"
definition pt_index :: "u32 \<Rightarrow> nat" where "pt_index va = unat (drop_bit 12 va AND 0x3FF)"

definition translate :: "mm \<Rightarrow> u32 \<Rightarrow> nat option" where
  "translate m va = do {
     pde \<leftarrow> rd (frames m (cr3 m)) (pd_index va);
     if entry_present pde then do {
       pte \<leftarrow> rd (frames m (entry_frame pde)) (pt_index va);
       if entry_present pte then Some (entry_frame pte) else None }
     else None }"

text \<open>A store of one entry of the page at virtual address \<open>va\<close>.\<close>

definition store_entry :: "u32 \<Rightarrow> nat \<Rightarrow> u32 \<Rightarrow> mm \<Rightarrow> mm option" where
  "store_entry va i v m = do {
     f \<leftarrow> translate m va;
     ws \<leftarrow> wr (frames m f) i v;
     Some (m\<lparr>frames := (frames m)(f := ws)\<rparr>) }"

section \<open>The code\<close>

definition RECURSIVE_PD :: u32 where "RECURSIVE_PD = 0xFFFFF000"

text \<open>A pointer made from address 0 panics in Zig's safe builds.\<close>

definition mmu_init :: "mm \<Rightarrow> mm option" where
  "mmu_init m = do {
     (p1, pd_addr) \<leftarrow> pmm_alloc_frame (phys m);
     if pd_addr = 0 then None else do {
     let pd = unat pd_addr div PAGE_SIZE;
     (p2, pt_addr) \<leftarrow> pmm_alloc_frame p1;
     if pt_addr = 0 then None else do {
     let pt = unat pt_addr div PAGE_SIZE;
     dir \<leftarrow> wr (replicate 1024 0) 0 (make_pde False (of_nat pt));
     dir' \<leftarrow> wr dir 1023 (make_pde False (of_nat pd));
     Some (m\<lparr>phys := p2, kernel_directory := pd,
       frames := (frames m)(pd := replicate 1024 0, pt := map (\<lambda>i. make_pte True False (of_nat i)) [0..<1024],
                            pd := dir')\<rparr>) } } }"

definition mmu_enable :: "mm \<Rightarrow> mm" where
  "mmu_enable m = m\<lparr>cr3 := kernel_directory m, paging := True\<rparr>"

definition mmu_is_paging_enabled :: "mm \<Rightarrow> byte" where
  "mmu_is_paging_enabled m = (if paging m then 1 else 0)"

definition mmu_map_page :: "u32 \<Rightarrow> u32 \<Rightarrow> bool \<Rightarrow> bool \<Rightarrow> mm \<Rightarrow> mm option" where
  "mmu_map_page phys_addr virt_addr is_writeable is_user m = do {
     let pdi = pd_index virt_addr;
     let pti = pt_index virt_addr;
     let table = 0xFFC00000 + push_bit 12 (of_nat pdi);
     pdf \<leftarrow> translate m RECURSIVE_PD;
     pde \<leftarrow> rd (frames m pdf) pdi;
     m1 \<leftarrow> (if \<not> entry_present pde then do {
              (p, new_pt_phys) \<leftarrow> pmm_alloc_frame (phys m);
              m2 \<leftarrow> store_entry RECURSIVE_PD pdi
                      (make_pde is_user (of_nat (unat new_pt_phys div PAGE_SIZE))) (m\<lparr>phys := p\<rparr>);
              f \<leftarrow> translate m2 table;
              Some (m2\<lparr>frames := (frames m2)(f := replicate 1024 0)\<rparr>) }
            else Some m);
     store_entry table pti (make_pte is_writeable is_user (of_nat (unat phys_addr div PAGE_SIZE))) m1 }"

text \<open>The part of \<open>mmu_handle_page_fault\<close> that resolves a fault; \<open>None\<close> is the halt after the panic report.\<close>

definition mmu_handle_page_fault :: "u32 \<Rightarrow> u32 \<Rightarrow> mm \<Rightarrow> mm option" where
  "mmu_handle_page_fault error_code fault_addr m =
     (if error_code AND 1 = 0 \<and> fault_addr \<ge> 0xD0000000 then do {
        (p, frame) \<leftarrow> pmm_alloc_frame (phys m);
        if frame \<noteq> 0 then mmu_map_page frame (fault_addr AND 0xFFFFF000) True False (m\<lparr>phys := p\<rparr>)
        else None }
      else None)"

section \<open>Entries and indices\<close>

lemma entry_pack:
  assumes "length fs = 9"
  shows "bit (pack fs av f) 0 = hd fs" and "drop_bit 12 (pack fs av f) = ucast f"
proof -
  have fs: "bit (horner_sum of_bool 2 fs :: u32) n \<longleftrightarrow> n < 9 \<and> fs ! n" for n
    using assms by (auto simp: bit_horner_sum_bit_word_iff)
  have "bit (pack fs av f) 0 = fs ! 0"
    unfolding pack_def bit_or_iff fs using assms by (simp add: bit_push_bit_iff del: bit_0)
  then show "bit (pack fs av f) 0 = hd fs"
    using assms by (cases fs) (simp_all del: bit_0)
  show "drop_bit 12 (pack fs av f) = ucast f"
    by (rule bit_word_eqI) (auto simp: pack_def fs assms bit_simps dest: bit_imp_le_length)
qed

lemma entry_frame_eq: "drop_bit 12 w = ucast (ucast p :: 20 word) \<Longrightarrow> entry_frame w = take_bit 20 (unat (p :: u32))"
  by (simp add: entry_frame_def unsigned_ucast_eq unsigned_take_bit_eq)

lemma entry_facts:
  "entry_present (make_pte w u p)" "entry_frame (make_pte w u p) = take_bit 20 (unat p)"
  "entry_present (make_pde u p)" "entry_frame (make_pde u p) = take_bit 20 (unat p)"
  by (simp_all add: entry_present_def make_pte_def pte_word_def make_pde_def pde_word_def
      entry_pack entry_frame_eq del: bit_0)

lemma entry_zero: "\<not> entry_present 0"
  by (simp add: entry_present_def)

lemma take_frame: "p < 1048576 \<Longrightarrow> take_bit 20 (unat (of_nat p :: u32)) = p"
  by (simp add: unat_of_nat take_bit_nat_eq_self)

lemma pd_index_div: "pd_index va = unat va div 4194304"
  by (simp add: pd_index_def drop_bit_eq_div unat_div_distrib)

lemma pt_index_mod: "pt_index va = unat va div 4096 mod 1024"
proof -
  have "(0x3FF :: u32) = mask 10" by (simp add: mask_eq_exp_minus_1)
  then have "drop_bit 12 va AND 0x3FF = take_bit 10 (drop_bit 12 va)"
    by (simp only: take_bit_eq_mask)
  then show ?thesis
    by (simp add: pt_index_def drop_bit_eq_div unat_div_distrib unat_mod_distrib take_bit_eq_mod)
qed

lemma index_bounds: "pd_index va < 1024" "pt_index va < 1024"
proof -
  have "unat va < 2 ^ 32" using unsigned_less [of va] by simp
  then show "pd_index va < 1024" unfolding pd_index_div by auto
  show "pt_index va < 1024" unfolding pt_index_mod by simp
qed

lemma recursive_pd_index: "pd_index RECURSIVE_PD = 1023" "pt_index RECURSIVE_PD = 1023"
  by (simp_all add: pd_index_div pt_index_mod RECURSIVE_PD_def)

definition table_va :: "nat \<Rightarrow> u32" where
  "table_va i = 0xFFC00000 + push_bit 12 (of_nat i)"

lemma table_va_index:
  assumes "i < 1024"
  shows "pd_index (table_va i) = 1023" "pt_index (table_va i) = i"
proof -
  have "table_va i = of_nat (4290772992 + i * 4096)"
    by (simp add: table_va_def push_bit_eq_mult)
  moreover have "4290772992 + i * 4096 < 2 ^ LENGTH(32)" using assms by simp
  ultimately have u: "unat (table_va i) = 4290772992 + i * 4096"
    by (simp only: unat_of_nat take_bit_eq_mod mod_less)
  have e: "4290772992 + i * 4096 = (1047552 + i) * 4096" by simp
  have d: "(1047552 + i) * 4096 div 4096 = 1047552 + i" by (rule nonzero_mult_div_cancel_right) simp
  have s: "x div 4194304 = x div 4096 div 1024" for x :: nat by (simp add: div_mult2_eq [symmetric])
  show "pd_index (table_va i) = 1023" unfolding pd_index_div u s e d
    using div_mult_self3 [of 1024 1023 i] assms by simp
  show "pt_index (table_va i) = i" unfolding pt_index_mod u e d
    using mod_mult_self3 [of 1023 1024 i] assms by simp
qed

section \<open>The invariant of the recursive mapping\<close>

abbreviation directory :: "mm \<Rightarrow> u32 list" where "directory m \<equiv> frames m (cr3 m)"

text \<open>
  The directory maps itself at entry 1023, the page tables are distinct frames, and no frame of the
  page tables is free in the frame allocator.
\<close>

definition mm_ok :: "mm \<Rightarrow> bool" where
  "mm_ok m \<longleftrightarrow> pmm_ok (phys m) \<and> (\<forall>f. length (frames m f) = 1024) \<and>
     entry_present (directory m ! 1023) \<and> entry_frame (directory m ! 1023) = cr3 m \<and>
     cr3 m \<notin> free_pages (phys m) \<and>
     (\<forall>i < 1023. entry_present (directory m ! i) \<longrightarrow>
        entry_frame (directory m ! i) \<noteq> cr3 m \<and> entry_frame (directory m ! i) \<notin> free_pages (phys m)) \<and>
     (\<forall>i < 1023. \<forall>j < 1023. i \<noteq> j \<longrightarrow> entry_present (directory m ! i) \<longrightarrow> entry_present (directory m ! j) \<longrightarrow>
        entry_frame (directory m ! i) \<noteq> entry_frame (directory m ! j))"

lemma translate_recursive: "mm_ok m \<Longrightarrow> translate m RECURSIVE_PD = Some (cr3 m)"
  by (simp add: translate_def recursive_pd_index mm_ok_def)

lemma translate_table:
  "mm_ok m \<Longrightarrow> i < 1023 \<Longrightarrow> entry_present (directory m ! i) \<Longrightarrow>
   translate m (table_va i) = Some (entry_frame (directory m ! i))"
  by (simp add: translate_def table_va_index mm_ok_def)

lemma translate_walk:
  assumes "mm_ok m"
  shows "translate m va = (let pde = directory m ! pd_index va;
      pte = frames m (entry_frame pde) ! pt_index va in
      if entry_present pde \<and> entry_present pte then Some (entry_frame pte) else None)"
  using assms index_bounds [of va] by (auto simp: translate_def mm_ok_def Let_def)

text \<open>A frame that holds data, not a page table.\<close>

definition data_frame :: "mm \<Rightarrow> nat \<Rightarrow> bool" where
  "data_frame m f \<longleftrightarrow> f \<noteq> cr3 m \<and>
     (\<forall>i < 1024. entry_present (directory m ! i) \<longrightarrow> entry_frame (directory m ! i) \<noteq> f)"

lemma translate_data:
  assumes ok: "mm_ok m" and f: "data_frame m f" and l: "length ws = 1024"
  shows "translate (m\<lparr>frames := (frames m)(f := ws)\<rparr>) v = translate m v"
proof -
  let ?m = "m\<lparr>frames := (frames m)(f := ws)\<rparr>"
  have c: "cr3 m \<noteq> f" using f by (simp add: data_frame_def)
  have "mm_ok ?m" using ok l c by (simp add: mm_ok_def)
  moreover have "entry_present (directory m ! pd_index v) \<Longrightarrow> entry_frame (directory m ! pd_index v) \<noteq> f"
    using f index_bounds(1) [of v] by (simp add: data_frame_def)
  ultimately show ?thesis
    using c by (auto simp: translate_walk [OF ok] translate_walk Let_def)
qed

text \<open>What a step of the memory manager leaves alone: the frames in use that hold data.\<close>

definition data_kept :: "mm \<Rightarrow> mm \<Rightarrow> bool" where
  "data_kept m m' \<longleftrightarrow> (\<forall>f. data_frame m f \<longrightarrow> f \<notin> free_pages (phys m) \<longrightarrow> data_frame m' f \<and> frames m' f = frames m f)"

lemma data_kept_refl [simp]: "data_kept m m"
  by (simp add: data_kept_def)

lemma data_kept_trans:
  "data_kept m m1 \<Longrightarrow> free_pages (phys m1) \<subseteq> free_pages (phys m) \<Longrightarrow> data_kept m1 m2 \<Longrightarrow> data_kept m m2"
  unfolding data_kept_def by (metis subsetD)

lemma data_frame_phys [simp]: "data_frame (m\<lparr>phys := p\<rparr>) f = data_frame m f"
  by (simp add: data_frame_def)

lemma free_data_frame:
  assumes "mm_ok m" "f \<in> free_pages (phys m)"
  shows "data_frame m f"
proof -
  have "entry_frame (directory m ! i) \<noteq> f" if "i < 1024" "entry_present (directory m ! i)" for i
    using assms that by (cases "i = 1023") (auto simp: mm_ok_def)
  then show ?thesis using assms by (auto simp: data_frame_def mm_ok_def)
qed

lemma same_page_iff:
  "pd_index v = pd_index w \<and> pt_index v = pt_index w \<longleftrightarrow> unat v div 4096 = unat w div 4096"
proof -
  have "x div 4194304 = x div 4096 div 1024" for x :: nat by (simp add: div_mult2_eq [symmetric])
  then show ?thesis unfolding pd_index_div pt_index_mod by (metis div_mult_mod_eq)
qed

section \<open>Mapping a page\<close>

text \<open>The last store, when the table is already there.\<close>

lemma store_pte_spec:
  assumes ok: "mm_ok m" and i: "pd_index va < 1023" "entry_present (directory m ! pd_index va)"
  shows "\<exists>m'. store_entry (table_va (pd_index va)) (pt_index va) (make_pte w u f) m = Some m' \<and> mm_ok m' \<and>
     phys m' = phys m \<and> cr3 m' = cr3 m \<and> kernel_directory m' = kernel_directory m \<and> paging m' = paging m \<and>
     data_kept m m' \<and> (\<forall>v. pd_index v < 1023 \<longrightarrow> translate m' v =
        (if unat v div 4096 = unat va div 4096 then Some (take_bit 20 (unat f)) else translate m v))"
proof -
  let ?t = "entry_frame (directory m ! pd_index va)"
  let ?m = "m\<lparr>frames := (frames m)(?t := (frames m ?t)[pt_index va := make_pte w u f])\<rparr>"
  have ne: "?t \<noteq> cr3 m" using ok i by (simp add: mm_ok_def)
  have st: "store_entry (table_va (pd_index va)) (pt_index va) (make_pte w u f) m = Some ?m"
    using ok translate_table [OF ok i] index_bounds [of va] by (simp add: store_entry_def mm_ok_def)
  have ok': "mm_ok ?m" using ok ne by (auto simp: mm_ok_def)
  have dk: "data_kept m ?m" 
    unfolding data_kept_def
  proof (intro allI impI)
    fix g assume g: "data_frame m g"
    then have "?t \<noteq> g" using i(2) index_bounds(1) [of va] by (simp add: data_frame_def)
    then show "data_frame ?m g \<and> frames ?m g = frames m g" using g ne by (simp add: data_frame_def)
  qed
  have "translate ?m v = (if unat v div 4096 = unat va div 4096 then Some (take_bit 20 (unat f)) else translate m v)"
    if v: "pd_index v < 1023" for v
  proof (cases "pd_index v = pd_index va")
    case True
    have len: "length (frames m ?t) = 1024" using ok by (simp add: mm_ok_def)
    show ?thesis
      unfolding translate_walk [OF ok'] translate_walk [OF ok] Let_def
      using True ne i len index_bounds [of va] same_page_iff [of v va]
      by (auto simp: entry_facts nth_list_update)
  next
    case False
    then have "entry_frame (directory m ! pd_index v) \<noteq> ?t" if "entry_present (directory m ! pd_index v)"
      using ok i v that by (simp add: mm_ok_def)
    then show ?thesis
      unfolding translate_walk [OF ok'] translate_walk [OF ok] Let_def
      using ne False same_page_iff [of v va] by auto
  qed
  then show ?thesis using st ok' dk by auto
qed

text \<open>A new table: a zeroed frame, entered in the directory.\<close>

definition with_table :: "nat \<Rightarrow> bool \<Rightarrow> nat \<Rightarrow> pmm \<Rightarrow> mm \<Rightarrow> mm" where
  "with_table i u q p m = m\<lparr>phys := p,
     frames := (frames m)(cr3 m := (directory m)[i := make_pde u (of_nat q)], q := replicate 1024 0)\<rparr>"

lemma with_table_ok:
  assumes ok: "mm_ok m" and i: "i < 1023" "\<not> entry_present (directory m ! i)"
    and q: "q \<in> free_pages (phys m)" "pmm_ok p" "free_pages p = free_pages (phys m) - {q}"
  shows "mm_ok (with_table i u q p m)" and "cr3 (with_table i u q p m) = cr3 m"
    and "directory (with_table i u q p m) = (directory m)[i := make_pde u (of_nat q)]"
    and "q < 1048576" and "q \<noteq> cr3 m"
proof -
  show ne: "q \<noteq> cr3 m" using ok q by (auto simp: mm_ok_def)
  have "pmm_ok (phys m)" using ok by (simp add: mm_ok_def)
  then show qb: "q < 1048576" using free_pages_bound [OF q(1)] by (simp add: pmm_ok_def)
  then have ef: "entry_frame (make_pde u (of_nat q)) = q" by (simp add: entry_facts take_frame)
  show c: "cr3 (with_table i u q p m) = cr3 m" by (simp add: with_table_def)
  show d: "directory (with_table i u q p m) = (directory m)[i := make_pde u (of_nat q)]"
    using ne by (simp add: with_table_def)
  have d': "frames (with_table i u q p m) (cr3 m) = (directory m)[i := make_pde u (of_nat q)]"
    using d unfolding c .
  have len: "length (directory m) = 1024" using ok by (simp add: mm_ok_def)
  have nf: "entry_frame (directory m ! j) \<noteq> q" if "j < 1023" "entry_present (directory m ! j)" for j
    using ok q(1) that unfolding mm_ok_def by (auto dest: spec [of _ j])
  have dj: "j < 1023 \<Longrightarrow> entry_present ((directory m)[i := make_pde u (of_nat q)] ! j) \<longleftrightarrow>
      j = i \<or> entry_present (directory m ! j)"
    "j < 1023 \<Longrightarrow> entry_frame ((directory m)[i := make_pde u (of_nat q)] ! j) =
      (if j = i then q else entry_frame (directory m ! j))" for j
    using i len take_frame [OF qb] by (auto simp: nth_list_update entry_facts)
  have ph: "phys (with_table i u q p m) = p" by (simp add: with_table_def)
  show "mm_ok (with_table i u q p m)"
    unfolding mm_ok_def c d' ph
  proof (intro conjI)
    show "\<forall>f. length (frames (with_table i u q p m) f) = 1024"
      using ok by (auto simp: with_table_def mm_ok_def)
    show "\<forall>j<1023. entry_present ((directory m)[i := make_pde u (of_nat q)] ! j) \<longrightarrow>
        entry_frame ((directory m)[i := make_pde u (of_nat q)] ! j) \<noteq> cr3 m \<and>
        entry_frame ((directory m)[i := make_pde u (of_nat q)] ! j) \<notin> free_pages p"
      using ok ne q(3) by (auto simp: dj mm_ok_def)
    show "\<forall>j<1023. \<forall>k<1023. j \<noteq> k \<longrightarrow> entry_present ((directory m)[i := make_pde u (of_nat q)] ! j) \<longrightarrow>
        entry_present ((directory m)[i := make_pde u (of_nat q)] ! k) \<longrightarrow>
        entry_frame ((directory m)[i := make_pde u (of_nat q)] ! j) \<noteq>
        entry_frame ((directory m)[i := make_pde u (of_nat q)] ! k)"
      using ok nf by (simp add: dj mm_ok_def) metis
  qed (use ok i q len in \<open>auto simp: mm_ok_def nth_list_update\<close>)
qed

lemma with_table_data:
  assumes ok: "mm_ok m" and i: "i < 1023" "\<not> entry_present (directory m ! i)"
    and q: "q \<in> free_pages (phys m)" "pmm_ok p" "free_pages p = free_pages (phys m) - {q}"
  shows "data_kept m (with_table i u q p m)"
  unfolding data_kept_def
proof (intro allI impI)
  fix f assume f: "data_frame m f" "f \<notin> free_pages (phys m)"
  note w = with_table_ok(1-3) [OF ok i q, of u] with_table_ok(4,5) [OF ok i q]
  have fq: "f \<noteq> q" "f \<noteq> cr3 m" using f q(1) by (auto simp: data_frame_def)
  have len: "length (directory m) = 1024" using ok by (simp add: mm_ok_def)
  have "entry_present ((directory m)[i := make_pde u (of_nat q)] ! j) \<Longrightarrow>
      entry_frame ((directory m)[i := make_pde u (of_nat q)] ! j) \<noteq> f" if "j < 1024" for j
    using f(1) fq(1) i(1) len that w(4) by (cases "j = i") (auto simp: data_frame_def entry_facts take_frame)
  then have "data_frame (with_table i u q p m) f" 
    unfolding data_frame_def w(3) unfolding w(2) using fq(2) by simp
  then show "data_frame (with_table i u q p m) f \<and> frames (with_table i u q p m) f = frames m f"
    using fq by (simp add: with_table_def)
qed

lemma with_table_translate:
  assumes ok: "mm_ok m" and i: "i < 1023" "\<not> entry_present (directory m ! i)"
    and q: "q \<in> free_pages (phys m)" "pmm_ok p" "free_pages p = free_pages (phys m) - {q}"
    and v: "pd_index v < 1023"
  shows "translate (with_table i u q p m) v = translate m v"
proof -
  note w = with_table_ok(1-3) [OF ok i q, of u] with_table_ok(4,5) [OF ok i q]
  have len: "length (directory m) = 1024" using ok by (simp add: mm_ok_def)
  have ef: "entry_frame (make_pde u (of_nat q)) = q" using w(4) by (simp add: entry_facts take_frame)
  have nf: "entry_frame (directory m ! pd_index v) \<noteq> q" "entry_frame (directory m ! pd_index v) \<noteq> cr3 m"
    if "entry_present (directory m ! pd_index v)"
    using ok q(1) that v unfolding mm_ok_def by (auto dest: spec [of _ "pd_index v"])
  have fr: "frames (with_table i u q p m) f = frames m f" if "f \<noteq> q" "f \<noteq> cr3 m" for f
    using that by (simp add: with_table_def)
  have fq: "frames (with_table i u q p m) q = replicate 1024 0" by (simp add: with_table_def)
  show ?thesis
    unfolding translate_walk [OF w(1)] translate_walk [OF ok] Let_def w(3)
    using i len nf fr fq index_bounds [of v] v
    by (cases "pd_index v = i") (auto simp: ef entry_zero)
qed

lemma mmu_map_page_step:
  assumes ok: "mm_ok m" and i: "pd_index va < 1023"
  shows "mmu_map_page pa va w u m =
    (if entry_present (directory m ! pd_index va)
     then store_entry (table_va (pd_index va)) (pt_index va) (make_pte w u (of_nat (unat pa div 4096))) m
     else do {
       (p, a) \<leftarrow> pmm_alloc_frame (phys m);
       m2 \<leftarrow> store_entry RECURSIVE_PD (pd_index va) (make_pde u (of_nat (unat a div 4096))) (m\<lparr>phys := p\<rparr>);
       f \<leftarrow> translate m2 (table_va (pd_index va));
       store_entry (table_va (pd_index va)) (pt_index va) (make_pte w u (of_nat (unat pa div 4096)))
         (m2\<lparr>frames := (frames m2)(f := replicate 1024 0)\<rparr>) })"
  using translate_recursive [OF ok] ok i
  by (simp add: mmu_map_page_def mm_ok_def PAGE_SIZE_def table_va_def [symmetric] Let_def split_def
      bind_assoc)

text \<open>Where the region has no page table yet, the routine goes on in the state with the new one.\<close>

lemma mmu_map_page_new_table:
  assumes ok: "mm_ok m" and i: "pd_index va < 1023" and np: "\<not> entry_present (directory m ! pd_index va)"
    and al: "pmm_alloc_frame (phys m) = Some (p, page_addr q)" and q: "q < 1048576"
  shows "mmu_map_page pa va w u m =
    store_entry (table_va (pd_index va)) (pt_index va) (make_pte w u (of_nat (unat pa div 4096))) (with_table (pd_index va) u q p m)"
proof -
  let ?i = "pd_index va"
  let ?m2 = "m\<lparr>phys := p, frames := (frames m)(cr3 m := (directory m)[?i := make_pde u (of_nat q)])\<rparr>"
  have uq: "unat (page_addr q) div 4096 = q" using page_region(1) [OF q] by simp
  have len: "length (directory m) = 1024" using ok by (simp add: mm_ok_def)
  have "translate (m\<lparr>phys := p\<rparr>) RECURSIVE_PD = Some (cr3 m)"
    using translate_recursive [OF ok] by (simp add: translate_def cong: if_cong)
  then have st: "store_entry RECURSIVE_PD ?i (make_pde u (of_nat q)) (m\<lparr>phys := p\<rparr>) = Some ?m2"
    using len i by (simp add: store_entry_def)
  have tr: "translate ?m2 (table_va ?i) = Some q"
    using ok i len q by (simp add: translate_def table_va_index mm_ok_def nth_list_update entry_facts take_frame)
  have "?m2\<lparr>frames := (frames ?m2)(q := replicate 1024 0)\<rparr> = with_table ?i u q p m" by (simp add: with_table_def)
  then show ?thesis
    unfolding mmu_map_page_step [OF ok i] if_not_P [OF np] al using st tr by (simp add: uq)
qed

lemma mmu_map_page_spec:
  assumes ok: "mm_ok m" and i: "pd_index va < 1023"
    and mem: "entry_present (directory m ! pd_index va) \<or> free_pages (phys m) \<noteq> {}"
  shows "\<exists>m'. mmu_map_page pa va w u m = Some m' \<and> mm_ok m' \<and> cr3 m' = cr3 m \<and>
     kernel_directory m' = kernel_directory m \<and> paging m' = paging m \<and> data_kept m m' \<and>
     (\<exists>S. free_pages (phys m') = free_pages (phys m) - S \<and> finite S \<and>
        card S \<le> (if entry_present (directory m ! pd_index va) then 0 else 1)) \<and>
     (\<forall>v. pd_index v < 1023 \<longrightarrow> translate m' v =
        (if unat v div 4096 = unat va div 4096 then Some (unat pa div 4096) else translate m v))"
proof -
  let ?i = "pd_index va" and ?f = "of_nat (unat pa div 4096) :: u32"
  have "unat pa < 2 ^ 32" using unsigned_less [of pa] by simp
  then have pf: "unat pa div 4096 < 1048576" by auto
  show ?thesis
  proof (cases "entry_present (directory m ! ?i)")
    case True
    from store_pte_spec [OF ok i True, of w u ?f] obtain m' where
      "store_entry (table_va ?i) (pt_index va) (make_pte w u ?f) m = Some m'" and
      m': "mm_ok m'" "phys m' = phys m" "cr3 m' = cr3 m" "kernel_directory m' = kernel_directory m"
        "paging m' = paging m" "data_kept m m'" "\<forall>v. pd_index v < 1023 \<longrightarrow> translate m' v =
        (if unat v div 4096 = unat va div 4096 then Some (unat pa div 4096) else translate m v)"
      unfolding take_frame [OF pf] by blast
    then have "mmu_map_page pa va w u m = Some m'" using True by (simp add: mmu_map_page_step [OF ok i])
    with m' show ?thesis by (intro exI [of _ m'] conjI exI [of _ "{}"]) simp_all
  next
    case False
    have pok: "pmm_ok (phys m)" using ok by (simp add: mm_ok_def)
    from pmm_alloc_frame_spec [OF pok] False mem obtain p q where
      al: "pmm_alloc_frame (phys m) = Some (p, page_addr q)" and
      q: "q \<in> free_pages (phys m)" "pmm_ok p" "free_pages p = free_pages (phys m) - {q}"
      by (auto split: if_splits)
    note wt = with_table_ok(1-3) [OF ok i False q, of u] with_table_ok(4,5) [OF ok i False q]
    let ?m3 = "with_table ?i u q p m"
    have len: "length (directory m) = 1024" using ok by (simp add: mm_ok_def)
    note run = mmu_map_page_new_table [OF ok i False al wt(4), of pa w u]
    have pr: "entry_present (directory ?m3 ! ?i)" unfolding wt(3) using i len by (simp add: entry_facts)
    have fp: "free_pages (phys ?m3) = free_pages (phys m) - {q}" using q by (simp add: with_table_def)
    have rest: "cr3 ?m3 = cr3 m" "kernel_directory ?m3 = kernel_directory m" "paging ?m3 = paging m"
      by (simp_all add: with_table_def)
    from store_pte_spec [OF wt(1) i pr, of w u ?f] obtain m' where
      "store_entry (table_va ?i) (pt_index va) (make_pte w u ?f) ?m3 = Some m'" and
      m': "mm_ok m'" "phys m' = phys ?m3" "cr3 m' = cr3 m" "kernel_directory m' = kernel_directory m"
        "paging m' = paging m" "data_kept ?m3 m'" "\<forall>v. pd_index v < 1023 \<longrightarrow> translate m' v =
        (if unat v div 4096 = unat va div 4096 then Some (unat pa div 4096) else translate ?m3 v)"
      unfolding take_frame [OF pf] rest by blast
    then have "mmu_map_page pa va w u m = Some m'" using run by simp
    moreover have "data_kept m m'"
      by (rule data_kept_trans [OF with_table_data [OF ok i False q] _ m'(6)]) (simp add: fp)
    ultimately show ?thesis using m' False with_table_translate [OF ok i False q, of _ u]
      by (intro exI [of _ m'] conjI exI [of _ "{q}"]) (simp_all add: fp)
  qed
qed

section \<open>Start-up and demand paging\<close>

lemma two_frames:
  assumes "pmm_ok p" "2 \<le> card (free_pages p)" "0 \<notin> free_pages p"
  obtains p1 p2 q r where "pmm_alloc_frame p = Some (p1, page_addr q)" "pmm_alloc_frame p1 = Some (p2, page_addr r)"
    "pmm_ok p1" "pmm_ok p2" "free_pages p2 = free_pages p - {q, r}" "q \<noteq> r" "0 < q" "0 < r" "q \<in> free_pages p"
    "r \<in> free_pages p" "q < 1048576" "r < 1048576"
proof -
  have ne: "free_pages p \<noteq> {}" using assms(2) by auto
  from pmm_alloc_frame_spec [OF assms(1)] ne obtain p1 q where
    1: "pmm_alloc_frame p = Some (p1, page_addr q)" "pmm_ok p1" "q \<in> free_pages p"
      "free_pages p1 = free_pages p - {q}" by auto
  have "free_pages p1 \<noteq> {}" using assms(2) 1(3,4) card_mono [of "{q}" "free_pages p"] by auto
  with pmm_alloc_frame_spec [OF 1(2)] obtain p2 r where
    2: "pmm_alloc_frame p1 = Some (p2, page_addr r)" "pmm_ok p2" "r \<in> free_pages p1"
      "free_pages p2 = free_pages p1 - {r}" by auto
  have "q < 1048576" "r < 1048576"
    using free_pages_bound [OF 1(3)] free_pages_bound [OF 2(3)] assms(1) 1(2) by (simp_all add: pmm_ok_def)
  moreover have "0 < q" "0 < r" using assms(3) 1(3,4) 2(3) by (auto intro: gr0I)
  ultimately show ?thesis using that 1 2 by auto
qed

lemma page_addr_nonzero: "0 < p \<Longrightarrow> p < 1048576 \<Longrightarrow> page_addr p \<noteq> 0"
  using page_region(1) [of p] by (metis mult_is_0 not_gr_zero unsigned_0 zero_neq_numeral)

definition identity_directory :: "nat \<Rightarrow> nat \<Rightarrow> u32 list" where
  "identity_directory q r = (replicate 1024 0)[0 := make_pde False (of_nat r), 1023 := make_pde False (of_nat q)]"

definition identity_table :: "u32 list" where
  "identity_table = map (\<lambda>i. make_pte True False (of_nat i)) [0..<1024]"

lemma identity_directory_entries:
  assumes "i < 1024" "q < 1048576" "r < 1048576"
  shows "entry_present (identity_directory q r ! i) \<longleftrightarrow> i = 0 \<or> i = 1023"
    "i < 1023 \<Longrightarrow> entry_present (identity_directory q r ! i) \<Longrightarrow> entry_frame (identity_directory q r ! i) = r"
    "entry_frame (identity_directory q r ! 1023) = q"
  using assms by (auto simp: identity_directory_def nth_list_update entry_facts entry_zero take_frame)

text \<open>A memory whose directory has the two entries is in order, and maps the first four megabytes to themselves.\<close>

lemma identity_mm_ok:
  assumes f: "frames m (cr3 m) = identity_directory (cr3 m) r" "\<forall>f. length (frames m f) = 1024"
    and p: "pmm_ok (phys m)" "cr3 m \<notin> free_pages (phys m)" "r \<notin> free_pages (phys m)"
    and b: "r \<noteq> cr3 m" "r < 1048576" "cr3 m < 1048576"
  shows "mm_ok m"
  unfolding mm_ok_def f(1)
proof (intro conjI)
  note ent = identity_directory_entries [OF _ b(3,2)]
  show "pmm_ok (phys m)" "\<forall>f. length (frames m f) = 1024" by fact+
  show "entry_present (identity_directory (cr3 m) r ! 1023)" "entry_frame (identity_directory (cr3 m) r ! 1023) = cr3 m"
    "cr3 m \<notin> free_pages (phys m)" using ent(1,3) [of 1023] p by simp_all
  show "\<forall>i<1023. entry_present (identity_directory (cr3 m) r ! i) \<longrightarrow>
      entry_frame (identity_directory (cr3 m) r ! i) \<noteq> cr3 m \<and>
      entry_frame (identity_directory (cr3 m) r ! i) \<notin> free_pages (phys m)"
    using ent(2) p b(1) by simp
  show "\<forall>i<1023. \<forall>j<1023. i \<noteq> j \<longrightarrow> entry_present (identity_directory (cr3 m) r ! i) \<longrightarrow>
      entry_present (identity_directory (cr3 m) r ! j) \<longrightarrow>
      entry_frame (identity_directory (cr3 m) r ! i) \<noteq> entry_frame (identity_directory (cr3 m) r ! j)"
    using ent(1) by fastforce
qed

lemma identity_translate:
  assumes ok: "mm_ok m" and f: "frames m (cr3 m) = identity_directory (cr3 m) r" "frames m r = identity_table"
    and b: "r < 1048576" "cr3 m < 1048576" and v: "pd_index v < 1023"
  shows "translate m v = (if unat v < 4194304 then Some (unat v div 4096) else None)"
proof (cases "pd_index v = 0")
  case True
  then have s: "unat v < 4194304" by (simp add: pd_index_div div_eq_0_iff)
  then have "pt_index v = unat v div 4096" by (simp add: pt_index_mod less_mult_imp_div_less)
  then show ?thesis unfolding translate_walk [OF ok] Let_def f(1) True
    using s identity_directory_entries(1,2) [OF _ b(2,1), of 0] f(2) index_bounds [of v]
    by (simp add: identity_table_def entry_facts take_frame)
next
  case False
  then have s: "\<not> unat v < 4194304" by (simp add: pd_index_div div_eq_0_iff)
  show ?thesis unfolding translate_walk [OF ok] Let_def f(1)
    using s False identity_directory_entries(1) [OF _ b(2,1), of "pd_index v"] v by simp
qed

lemma mmu_init_spec:
  assumes ok: "pmm_ok (phys m)" "\<forall>f. length (frames m f) = 1024"
    and mem: "2 \<le> card (free_pages (phys m))" "0 \<notin> free_pages (phys m)"
  shows "\<exists>m'. mmu_init m = Some m' \<and> mm_ok (mmu_enable m') \<and> paging (mmu_enable m') \<and>
     (\<exists>q r. q \<in> free_pages (phys m) \<and> r \<in> free_pages (phys m) \<and> q \<noteq> r \<and> 
        free_pages (phys m') = free_pages (phys m) - {q, r} \<and> cr3 (mmu_enable m') \<in> {q, r} \<and>
        (\<forall>i < 1024. entry_present (directory (mmu_enable m') ! i) \<longrightarrow>
           entry_frame (directory (mmu_enable m') ! i) \<in> {q, r})) \<and>
     (\<forall>v. pd_index v < 1023 \<longrightarrow> translate (mmu_enable m') v =
        (if unat v < 4194304 then Some (unat v div 4096) else None))"
proof -
  from two_frames [OF ok(1) mem] obtain p1 p2 q r where
    al: "pmm_alloc_frame (phys m) = Some (p1, page_addr q)" "pmm_alloc_frame p1 = Some (p2, page_addr r)"
      "pmm_ok p2" and fr: "free_pages p2 = free_pages (phys m) - {q, r}" "q \<noteq> r" "0 < q" "0 < r"
      "q \<in> free_pages (phys m)" "r \<in> free_pages (phys m)" "q < 1048576" "r < 1048576"
    by metis
  let ?m = "m\<lparr>phys := p2, kernel_directory := q,
    frames := (frames m)(q := replicate 1024 0, r := identity_table, q := identity_directory q r)\<rparr>"
  let ?e = "mmu_enable ?m"
  have run: "mmu_init m = Some ?m"
    using fr page_region(1) [OF fr(7)] page_region(1) [OF fr(8)]
    by (simp add: mmu_init_def al page_addr_nonzero PAGE_SIZE_def Let_def identity_table_def identity_directory_def)
  have dir: "frames ?e (cr3 ?e) = identity_directory (cr3 ?e) r" "frames ?e r = identity_table" and c: "cr3 ?e = q"
    using fr(2) by (simp_all add: mmu_enable_def)
  note ent = identity_directory_entries [OF _ fr(7,8)]
  have len: "\<forall>f. length (frames ?e f) = 1024"
    using ok(2) by (simp add: mmu_enable_def identity_directory_def identity_table_def)
  have mok: "mm_ok ?e"
    by (rule identity_mm_ok [OF dir(1) len]) (use al(3) fr in \<open>simp_all add: mmu_enable_def\<close>)
  have "translate ?e v = (if unat v < 4194304 then Some (unat v div 4096) else None)" if v: "pd_index v < 1023" for v
    by (rule identity_translate [OF mok dir _ _ v]) (use fr(7,8) c in simp_all)
  moreover have "\<forall>i < 1024. entry_present (directory ?e ! i) \<longrightarrow> entry_frame (directory ?e ! i) \<in> {q, r}"
    unfolding dir(1) unfolding c
  proof (intro allI impI)
    fix i :: nat assume i: "i < 1024" "entry_present (identity_directory q r ! i)"
    then consider "i < 1023" | "i = 1023" by linarith
    then show "entry_frame (identity_directory q r ! i) \<in> {q, r}" 
      using ent(2) [OF i(1) _ i(2)] ent(3) [OF i(1)] by cases auto
  qed
  ultimately show ?thesis using run mok fr
    by (intro exI [of _ ?m] conjI exI [of _ q] exI [of _ r]) (simp_all add: mmu_enable_def)
qed

lemma free_pages_finite: "finite (free_pages p)"
  by (rule finite_subset [of _ "{..<8 * length (bitmap p)}"]) (auto dest: free_pages_bound)

text \<open>Whatever they do to the tables, the operations free no frame.\<close>

lemma store_entry_phys: "store_entry va i v m = Some m' \<Longrightarrow> phys m' = phys m"
  by (auto simp: store_entry_def bind_eq_Some_conv)

lemma map_page_shrinks: "mmu_map_page pa va w u m = Some m' \<Longrightarrow> shrinks (phys m) (phys m')"
  unfolding mmu_map_page_def Let_def
  by (auto simp: bind_eq_Some_conv split: if_splits dest!: store_entry_phys alloc_shrinks)

lemma fault_shrinks: "mmu_handle_page_fault e va m = Some m' \<Longrightarrow> shrinks (phys m) (phys m')"
  unfolding mmu_handle_page_fault_def
  by (auto simp: bind_eq_Some_conv split: if_splits dest!: map_page_shrinks alloc_shrinks intro: shrinks_trans)

lemma mmu_init_shrinks: "mmu_init m = Some m' \<Longrightarrow> shrinks (phys m) (phys m')"
  unfolding mmu_init_def Let_def
  by (auto simp: bind_eq_Some_conv split: if_splits dest!: alloc_shrinks intro: shrinks_trans)

text \<open>A free frame is taken and mapped: what the fault handler and the growing heap do.\<close>

lemma map_new_frame:
  assumes ok: "mm_ok m" and i: "pd_index va < 1023"
    and mem: "2 \<le> card (free_pages (phys m))" "0 \<notin> free_pages (phys m)"
  obtains p q m' where "pmm_alloc_frame (phys m) = Some (p, page_addr q)" "page_addr q \<noteq> 0"
    "mmu_map_page (page_addr q) va True False (m\<lparr>phys := p\<rparr>) = Some m'" "mm_ok m'" "cr3 m' = cr3 m"
    "q \<in> free_pages (phys m)" "free_pages (phys m') \<subseteq> free_pages (phys m) - {q}"
    "card (free_pages (phys m)) \<le> card (free_pages (phys m')) + 2" "data_kept m m'" "data_frame m' q"
    "\<forall>v. pd_index v < 1023 \<longrightarrow> translate m' v = (if unat v div 4096 = unat va div 4096 then Some q else translate m v)"
proof -
  have pok: "pmm_ok (phys m)" using ok by (simp add: mm_ok_def)
  have ne: "free_pages (phys m) \<noteq> {}" using mem by auto
  from pmm_alloc_frame_spec [OF pok] ne obtain p q where
    al: "pmm_alloc_frame (phys m) = Some (p, page_addr q)" "pmm_ok p" "q \<in> free_pages (phys m)"
      "free_pages p = free_pages (phys m) - {q}" by auto
  have q: "q < 1048576" using free_pages_bound [OF al(3)] pok by (simp add: pmm_ok_def)
  have q0: "page_addr q \<noteq> 0" using al(3) mem(2) q by (intro page_addr_nonzero) (auto intro: gr0I)
  let ?m = "m\<lparr>phys := p\<rparr>"
  have ok': "mm_ok ?m" using ok al by (simp add: mm_ok_def)
  have tr: "translate ?m v = translate m v" for v by (simp add: translate_def cong: if_cong)
  have card: "card (free_pages p) + 1 = card (free_pages (phys m))"
    using al(3,4) free_pages_finite [of "phys m"] mem(1) by simp
  then have "free_pages p \<noteq> {}" using mem(1) by auto
  then have me: "entry_present (directory ?m ! pd_index va) \<or> free_pages (phys ?m) \<noteq> {}" by simp
  have qd: "unat (page_addr q) div 4096 = q" using page_region(1) [OF q] by simp
  from mmu_map_page_spec [OF ok' i me, of "page_addr q" True False] obtain m' S where
    m': "mmu_map_page (page_addr q) va True False ?m = Some m'" "mm_ok m'" "cr3 m' = cr3 ?m"
      "free_pages (phys m') = free_pages (phys ?m) - S" "data_kept ?m m'" "finite S"
      "card S \<le> (if entry_present (directory ?m ! pd_index va) then 0 else 1)"
    "\<forall>v. pd_index v < 1023 \<longrightarrow> translate m' v = (if unat v div 4096 = unat va div 4096 then Some q else translate m v)"
    unfolding tr qd by blast
  have S1: "card S \<le> 1" using m'(7) by (simp split: if_splits)
  have "data_kept m ?m" by (simp add: data_kept_def)
  then have "data_kept m m'" using data_kept_trans [OF _ _ m'(5), of m] al(4) by auto
  moreover have "data_frame m' q" using m'(5) free_data_frame [OF ok al(3)] al(4) by (simp add: data_kept_def)
  moreover have "card (free_pages (phys m)) \<le> card (free_pages (phys m')) + 2"
    using diff_card_le_card_Diff [OF m'(6), of "free_pages p"] m'(4) S1 card by simp
  ultimately show ?thesis using that [OF al(1) q0 m'(1,2) _ al(3)] m'(3,4,8) al(4) by auto
qed

lemma page_mask: "unat ((va :: u32) AND 0xFFFFF000) div 4096 = unat va div 4096"
proof -
  have "(0xFFFFF000 :: u32) = NOT (mask 12)" by (simp add: mask_eq_exp_minus_1 not_eq_complement)
  then have "drop_bit 12 (va AND 0xFFFFF000) = drop_bit 12 (va AND NOT (mask 12))" by simp
  also have "\<dots> = drop_bit 12 va"
    by (intro bit_word_eqI) (auto simp: bit_simps dest: bit_imp_le_length)
  finally have "drop_bit 12 (va AND 0xFFFFF000) = drop_bit 12 va" .
  then have "unat (drop_bit 12 (va AND 0xFFFFF000)) = unat (drop_bit 12 va)" by simp
  then show ?thesis by (simp add: drop_bit_eq_div unat_div_distrib)
qed

lemma page_same_index: "unat v div 4096 = unat w div 4096 \<Longrightarrow> pd_index v = pd_index w"
  using same_page_iff by blast

text \<open>The last frame goes to the page itself, and the table it needs is made of page 0.\<close>

lemma fault_takes_page_zero:
  assumes ok: "mm_ok m" "cr3 m \<noteq> 0" and i: "pd_index va < 1023" "0xD0000000 \<le> va" and e: "e AND 1 = 0"
    and np: "\<not> entry_present (directory m ! pd_index va)" and last: "free_pages (phys m) = {q}" "q \<noteq> 0"
  shows "\<exists>m'. mmu_handle_page_fault e va m = Some m' \<and> entry_present (directory m' ! pd_index va) \<and>
    entry_frame (directory m' ! pd_index va) = 0 \<and> length (filter (\<lambda>w. w = 0) (frames m' 0)) = 1023"
proof -
  let ?i = "pd_index va" and ?va = "va AND 0xFFFFF000"
  have pok: "pmm_ok (phys m)" using ok(1) by (simp add: mm_ok_def)
  from pmm_alloc_frame_spec [OF pok] last(1) obtain p where
    p: "pmm_alloc_frame (phys m) = Some (p, page_addr q)" "pmm_ok p" "free_pages p = {}" by auto
  from pmm_alloc_frame_spec [OF p(2)] p(3) have p2: "pmm_alloc_frame p = Some (p, page_addr 0)" by (auto simp: page_addr_def)
  have q: "q < 1048576" using free_pages_bound [of q "phys m"] last(1) pok by (simp add: pmm_ok_def)
  let ?m = "m\<lparr>phys := p\<rparr>"
  have okm: "mm_ok ?m" using ok(1) p(2,3) by (simp add: mm_ok_def)
  have vi: "pd_index ?va = ?i" using page_same_index [OF page_mask] .
  let ?w = "with_table ?i False 0 p ?m" and ?pte = "make_pte True False (of_nat (unat (page_addr q) div 4096))"
  have len: "length (directory m) = 1024" using ok(1) by (simp add: mm_ok_def)
  have "mmu_map_page (page_addr q) ?va True False ?m = store_entry (table_va ?i) (pt_index ?va) ?pte ?w"
    using mmu_map_page_new_table [OF okm, of ?va p 0 "page_addr q" True False] i(1) np p2 unfolding vi by simp
  moreover have "translate ?w (table_va ?i) = Some 0"
    using ok i(1) len by (simp add: translate_def table_va_index mm_ok_def with_table_def nth_list_update entry_facts)
  ultimately have "mmu_map_page (page_addr q) ?va True False ?m =
      Some (?w\<lparr>frames := (frames ?w)(0 := (replicate 1024 0)[pt_index ?va := ?pte])\<rparr>)"
    using index_bounds(2) [of ?va] by (simp add: store_entry_def with_table_def)
  moreover have "page_addr q \<noteq> 0" using last(2) q by (intro page_addr_nonzero) simp_all
  ultimately have "mmu_handle_page_fault e va m = Some (?w\<lparr>frames := (frames ?w)(0 := (replicate 1024 0)[pt_index ?va := ?pte])\<rparr>)"
    using e i(2) p(1) by (simp add: mmu_handle_page_fault_def)
  moreover have "?pte \<noteq> 0" using entry_facts(1) entry_zero by metis
  then have "length (filter (\<lambda>w. w = 0) ((replicate 1024 0)[pt_index ?va := ?pte])) = 1023"
    using index_bounds(2) [of ?va] by (simp add: upd_conv_take_nth_drop)
  ultimately show ?thesis using ok(2) i(1) len by (simp add: with_table_def entry_facts)
qed

lemma mmu_handle_page_fault_spec:
  assumes ok: "mm_ok m" and i: "pd_index va < 1023" "0xD0000000 \<le> va" and e: "e AND 1 = 0"
    and mem: "2 \<le> card (free_pages (phys m))" "0 \<notin> free_pages (phys m)"
  shows "\<exists>m' q. mmu_handle_page_fault e va m = Some m' \<and> mm_ok m' \<and> q \<in> free_pages (phys m) \<and>
     free_pages (phys m') \<subseteq> free_pages (phys m) - {q} \<and> data_kept m m' \<and> data_frame m' q \<and> translate m' va = Some q \<and>
     (\<forall>v. pd_index v < 1023 \<longrightarrow> unat v div 4096 \<noteq> unat va div 4096 \<longrightarrow> translate m' v = translate m v)"
proof -
  have i': "pd_index (va AND 0xFFFFF000) < 1023" using i(1) page_same_index [OF page_mask] by simp
  from map_new_frame [OF ok i' mem] obtain p q m' where
    m': "pmm_alloc_frame (phys m) = Some (p, page_addr q)" "page_addr q \<noteq> 0"
      "mmu_map_page (page_addr q) (va AND 0xFFFFF000) True False (m\<lparr>phys := p\<rparr>) = Some m'" "mm_ok m'"
      "q \<in> free_pages (phys m)" "free_pages (phys m') \<subseteq> free_pages (phys m) - {q}" "data_kept m m'" "data_frame m' q"
    and t: "\<forall>v. pd_index v < 1023 \<longrightarrow> translate m' v = (if unat v div 4096 = unat va div 4096 then Some q else translate m v)"
    unfolding page_mask by metis
  have "mmu_handle_page_fault e va m = Some m'" using m'(1-3) e i(2) by (simp add: mmu_handle_page_fault_def)
  with m' t i(1) show ?thesis by (intro exI [of _ m'] exI [of _ q]) simp
qed

section \<open>Properties\<close>

text \<open>Memory before start-up, and after the page tables are set up and switched on.\<close>

definition example_mm :: mm where
  "example_mm = \<lparr>phys = example_pmm, frames = (\<lambda>_. replicate 1024 0), kernel_directory = 0, cr3 = 0, paging = False\<rparr>"

definition boot_mm :: mm where
  "boot_mm = mmu_enable (the (mmu_init example_mm))"

lemma example_mm_facts:
  "pmm_ok (phys example_mm)" "\<forall>f. length (frames example_mm f) = 1024"
  "2 \<le> card (free_pages (phys example_mm))" "0 \<notin> free_pages (phys example_mm)"
  by (simp_all add: example_mm_def example_pmm_facts)

lemma boot_mm_facts:
  "mm_ok boot_mm" "card (free_pages (phys boot_mm)) = 253" "0 \<notin> free_pages (phys boot_mm)"
  "cr3 boot_mm < 256" "i < 1024 \<Longrightarrow> entry_present (directory boot_mm ! i) \<Longrightarrow> entry_frame (directory boot_mm ! i) < 256"
  "translate boot_mm 0x00100004 = Some 256" "translate boot_mm 0x00200004 = Some 512" "own_pages (phys boot_mm) = own_pages example_pmm"
proof -
  obtain m' q r where m': "mmu_init example_mm = Some m'" "mm_ok (mmu_enable m')"
    "q \<in> free_pages (phys example_mm)" "r \<in> free_pages (phys example_mm)" "q \<noteq> r"
    "free_pages (phys m') = free_pages (phys example_mm) - {q, r}" and t: "cr3 (mmu_enable m') \<in> {q, r}"
    "\<forall>i < 1024. entry_present (directory (mmu_enable m') ! i) \<longrightarrow> entry_frame (directory (mmu_enable m') ! i) \<in> {q, r}"
    "\<forall>v. pd_index v < 1023 \<longrightarrow> translate (mmu_enable m') v = (if unat v < 4194304 then Some (unat v div 4096) else None)"
    using mmu_init_spec [OF example_mm_facts] by blast
  have b: "boot_mm = mmu_enable m'" using m'(1) by (simp add: boot_mm_def)
  have p: "phys (mmu_enable m') = phys m'" by (simp add: mmu_enable_def)
  have qr: "q < 256" "r < 256" using m'(3,4) by (simp_all add: example_mm_def example_pmm_facts)
  show "cr3 boot_mm < 256" using t(1) qr b by auto
  show "i < 1024 \<Longrightarrow> entry_present (directory boot_mm ! i) \<Longrightarrow> entry_frame (directory boot_mm ! i) < 256"
    using t(2) qr b by auto
  have "pd_index 0x00100004 < 1023" by (simp add: pd_index_div)
  then show "translate boot_mm 0x00100004 = Some 256" using t(3) b by simp
  have "pd_index 0x00200004 < 1023" by (simp add: pd_index_div)
  then show "translate boot_mm 0x00200004 = Some 512" using t(3) b by simp
  show "own_pages (phys boot_mm) = own_pages example_pmm"
    using mmu_init_shrinks [OF m'(1)] b p by (simp add: shrinks_def own_pages_def example_mm_def)
  show "mm_ok boot_mm" using m'(2) b by simp
  have "card (free_pages (phys example_mm)) = 255" by (simp add: example_mm_def example_pmm_facts)
  moreover have "card (free_pages (phys example_mm) - {q, r}) = card (free_pages (phys example_mm)) - card {q, r}"
    using m'(3,4) by (intro card_Diff_subset) auto
  ultimately show "card (free_pages (phys boot_mm)) = 253" using b p m'(5,6) by simp
  show "0 \<notin> free_pages (phys boot_mm)" using b p m'(6) example_mm_facts(4) by simp
qed

text \<open>C2: mmu_map_page, with recursive paging in place and a frame left for a new table if one is needed,
  makes the virtual page translate to the given frame and leaves every other translation below the page
  tables' own window as it was; it takes at most one frame, the page-table invariant is kept, and so are the
  contents of every frame in use that holds data.\<close>

theorem mmu_map_page_correct:
  assumes "mm_ok m" "pd_index va < 1023"
    and "entry_present (directory m ! pd_index va) \<or> free_pages (phys m) \<noteq> {}"
  shows "\<exists>m'. mmu_map_page pa va w u m = Some m' \<and> mm_ok m' \<and> data_kept m m' \<and>
     (\<exists>S. free_pages (phys m') = free_pages (phys m) - S \<and> finite S \<and> card S \<le> 1) \<and>
     (\<forall>v. pd_index v < 1023 \<longrightarrow> translate m' v =
        (if unat v div 4096 = unat va div 4096 then Some (unat pa div 4096) else translate m v))"
proof -
  obtain m' S where "mmu_map_page pa va w u m = Some m'" "mm_ok m'" "data_kept m m'"
    "free_pages (phys m') = free_pages (phys m) - S" "finite S" and c: "card S \<le> (if entry_present (directory m ! pd_index va) then 0 else 1)" and
    "\<forall>v. pd_index v < 1023 \<longrightarrow> translate m' v =
        (if unat v div 4096 = unat va div 4096 then Some (unat pa div 4096) else translate m v)"
    using mmu_map_page_spec [OF assms] by blast
  moreover have "card S \<le> 1" using c by (simp split: if_splits)
  ultimately show ?thesis by blast
qed

theorem mmu_map_page_correct_witness:
  "\<exists>m'. mmu_map_page 0x5000 0xD0000000 True False boot_mm = Some m' \<and> translate m' 0xD0000ABC = Some 5"
proof -
  have "free_pages (phys boot_mm) \<noteq> {}" using boot_mm_facts(2) by auto
  then have c: "entry_present (directory boot_mm ! pd_index 0xD0000000) \<or> free_pages (phys boot_mm) \<noteq> {}" by blast
  have "pd_index 0xD0000000 < 1023" "pd_index 0xD0000ABC < 1023" by (simp_all add: pd_index_div)
  with mmu_map_page_correct [OF boot_mm_facts(1) _ c, of "0x5000" True False] show ?thesis by fastforce
qed

text \<open>C14: with two free frames and page 0 not among the free ones, mmu_init followed by mmu_enable identity-maps the first 4 MB, maps nothing else below the page
  tables' window, and establishes the recursive mapping the later operations rely on.\<close>

theorem mmu_init_identity:
  assumes "pmm_ok (phys m)" "\<forall>f. length (frames m f) = 1024"
    and "2 \<le> card (free_pages (phys m))" "0 \<notin> free_pages (phys m)"
  shows "\<exists>m'. mmu_init m = Some m' \<and> mm_ok (mmu_enable m') \<and> mmu_is_paging_enabled (mmu_enable m') = 1 \<and>
     (\<forall>v. pd_index v < 1023 \<longrightarrow> translate (mmu_enable m') v =
        (if unat v < 4194304 then Some (unat v div 4096) else None))"
  using mmu_init_spec [OF assms] by (auto simp: mmu_is_paging_enabled_def)

theorem mmu_init_identity_witness:
  "\<exists>m'. mmu_init example_mm = Some m' \<and> translate (mmu_enable m') 0xB8000 = Some 0xB8 \<and>
     translate (mmu_enable m') 0x00A00000 = None"
proof -
  have "pd_index 0xB8000 < 1023" "pd_index 0x00A00000 < 1023" by (simp_all add: pd_index_div)
  with mmu_init_identity [OF example_mm_facts] show ?thesis by fastforce
qed

text \<open>C11: a not-present fault at an address from 0xD0000000 up to, but not including, the page tables' own window at
  0xFFC00000 is resolved, provided that two frames are free (one may be needed for a page table) and page 0 is not among the free ones: the
  page gets a frame that was free, is no longer free and is no page table; no other page's translation and no contents
  of a data frame in use change.\<close>

theorem page_fault_resolved:
  assumes "mm_ok m" "pd_index va < 1023" "0xD0000000 \<le> va" "e AND 1 = 0"
    and "2 \<le> card (free_pages (phys m))" "0 \<notin> free_pages (phys m)"
  shows "\<exists>m' q. mmu_handle_page_fault e va m = Some m' \<and> mm_ok m' \<and> q \<in> free_pages (phys m) \<and>
     free_pages (phys m') \<subseteq> free_pages (phys m) - {q} \<and> data_kept m m' \<and> data_frame m' q \<and> translate m' va = Some q \<and>
     (\<forall>v. pd_index v < 1023 \<longrightarrow> unat v div 4096 \<noteq> unat va div 4096 \<longrightarrow> translate m' v = translate m v)"
  using assms by (rule mmu_handle_page_fault_spec)

theorem page_fault_resolved_witness:
  "\<exists>m' q. mmu_handle_page_fault 2 0xD1234567 boot_mm = Some m' \<and> translate m' 0xD1234567 = Some q"
proof -
  have "pd_index 0xD1234567 < 1023" by (simp add: pd_index_div)
  moreover have "(0xD0000000 :: u32) \<le> 0xD1234567" "(2 :: u32) AND 1 = 0" "2 \<le> card (free_pages (phys boot_mm))"
    by (simp_all add: boot_mm_facts)
  ultimately show ?thesis using page_fault_resolved [OF boot_mm_facts(1) _ _ _ _ boot_mm_facts(3)] by blast
qed

end
