(* ===== verification/Heap.thy ===== *)
theory Heap
  imports Mmu "HOL-Library.Monad_Syntax"
begin

text \<open>
  src/lib/memory.c: the kernel heap, a doubly linked list of blocks in address order, each a 16-byte
  header followed by its payload. Headers live in a store of their own, a partial map from addresses
  to headers (a read where none was written is \<open>None\<close>); pointers and sizes are 32-bit words and 0 is
  NULL. The pages behind the heap are mapped through the frame allocator and the page tables, so the
  heap's state holds theirs. The invariant describes the list by the block list it represents, and
  the client's view is the map of live regions.
\<close>

section \<open>Headers and state\<close>

record block_header =
  bh_size :: u32
  bh_free :: bool
  bh_next :: u32
  bh_prev :: u32

record heap =
  hmm :: mm
  heap_end :: u32
  head :: u32
  headers :: "u32 \<rightharpoonup> block_header"

definition HEADER_SIZE :: u32 where "HEADER_SIZE = 16"
definition HEAP_VIRT_START :: u32 where "HEAP_VIRT_START = 0xD0000000"
definition HEAP_INITIAL_PAGES :: u32 where "HEAP_INITIAL_PAGES = 16"

definition ALIGN_UP :: "u32 \<Rightarrow> u32 \<Rightarrow> u32" where
  "ALIGN_UP x a = (x + (a - 1)) AND NOT (a - 1)"

text \<open>An update of the header at an address, and of the header a pointer leads to unless it is NULL.\<close>

definition upd_header :: "u32 \<Rightarrow> (block_header \<Rightarrow> block_header) \<Rightarrow> heap \<Rightarrow> heap option" where
  "upd_header p f h = do { b \<leftarrow> headers h p; Some (h\<lparr>headers := (headers h)(p \<mapsto> f b)\<rparr>) }"

definition upd_prev_of :: "u32 \<Rightarrow> u32 \<Rightarrow> heap \<Rightarrow> heap option" where
  "upd_prev_of p q h = (if p \<noteq> 0 then upd_header p (\<lambda>b. b\<lparr>bh_prev := q\<rparr>) h else Some h)"

section \<open>Growing the heap\<close>

primrec heap_map_loop :: "nat \<Rightarrow> heap \<Rightarrow> (heap \<times> bool) option" where
  "heap_map_loop 0 h = Some (h, True)" |
  "heap_map_loop (Suc n) h = do {
     (p, frame) \<leftarrow> pmm_alloc_frame (phys (hmm h));
     if frame = 0 then Some (h\<lparr>hmm := (hmm h)\<lparr>phys := p\<rparr>\<rparr>, False)
     else do {
       m \<leftarrow> mmu_map_page frame (heap_end h) True False ((hmm h)\<lparr>phys := p\<rparr>);
       heap_map_loop n (h\<lparr>hmm := m, heap_end := heap_end h + of_nat PAGE_SIZE\<rparr>) } }"

definition heap_map_pages :: "u32 \<Rightarrow> heap \<Rightarrow> (heap \<times> bool) option" where
  "heap_map_pages pages h = heap_map_loop (unat pages) h"

definition memory_init :: "heap \<Rightarrow> heap option" where
  "memory_init h = do {
     (h1, ok) \<leftarrow> heap_map_pages HEAP_INITIAL_PAGES (h\<lparr>heap_end := HEAP_VIRT_START\<rparr>);
     if \<not> ok then Some h1
     else Some (h1\<lparr>head := HEAP_VIRT_START,
       headers := (headers h1)(HEAP_VIRT_START \<mapsto>
         \<lparr>bh_size = (heap_end h1 - HEAP_VIRT_START) - HEADER_SIZE, bh_free = True, bh_next = 0, bh_prev = 0\<rparr>)\<rparr>) }"

text \<open>\<open>while (tail->next) tail = tail->next\<close>; a cyclic list would not return, the value \<open>None\<close>.\<close>

partial_function (option) find_tail :: "(u32 \<rightharpoonup> block_header) \<Rightarrow> u32 \<Rightarrow> u32 option" where
  "find_tail B t = do { b \<leftarrow> B t; if bh_next b = 0 then Some t else find_tail B (bh_next b) }"

definition heap_grow :: "u32 \<Rightarrow> heap \<Rightarrow> (heap \<times> u32) option" where
  "heap_grow needed h = do {
     let bytes = ALIGN_UP needed (of_nat PAGE_SIZE);
     let pages = bytes div of_nat PAGE_SIZE;
     let old_end = heap_end h;
     (h1, ok) \<leftarrow> heap_map_pages pages h;
     if \<not> ok then Some (h1, 0)
     else do {
       let h2 = h1\<lparr>headers := (headers h1)(old_end \<mapsto>
         \<lparr>bh_size = (heap_end h1 - old_end) - HEADER_SIZE, bh_free = True, bh_next = 0, bh_prev = 0\<rparr>)\<rparr>;
       tail \<leftarrow> find_tail (headers h2) (head h2);
       h3 \<leftarrow> upd_header tail (\<lambda>b. b\<lparr>bh_next := old_end\<rparr>) h2;
       h4 \<leftarrow> upd_header old_end (\<lambda>b. b\<lparr>bh_prev := tail\<rparr>) h3;
       Some (h4, old_end) } }"

section \<open>Allocation\<close>

definition split_block :: "u32 \<Rightarrow> u32 \<Rightarrow> heap \<Rightarrow> heap option" where
  "split_block p sz h = do {
     b \<leftarrow> headers h p;
     let remaining = bh_size b - sz;
     if remaining < HEADER_SIZE + 16 then Some h
     else do {
       let new_block = p + HEADER_SIZE + sz;
       h1 \<leftarrow> Some (h\<lparr>headers := (headers h)(new_block \<mapsto>
         \<lparr>bh_size = remaining - HEADER_SIZE, bh_free = True, bh_next = bh_next b, bh_prev = p\<rparr>)\<rparr>);
       h2 \<leftarrow> upd_prev_of (bh_next b) new_block h1;
       upd_header p (\<lambda>b. b\<lparr>bh_next := new_block, bh_size := sz\<rparr>) h2 } }"

partial_function (option) find_block :: "(u32 \<rightharpoonup> block_header) \<Rightarrow> u32 \<Rightarrow> u32 \<Rightarrow> u32 option" where
  "find_block B sz p = (if p = 0 then Some 0 else do {
     b \<leftarrow> B p;
     if bh_free b \<and> sz \<le> bh_size b then Some p else find_block B sz (bh_next b) })"

definition take_block :: "u32 \<Rightarrow> u32 \<Rightarrow> heap \<Rightarrow> (heap \<times> u32) option" where
  "take_block p sz h = do {
     h1 \<leftarrow> split_block p sz h;
     h2 \<leftarrow> upd_header p (\<lambda>b. b\<lparr>bh_free := False\<rparr>) h1;
     Some (h2, p + HEADER_SIZE) }"

definition malloc :: "u32 \<Rightarrow> heap \<Rightarrow> (heap \<times> u32) option" where
  "malloc n h = (if n = 0 then Some (h, 0) else do {
     let sz = ALIGN_UP n 8;
     p \<leftarrow> find_block (headers h) sz (head h);
     if p \<noteq> 0 then take_block p sz h
     else do {
       (h1, q) \<leftarrow> heap_grow (sz + HEADER_SIZE) h;
       if q = 0 then Some (h1, 0) else take_block q sz h1 } })"

section \<open>Release\<close>

definition merge_next :: "u32 \<Rightarrow> heap \<Rightarrow> heap option" where
  "merge_next p h = do {
     b \<leftarrow> headers h p;
     if bh_next b = 0 then Some h else do {
     n \<leftarrow> headers h (bh_next b);
     if bh_free n \<and> p + HEADER_SIZE + bh_size b = bh_next b
     then do {
       h1 \<leftarrow> upd_header p (\<lambda>b. b\<lparr>bh_size := bh_size b + (HEADER_SIZE + bh_size n), bh_next := bh_next n\<rparr>) h;
       upd_prev_of (bh_next n) p h1 }
     else Some h } }"

definition merge_prev :: "u32 \<Rightarrow> heap \<Rightarrow> heap option" where
  "merge_prev p h = do {
     b \<leftarrow> headers h p;
     if bh_prev b = 0 then Some h else do {
     q \<leftarrow> headers h (bh_prev b);
     if bh_free q \<and> bh_prev b + HEADER_SIZE + bh_size q = p
     then do {
       h1 \<leftarrow> upd_header (bh_prev b) (\<lambda>q. q\<lparr>bh_size := bh_size q + (HEADER_SIZE + bh_size b), bh_next := bh_next b\<rparr>) h;
       upd_prev_of (bh_next b) (bh_prev b) h1 }
     else Some h } }"

definition free :: "u32 \<Rightarrow> heap \<Rightarrow> heap option" where
  "free ptr h = (if ptr = 0 then Some h else do {
     let p = ptr - HEADER_SIZE;
     h1 \<leftarrow> upd_header p (\<lambda>b. b\<lparr>bh_free := True\<rparr>) h;
     h2 \<leftarrow> merge_next p h1;
     merge_prev p h2 })"

section \<open>Block lists\<close>

text \<open>A block: the address of its header, the size of its payload and whether it is free.\<close>

type_synonym block = "u32 \<times> u32 \<times> bool"

text \<open>
  \<open>dseg B pr p bs l n\<close>: from pointer \<open>p\<close> with back link \<open>pr\<close> the store holds the blocks \<open>bs\<close>, the last of
  which has address \<open>l\<close> and next pointer \<open>n\<close>.
\<close>

primrec dseg :: "(u32 \<rightharpoonup> block_header) \<Rightarrow> u32 \<Rightarrow> u32 \<Rightarrow> block list \<Rightarrow> u32 \<Rightarrow> u32 \<Rightarrow> bool" where
  "dseg B pr p [] l n \<longleftrightarrow> p = n \<and> pr = l" |
  "dseg B pr p (x # bs) l n \<longleftrightarrow> p = fst x \<and> (\<exists>m. B p = Some \<lparr>bh_size = fst (snd x), bh_free = snd (snd x),
     bh_next = m, bh_prev = pr\<rparr> \<and> dseg B p m bs l n)"

primrec layout :: "nat \<Rightarrow> block list \<Rightarrow> nat \<Rightarrow> bool" where
  "layout lo [] hi \<longleftrightarrow> lo \<le> hi" |
  "layout lo (x # bs) hi \<longleftrightarrow> lo \<le> unat (fst x) \<and> 8 dvd unat (fst x) \<and> 8 dvd unat (fst (snd x)) \<and>
     layout (unat (fst x) + 16 + unat (fst (snd x))) bs hi"

abbreviation addrs :: "block list \<Rightarrow> u32 set" where "addrs bs \<equiv> fst ` set bs"

definition first_addr :: "block list \<Rightarrow> u32" where
  "first_addr bs = (case bs of [] \<Rightarrow> 0 | x # _ \<Rightarrow> fst x)"

lemma dseg_append:
  "dseg B pr p (xs @ ys) l n \<longleftrightarrow> (\<exists>q m. dseg B pr p xs q m \<and> dseg B q m ys l n)"
  by (induction xs arbitrary: pr p) auto

lemma dseg_frame:
  "(\<And>a. a \<in> addrs bs \<Longrightarrow> B' a = B a) \<Longrightarrow> dseg B' pr p bs l n = dseg B pr p bs l n"
  by (induction bs arbitrary: pr p) auto

lemma dseg_upd [simp]:
  "a \<notin> addrs bs \<Longrightarrow> dseg (B(a := v)) pr p bs l n = dseg B pr p bs l n"
  by (rule dseg_frame) auto

lemma dseg_first: "dseg B pr p bs l 0 \<Longrightarrow> p = first_addr bs"
  by (cases bs) (auto simp: first_addr_def)

lemma dseg_last: "dseg B pr p bs l n \<Longrightarrow> l = (if bs = [] then pr else fst (last bs))"
  by (induction bs arbitrary: pr p) auto

lemma layout_append:
  "layout lo (xs @ ys) hi \<longleftrightarrow> (\<exists>mid. layout lo xs mid \<and> layout mid ys hi)"
proof (induction xs arbitrary: lo)
  case Nil
  have "layout mid ys hi \<Longrightarrow> lo \<le> mid \<Longrightarrow> layout lo ys hi" for mid by (cases ys) auto
  then show ?case by auto
qed auto

lemma layout_weaken: "layout lo bs hi \<Longrightarrow> lo' \<le> lo \<Longrightarrow> hi \<le> hi' \<Longrightarrow> layout lo' bs hi'"
  by (induction bs arbitrary: lo lo') auto

lemma layout_le: "layout lo bs hi \<Longrightarrow> lo \<le> hi"
proof (induction bs arbitrary: lo)
  case (Cons x bs)
  then show ?case by (fastforce dest: Cons.IH)
qed simp

lemma layout_bounds:
  "layout lo bs hi \<Longrightarrow> (a, s, f) \<in> set bs \<Longrightarrow>
   lo \<le> unat a \<and> unat a + 16 + unat s \<le> hi \<and> 8 dvd unat a \<and> 8 dvd unat s"
proof (induction bs arbitrary: lo)
  case (Cons x bs)
  have "layout (unat (fst x) + 16 + unat (fst (snd x))) bs hi" using Cons.prems by simp
  from layout_le [OF this] Cons.IH [OF this] Cons.prems show ?case by auto
qed simp

lemma layout_addr: "layout lo bs hi \<Longrightarrow> a \<in> addrs bs \<Longrightarrow> lo \<le> unat a \<and> unat a + 16 \<le> hi"
  using layout_bounds by fastforce

lemma layout_distinct: "layout lo bs hi \<Longrightarrow> distinct (map fst bs)"
proof (induction bs arbitrary: lo)
  case (Cons x bs)
  have l: "layout (unat (fst x) + 16 + unat (fst (snd x))) bs hi" using Cons.prems by simp
  have "fst x \<notin> addrs bs" using layout_addr [OF l] by fastforce
  then show ?case using Cons.IH [OF l] by simp
qed simp

text \<open>Any two blocks, headers and payloads, do not overlap.\<close>

lemma layout_disjoint:
  assumes "layout lo bs hi" "(a, s, f) \<in> set bs" "(b, t, g) \<in> set bs" "a \<noteq> b"
  shows "unat a + 16 + unat s \<le> unat b \<or> unat b + 16 + unat t \<le> unat a"
  using assms
proof (induction bs arbitrary: lo)
  case (Cons x bs)
  have l: "layout (unat (fst x) + 16 + unat (fst (snd x))) bs hi" using Cons.prems by simp
  from Cons.prems(2-4) consider "x = (a, s, f)" "(b, t, g) \<in> set bs" | "(a, s, f) \<in> set bs" "x = (b, t, g)"
    | "(a, s, f) \<in> set bs" "(b, t, g) \<in> set bs" by auto
  then show ?case
  proof cases
    case 1 then show ?thesis using layout_bounds [OF l] by fastforce
  next
    case 2 then show ?thesis using layout_bounds [OF l] by fastforce
  next
    case 3 then show ?thesis using Cons.IH [OF l] Cons.prems(4) by blast
  qed
qed simp

definition live :: "block list \<Rightarrow> u32 \<rightharpoonup> nat" where
  "live bs = map_of (map (\<lambda>(a, s, f). (a + HEADER_SIZE, unat s)) (filter (\<lambda>(a, s, f). \<not> f) bs))"

lemma live_simps:
  "live [] = Map.empty"
  "live ((a, s, True) # bs) = live bs"
  "live ((a, s, False) # bs) = (live bs)(a + HEADER_SIZE \<mapsto> unat s)"
  by (simp_all add: live_def)

lemma live_append: "live (xs @ ys) = live ys ++ live xs"
  by (simp add: live_def)

lemma live_dom: "live bs r = Some n \<Longrightarrow> \<exists>s. (r - HEADER_SIZE, s, False) \<in> set bs \<and> n = unat s"
  unfolding live_def by (drule map_of_SomeD) (auto simp: HEADER_SIZE_def)

lemma live_none: "a \<notin> addrs bs \<Longrightarrow> live bs (a + HEADER_SIZE) = None"
proof (rule ccontr)
  assume "a \<notin> addrs bs" "live bs (a + HEADER_SIZE) \<noteq> None"
  then show False using live_dom [of bs "a + HEADER_SIZE"] by force
qed

section \<open>Operations on the represented list\<close>

definition list_rep :: "(u32 \<rightharpoonup> block_header) \<Rightarrow> u32 \<Rightarrow> block list \<Rightarrow> bool" where
  "list_rep B p bs \<longleftrightarrow> (\<exists>l. dseg B 0 p bs l 0) \<and> distinct (map fst bs) \<and> 0 \<notin> addrs bs"

lemma list_rep_focus:
  assumes "list_rep B p (xs @ (a, s, f) # ys)"
  obtains q l where "dseg B 0 p xs q a" "dseg B a (first_addr ys) ys l 0"
    "B a = Some \<lparr>bh_size = s, bh_free = f, bh_next = first_addr ys, bh_prev = q\<rparr>"
    "q = (if xs = [] then 0 else fst (last xs))" "a \<notin> addrs xs" "a \<notin> addrs ys" "a \<noteq> 0"
proof -
  from assms obtain l q m where
    "dseg B 0 p xs q a" "dseg B a m ys l 0" "B a = Some \<lparr>bh_size = s, bh_free = f, bh_next = m, bh_prev = q\<rparr>"
    unfolding list_rep_def by (auto simp: dseg_append)
  moreover have "a \<notin> addrs xs" "a \<notin> addrs ys" "a \<noteq> 0" using assms by (auto simp: list_rep_def)
  ultimately show ?thesis using that dseg_first dseg_last by metis
qed

lemma list_repI:
  assumes "dseg B 0 p xs q a" "B a = Some \<lparr>bh_size = s, bh_free = f, bh_next = m, bh_prev = q\<rparr>"
    "dseg B a m ys l 0" "distinct (map fst (xs @ (a, s, f) # ys))" "0 \<notin> addrs (xs @ (a, s, f) # ys)"
  shows "list_rep B p (xs @ (a, s, f) # ys)"
  using assms unfolding list_rep_def dseg_append by fastforce

lemma upd_prev_of_dseg:
  assumes d: "dseg (headers h) pr (first_addr ys) ys l 0" and "distinct (map fst ys)" "0 \<notin> addrs ys"
  shows "\<exists>B l'. upd_prev_of (first_addr ys) q h = Some (h\<lparr>headers := B\<rparr>) \<and>
    dseg B q (first_addr ys) ys l' 0 \<and> (\<forall>a. a \<notin> addrs ys \<longrightarrow> B a = headers h a)"
proof (cases ys)
  case Nil
  then show ?thesis by (intro exI [of _ "headers h"]) (simp add: upd_prev_of_def first_addr_def)
next
  case (Cons x zs)
  with d obtain m where
    "headers h (fst x) = Some \<lparr>bh_size = fst (snd x), bh_free = snd (snd x), bh_next = m, bh_prev = pr\<rparr>"
    "dseg (headers h) (fst x) m zs l 0" by auto
  moreover have "fst x \<noteq> 0" "fst x \<notin> addrs zs" using assms Cons by auto
  ultimately show ?thesis
    unfolding upd_prev_of_def upd_header_def Cons
    by (intro exI [of _ "(headers h)(fst x \<mapsto> \<lparr>bh_size = fst (snd x), bh_free = snd (snd x), bh_next = m, bh_prev = q\<rparr>)"]
        exI [of _ l]) (simp add: first_addr_def)
qed

lemma set_free_rep:
  assumes "list_rep (headers h) p (xs @ (a, s, f) # ys)"
  shows "\<exists>B. upd_header a (\<lambda>b. b\<lparr>bh_free := g\<rparr>) h = Some (h\<lparr>headers := B\<rparr>) \<and> list_rep B p (xs @ (a, s, g) # ys)"
proof -
  obtain q l where f: "dseg (headers h) 0 p xs q a" "dseg (headers h) a (first_addr ys) ys l 0"
    "headers h a = Some \<lparr>bh_size = s, bh_free = f, bh_next = first_addr ys, bh_prev = q\<rparr>"
    "q = (if xs = [] then 0 else fst (last xs))" "a \<notin> addrs xs" "a \<notin> addrs ys" "a \<noteq> 0"
    using assms by (rule list_rep_focus)
  let ?B = "(headers h)(a \<mapsto> \<lparr>bh_size = s, bh_free = g, bh_next = first_addr ys, bh_prev = q\<rparr>)"
  have "list_rep ?B p (xs @ (a, s, g) # ys)"
    using f assms by (intro list_repI) (auto simp: list_rep_def)
  then show ?thesis using f(3) by (auto simp: upd_header_def)
qed

definition taken :: "u32 \<Rightarrow> u32 \<Rightarrow> u32 \<Rightarrow> bool \<Rightarrow> block list" where
  "taken a s sz f = (if s - sz < 32 then [(a, s, f)]
     else [(a, sz, f), (a + HEADER_SIZE + sz, s - sz - HEADER_SIZE, True)])"

lemma split_block_rep:
  assumes r: "list_rep (headers h) p (xs @ (a, s, f) # ys)"
    and n: "\<not> s - sz < 32 \<Longrightarrow> a + HEADER_SIZE + sz \<notin> addrs (xs @ (a, s, f) # ys) \<and> a + HEADER_SIZE + sz \<noteq> 0"
  shows "\<exists>B. split_block a sz h = Some (h\<lparr>headers := B\<rparr>) \<and> list_rep B p (xs @ taken a s sz f @ ys)"
proof -
  obtain q l where fo: "dseg (headers h) 0 p xs q a" "dseg (headers h) a (first_addr ys) ys l 0"
    "headers h a = Some \<lparr>bh_size = s, bh_free = f, bh_next = first_addr ys, bh_prev = q\<rparr>"
    "q = (if xs = [] then 0 else fst (last xs))" "a \<notin> addrs xs" "a \<notin> addrs ys" "a \<noteq> 0"
    using r by (rule list_rep_focus)
  show ?thesis
  proof (cases "s - sz < 32")
    case True
    have "h\<lparr>headers := headers h\<rparr> = h" by simp
    with True fo(3) r show ?thesis
      by (intro exI [of _ "headers h"]) (simp add: split_block_def taken_def HEADER_SIZE_def)
  next
    case False
    let ?n = "a + HEADER_SIZE + sz"
    have nn: "?n \<noteq> a" "?n \<notin> addrs xs" "?n \<notin> addrs ys" "?n \<noteq> 0" using n [OF False] by auto
    let ?new = "\<lparr>bh_size = s - sz - HEADER_SIZE, bh_free = True, bh_next = first_addr ys, bh_prev = a\<rparr>"
    let ?h1 = "h\<lparr>headers := (headers h)(?n \<mapsto> ?new)\<rparr>"
    have "dseg (headers ?h1) a (first_addr ys) ys l 0" using fo(2) nn by simp
    moreover have "distinct (map fst ys)" "0 \<notin> addrs ys" using r by (auto simp: list_rep_def)
    ultimately obtain B l' where B: "upd_prev_of (first_addr ys) ?n ?h1 = Some (?h1\<lparr>headers := B\<rparr>)"
      "dseg B ?n (first_addr ys) ys l' 0" "\<forall>a. a \<notin> addrs ys \<longrightarrow> B a = headers ?h1 a"
      using upd_prev_of_dseg [of ?h1 a ys l ?n] by force
    have ys_off: "b \<notin> addrs ys" if "b \<in> addrs xs" for b using r that by (auto simp: list_rep_def)
    have Ba: "B a = headers h a" "B ?n = Some ?new" using B(3) fo nn by auto
    let ?B = "B(a \<mapsto> \<lparr>bh_size = sz, bh_free = f, bh_next = ?n, bh_prev = q\<rparr>)"
    have run: "split_block a sz h = Some (h\<lparr>headers := ?B\<rparr>)"
      using False fo(3) B(1) Ba by (simp add: split_block_def HEADER_SIZE_def Let_def upd_header_def)
    have "dseg ?B 0 p xs q a"
    proof -
      have "dseg B 0 p xs q a = dseg (headers h) 0 p xs q a"
      proof (rule dseg_frame)
        fix b assume "b \<in> addrs xs"
        then have "b \<noteq> ?n" "b \<notin> addrs ys" using nn(2) ys_off by metis+
        then show "B b = headers h b" using B(3) by simp
      qed
      then show ?thesis using fo by simp
    qed
    moreover have "dseg ?B a ?n ((?n, s - sz - HEADER_SIZE, True) # ys) l' 0"
      using Ba B(2) nn fo by simp
    ultimately have "list_rep ?B p (xs @ (a, sz, f) # (?n, s - sz - HEADER_SIZE, True) # ys)"
      using r nn by (intro list_repI) (auto simp: list_rep_def)
    then show ?thesis using run False by (auto simp: taken_def)
  qed
qed

lemma find_block_0: "find_block B sz 0 = Some 0"
  by (subst find_block.simps) simp

lemma find_block_step:
  "p \<noteq> 0 \<Longrightarrow> B p = Some b \<Longrightarrow>
   find_block B sz p = (if bh_free b \<and> sz \<le> bh_size b then Some p else find_block B sz (bh_next b))"
  by (subst find_block.simps) simp

lemma find_tail_step:
  "B t = Some b \<Longrightarrow> find_tail B t = (if bh_next b = 0 then Some t else find_tail B (bh_next b))"
  by (subst find_tail.simps) simp

lemma find_block_first:
  assumes "dseg B pr p (xs @ (a, s, True) # ys) l 0" "0 \<notin> addrs (xs @ (a, s, True) # ys)"
    "\<forall>(b, t, g) \<in> set xs. \<not> (g \<and> sz \<le> t)" "sz \<le> s"
  shows "find_block B sz p = Some a"
  using assms
proof (induction xs arbitrary: pr p)
  case Nil
  then have "p = a" "a \<noteq> 0" "\<exists>m. B a = Some \<lparr>bh_size = s, bh_free = True, bh_next = m, bh_prev = pr\<rparr>" by auto
  with Nil.prems(4) show ?case by (auto simp: find_block_step)
next
  case (Cons x xs)
  from Cons.prems obtain m where
    x: "p = fst x" "p \<noteq> 0" "B p = Some \<lparr>bh_size = fst (snd x), bh_free = snd (snd x), bh_next = m, bh_prev = pr\<rparr>"
      "dseg B p m (xs @ (a, s, True) # ys) l 0" by (cases x) auto
  have "find_block B sz m = Some a" using Cons.IH [OF x(4)] Cons.prems by simp
  then show ?case using x Cons.prems(3) by (auto simp: find_block_step split: prod.splits)
qed

lemma find_block_none:
  assumes "dseg B pr p bs l 0" "0 \<notin> addrs bs" "\<forall>(b, t, g) \<in> set bs. \<not> (g \<and> sz \<le> t)"
  shows "find_block B sz p = Some 0"
  using assms
proof (induction bs arbitrary: pr p)
  case Nil
  then show ?case by (simp add: find_block_0)
next
  case (Cons x bs)
  from Cons.prems obtain m where
    x: "p = fst x" "p \<noteq> 0" "B p = Some \<lparr>bh_size = fst (snd x), bh_free = snd (snd x), bh_next = m, bh_prev = pr\<rparr>"
      "dseg B p m bs l 0" by (cases x) auto
  have "find_block B sz m = Some 0" using Cons.IH [OF x(4)] Cons.prems by simp
  then show ?case using x Cons.prems(3) by (auto simp: find_block_step split: prod.splits)
qed

lemma find_tail_last:
  assumes "dseg B pr p bs l 0" "0 \<notin> addrs bs" "bs \<noteq> []"
  shows "find_tail B p = Some (fst (last bs))"
  using assms
proof (induction bs arbitrary: pr p)
  case (Cons x bs)
  from Cons.prems(1) obtain m where
    x: "p = fst x" "B p = Some \<lparr>bh_size = fst (snd x), bh_free = snd (snd x), bh_next = m, bh_prev = pr\<rparr>"
      "dseg B p m bs l 0" by auto
  show ?case
  proof (cases bs)
    case Nil
    then show ?thesis using x by (simp add: find_tail_step)
  next
    case (Cons y zs)
    then have "m \<noteq> 0" using x(3) Cons.prems(2) by auto
    then show ?thesis using x Cons.IH [OF x(3)] Cons Cons.prems(2) by (simp add: find_tail_step)
  qed
qed simp

text \<open>Coalescing a free block with a free neighbour that touches it.\<close>

definition join_next :: "u32 \<Rightarrow> u32 \<Rightarrow> block list \<Rightarrow> u32 \<times> block list" where
  "join_next a s ys = (case ys of (n, t, True) # zs \<Rightarrow>
     if a + HEADER_SIZE + s = n then (s + (HEADER_SIZE + t), zs) else (s, ys) | _ \<Rightarrow> (s, ys))"

definition join_prev :: "block list \<Rightarrow> u32 \<Rightarrow> u32 \<Rightarrow> block list" where
  "join_prev xs a s = (if xs \<noteq> [] \<and> snd (snd (last xs)) \<and> fst (last xs) + HEADER_SIZE + fst (snd (last xs)) = a
     then butlast xs @ [(fst (last xs), fst (snd (last xs)) + (HEADER_SIZE + s), True)]
     else xs @ [(a, s, True)])"

definition released :: "block list \<Rightarrow> u32 \<Rightarrow> u32 \<Rightarrow> block list \<Rightarrow> block list" where
  "released xs a s ys = (let (s', ys') = join_next a s ys in join_prev xs a s' @ ys')"

lemma join_blocks_rep:
  assumes r: "list_rep (headers h) p (xs @ (a, s, f) # (n, t, g) # ys)"
  shows "\<exists>B. (do { h1 \<leftarrow> upd_header a (\<lambda>b. b\<lparr>bh_size := bh_size b + (HEADER_SIZE + t), bh_next := first_addr ys\<rparr>) h;
      upd_prev_of (first_addr ys) a h1 }) = Some (h\<lparr>headers := B\<rparr>) \<and>
    list_rep B p (xs @ (a, s + (HEADER_SIZE + t), f) # ys)"
proof -
  obtain q l where fo: "dseg (headers h) 0 p xs q a" "dseg (headers h) a (first_addr ((n, t, g) # ys)) ((n, t, g) # ys) l 0"
    "headers h a = Some \<lparr>bh_size = s, bh_free = f, bh_next = first_addr ((n, t, g) # ys), bh_prev = q\<rparr>"
    "q = (if xs = [] then 0 else fst (last xs))" "a \<notin> addrs xs" "a \<notin> addrs ((n, t, g) # ys)" "a \<noteq> 0"
    using r by (rule list_rep_focus)
  let ?b = "\<lparr>bh_size = s + (HEADER_SIZE + t), bh_free = f, bh_next = first_addr ys, bh_prev = q\<rparr>"
  let ?h1 = "h\<lparr>headers := (headers h)(a \<mapsto> ?b)\<rparr>"
  have ny: "n \<notin> addrs ys" "distinct (map fst ys)" "0 \<notin> addrs ys" "a \<notin> addrs ys" "addrs xs \<inter> addrs ys = {}"
    using r by (auto simp: list_rep_def)
  from fo(2) have "dseg (headers h) n (first_addr ys) ys l 0" using dseg_first by fastforce
  then have "dseg (headers ?h1) n (first_addr ys) ys l 0" using ny by simp
  then obtain B l' where B: "upd_prev_of (first_addr ys) a ?h1 = Some (?h1\<lparr>headers := B\<rparr>)"
    "dseg B a (first_addr ys) ys l' 0" "\<forall>a. a \<notin> addrs ys \<longrightarrow> B a = headers ?h1 a"
    using upd_prev_of_dseg [of ?h1 n ys l a] ny by auto
  have "dseg B 0 p xs q a = dseg (headers h) 0 p xs q a"
    using B(3) ny(5) fo(5) by (intro dseg_frame) (auto simp: disjoint_iff)
  then have "list_rep B p (xs @ (a, s + (HEADER_SIZE + t), f) # ys)"
    using fo B ny r by (intro list_repI) (auto simp: list_rep_def)
  then show ?thesis using fo(3) B(1) by (auto simp: upd_header_def)
qed

lemma merge_next_rep:
  assumes r: "list_rep (headers h) p (xs @ (a, s, f) # ys)"
  shows "\<exists>B. merge_next a h = Some (h\<lparr>headers := B\<rparr>) \<and>
    list_rep B p (xs @ (a, fst (join_next a s ys), f) # snd (join_next a s ys))"
proof -
  obtain q l where fo: "dseg (headers h) a (first_addr ys) ys l 0"
    "headers h a = Some \<lparr>bh_size = s, bh_free = f, bh_next = first_addr ys, bh_prev = q\<rparr>"
    using r by (rule list_rep_focus)
  have same: "h\<lparr>headers := headers h\<rparr> = h" by simp
  show ?thesis
  proof (cases "\<exists>n t zs. ys = (n, t, True) # zs \<and> a + HEADER_SIZE + s = n")
    case True
    then obtain n t zs where y: "ys = (n, t, True) # zs" "a + HEADER_SIZE + s = n" by auto
    from fo(1) y(1) obtain m where
      m: "headers h n = Some \<lparr>bh_size = t, bh_free = True, bh_next = m, bh_prev = a\<rparr>"
        "dseg (headers h) n m zs l 0" by (auto simp: first_addr_def)
    have "n \<noteq> 0" using r y(1) by (simp add: list_rep_def)
    moreover have "headers h n = Some \<lparr>bh_size = t, bh_free = True, bh_next = first_addr zs, bh_prev = a\<rparr>"
      using m dseg_first [OF m(2)] by simp
    ultimately have
      "merge_next a h = (do {
          h1 \<leftarrow> upd_header a (\<lambda>b. b\<lparr>bh_size := bh_size b + (HEADER_SIZE + t), bh_next := first_addr zs\<rparr>) h;
          upd_prev_of (first_addr zs) a h1 })"
      using fo(2) y by (simp add: merge_next_def first_addr_def)
    moreover have "join_next a s ys = (s + (HEADER_SIZE + t), zs)" using y by (simp add: join_next_def)
    ultimately show ?thesis using join_blocks_rep [of h p xs a s f n t True zs] r y(1) by simp
  next
    case False
    then have j: "join_next a s ys = (s, ys)"
      by (auto simp: join_next_def split: list.splits prod.splits bool.splits)
    have "merge_next a h = Some h"
    proof (cases ys)
      case Nil
      then show ?thesis using fo(2) by (simp add: merge_next_def first_addr_def)
    next
      case (Cons y zs)
      with fo(1) False fo(2) show ?thesis
        by (cases y) (auto simp: merge_next_def first_addr_def)
    qed
    then show ?thesis using j r same by (intro exI [of _ "headers h"]) simp
  qed
qed

lemma merge_prev_rep:
  assumes r: "list_rep (headers h) p (xs @ (a, s, True) # ys)"
  shows "\<exists>B. merge_prev a h = Some (h\<lparr>headers := B\<rparr>) \<and> list_rep B p (join_prev xs a s @ ys)"
proof -
  obtain q l where fo: "dseg (headers h) 0 p xs q a"
    "headers h a = Some \<lparr>bh_size = s, bh_free = True, bh_next = first_addr ys, bh_prev = q\<rparr>"
    "q = (if xs = [] then 0 else fst (last xs))"
    using r by (rule list_rep_focus)
  have same: "h\<lparr>headers := headers h\<rparr> = h" by simp
  show ?thesis
  proof (cases xs rule: rev_cases)
    case Nil
    then show ?thesis using fo r same
      by (intro exI [of _ "headers h"]) (simp add: merge_prev_def join_prev_def)
  next
    case (snoc zs x)
    obtain b t g where x: "x = (b, t, g)" by (cases x)
    have qb: "q = b" "b \<noteq> 0" using fo(3) r snoc x by (auto simp: list_rep_def)
    obtain q' where hb: "headers h b = Some \<lparr>bh_size = t, bh_free = g, bh_next = a, bh_prev = q'\<rparr>"
      using fo(1) snoc x by (auto simp: dseg_append)
    have r': "list_rep (headers h) p (zs @ (b, t, g) # (a, s, True) # ys)" using r snoc x by simp
    show ?thesis
    proof (cases "g \<and> b + HEADER_SIZE + t = a")
      case True
      then show ?thesis using join_blocks_rep [OF r'] hb qb fo(2) snoc x
        by (auto simp: merge_prev_def join_prev_def)
    next
      case False
      then have "merge_prev a h = Some h" using hb qb fo(2) by (auto simp: merge_prev_def)
      then show ?thesis using False r same snoc x by (intro exI [of _ "headers h"]) (auto simp: join_prev_def)
    qed
  qed
qed

lemma free_rep:
  assumes r: "list_rep (headers h) p (xs @ (a, s, f) # ys)" and a: "a + HEADER_SIZE \<noteq> 0"
  shows "\<exists>B. free (a + HEADER_SIZE) h = Some (h\<lparr>headers := B\<rparr>) \<and> list_rep B p (released xs a s ys)"
proof -
  from set_free_rep [OF r, of True] obtain B1 where
    1: "upd_header a (\<lambda>b. b\<lparr>bh_free := True\<rparr>) h = Some (h\<lparr>headers := B1\<rparr>)" "list_rep B1 p (xs @ (a, s, True) # ys)" by blast
  from merge_next_rep [of "h\<lparr>headers := B1\<rparr>"] 1(2) obtain B2 where
    2: "merge_next a (h\<lparr>headers := B1\<rparr>) = Some (h\<lparr>headers := B2\<rparr>)"
      "list_rep B2 p (xs @ (a, fst (join_next a s ys), True) # snd (join_next a s ys))" by fastforce
  from merge_prev_rep [of "h\<lparr>headers := B2\<rparr>"] 2(2) obtain B3 where
    3: "merge_prev a (h\<lparr>headers := B2\<rparr>) = Some (h\<lparr>headers := B3\<rparr>)"
      "list_rep B3 p (join_prev xs a (fst (join_next a s ys)) @ snd (join_next a s ys))" by fastforce
  from 1(1) 2(1) 3(1) a have "free (a + HEADER_SIZE) h = Some (h\<lparr>headers := B3\<rparr>)" by (simp add: free_def)
  moreover from 3(2) have "list_rep B3 p (released xs a s ys)" by (simp add: released_def split_def Let_def)
  ultimately show ?thesis by blast
qed

section \<open>Arithmetic of sizes\<close>

lemma align_up:
  assumes "unat x + (2 ^ k - 1) < 2 ^ 32" "k < 32"
  shows "unat (ALIGN_UP x (2 ^ k)) = (unat x + (2 ^ k - 1)) div 2 ^ k * 2 ^ k"
proof -
  let ?y = "x + mask k"
  have m: "(2 ^ k - 1 :: u32) = mask k" by (simp add: mask_eq_exp_minus_1)
  have p: "(2 ^ k :: nat) < 2 ^ 32" using assms(2) by (intro power_strict_increasing) simp_all
  have w: "unat (of_nat n :: u32) = n" if "n < 2 ^ 32" for n
    using that by (simp only: unat_of_nat take_bit_eq_mod mod_less len_num0 len_num1 len_bit0 len_bit1) simp
  from p have "2 ^ k - 1 < (2 ^ 32 :: nat)" by linarith
  moreover have "(mask k :: u32) = of_nat (2 ^ k - 1)" by (simp add: mask_eq_exp_minus_1 of_nat_diff)
  ultimately have um: "unat (mask k :: u32) = 2 ^ k - 1"
    by (simp only: w)
  have uy: "unat ?y = unat x + (2 ^ k - 1)"
    using assms(1) um by (simp add: unat_word_ariths)
  have "?y AND NOT (mask k) = push_bit k (drop_bit k ?y)"
    by (rule bit_word_eqI) (auto simp: bit_simps)
  then have "ALIGN_UP x (2 ^ k) = drop_bit k ?y * 2 ^ k"
    by (simp add: ALIGN_UP_def m push_bit_eq_mult)
  moreover have "unat (2 ^ k :: u32) = 2 ^ k"
    using w [OF p] by simp
  moreover from this have "unat (drop_bit k ?y) = unat ?y div 2 ^ k"
    by (simp add: drop_bit_eq_div unat_div_distrib)
  moreover have "unat ?y div 2 ^ k * 2 ^ k < 2 ^ 32"
    using assms(1) uy by (metis div_times_less_eq_dividend order_le_less_trans)
  ultimately show ?thesis using uy by (simp add: unat_word_ariths)
qed

text \<open>The payload of a request of \<open>n\<close> bytes, and the bytes the heap grows by to serve it.\<close>

definition block_bytes :: "nat \<Rightarrow> nat" where "block_bytes n = (n + 7) div 8 * 8"
definition grow_bytes :: "nat \<Rightarrow> nat" where "grow_bytes n = (block_bytes n + 16 + 4095) div 4096 * 4096"

lemma round_up: "0 < d \<Longrightarrow> n \<le> (n + (d - 1)) div d * d \<and> (n + (d - 1)) div d * d < n + (d :: nat)"
  using div_mult_mod_eq [of "n + (d - 1)" d] mod_less_divisor [of d "n + (d - 1)"] by linarith

lemma block_bytes: "n \<le> block_bytes n" "block_bytes n < n + 8" "8 dvd block_bytes n"
  using round_up [of 8 n] by (simp_all add: block_bytes_def)

lemma grow_bytes: "block_bytes n + 16 \<le> grow_bytes n" "4096 dvd grow_bytes n"
  using round_up [of 4096 "block_bytes n + 16"] by (simp_all add: grow_bytes_def)

lemma align_8: "unat n \<le> 0xFFFFFFF8 \<Longrightarrow> unat (ALIGN_UP n 8) = block_bytes (unat n)"
  using align_up [of n 3] by (simp add: block_bytes_def)

lemma align_4096: "unat n \<le> 0xFFFFF000 \<Longrightarrow> unat (ALIGN_UP n 4096) = (unat n + 4095) div 4096 * 4096"
  using align_up [of n 12] by simp

lemma unat_add: "unat (x :: u32) + unat y < 4294967296 \<Longrightarrow> unat (x + y) = unat x + unat y"
  by (simp add: unat_word_ariths)

lemma unat_sub: "y \<le> x \<Longrightarrow> unat ((x :: u32) - y) = unat x - unat y"
  by (simp add: unat_sub_if_size word_le_nat_alt)

lemma header_addr: "unat a + 16 < 4294967296 \<Longrightarrow> unat (a + HEADER_SIZE) = unat a + 16"
  using unat_add [of a 16] by (simp add: HEADER_SIZE_def)

lemma taken_layout:
  assumes l: "layout lo (xs @ (a, s, f) # ys) hi" and hi: "hi < 4294967296" and sz: "sz \<le> s" "8 dvd unat sz"
  shows "layout lo (xs @ taken a s sz f @ ys) hi"
    and "\<not> s - sz < 32 \<Longrightarrow> a + HEADER_SIZE + sz \<notin> addrs (xs @ (a, s, f) # ys) \<and> 0 < unat (a + HEADER_SIZE + sz)"
proof -
  from l obtain mid where x: "layout lo xs mid" "mid \<le> unat a" "8 dvd unat a" "8 dvd unat s"
    "layout (unat a + 16 + unat s) ys hi" by (auto simp: layout_append)
  have b: "unat a + 16 + unat s \<le> hi" using layout_le [OF x(5)] .
  have szn: "unat sz \<le> unat s" using sz(1) by (simp add: word_le_nat_alt)
  have 1: "unat (a + HEADER_SIZE) = unat a + 16" using b hi by (intro header_addr) simp
  then have n: "unat (a + HEADER_SIZE + sz) = unat a + 16 + unat sz" using b hi szn by (subst unat_add) simp_all
  have ss: "unat (s - sz) = unat s - unat sz" using sz(1) by (rule unat_sub)
  have big: "\<not> s - sz < 32 \<longleftrightarrow> 32 \<le> unat s - unat sz" by (simp add: word_less_nat_alt ss not_less)
  have r: "unat (s - sz - HEADER_SIZE) = unat s - unat sz - 16" if "32 \<le> unat s - unat sz"
    using unat_sub [of 16 "s - sz"] that ss by (simp add: HEADER_SIZE_def word_le_nat_alt)
  show "layout lo (xs @ taken a s sz f @ ys) hi"
  proof (cases "s - sz < 32")
    case True
    then show ?thesis using l by (simp add: taken_def)
  next
    case False
    then have g: "32 \<le> unat s - unat sz" using big by simp
    have "unat a + 16 + unat sz + 16 + (unat s - unat sz - 16) = unat a + 16 + unat s" using g by simp
    then have "layout (unat (a + HEADER_SIZE + sz) + 16 + unat (s - sz - HEADER_SIZE)) ys hi"
      using x(5) n r [OF g] by metis
    then show ?thesis
      using False x(1-4) sz n r [OF g] by (auto simp: taken_def layout_append intro!: exI [of _ mid])
  qed
  show "a + HEADER_SIZE + sz \<notin> addrs (xs @ (a, s, f) # ys) \<and> 0 < unat (a + HEADER_SIZE + sz)"
    if "\<not> s - sz < 32"
  proof -
    from that have g: "32 \<le> unat s - unat sz" using big by simp
    have "a + HEADER_SIZE + sz \<notin> addrs xs" using layout_addr [OF x(1)] n x(2) by fastforce
    moreover have "a + HEADER_SIZE + sz \<notin> addrs ys" using layout_addr [OF x(5)] n g by fastforce
    moreover have "a + HEADER_SIZE + sz \<noteq> a" using n by fastforce
    ultimately show ?thesis using n by (simp add: image_Un)
  qed
qed

lemma joined_layout:
  assumes l: "layout lo (xs @ (a, s, f) # (n, t, g) # ys) hi" and hi: "hi < 4294967296" and n: "a + HEADER_SIZE + s = n"
  shows "layout lo (xs @ (a, s + (HEADER_SIZE + t), f') # ys) hi"
proof -
  from l obtain mid where x: "layout lo xs mid" "mid \<le> unat a" "8 dvd unat a" "8 dvd unat s"
    "unat a + 16 + unat s \<le> unat n" "8 dvd unat n" "8 dvd unat t" "layout (unat n + 16 + unat t) ys hi"
    by (auto simp: layout_append)
  have b: "unat n + 16 + unat t \<le> hi" using layout_le [OF x(8)] .
  have "unat (a + HEADER_SIZE) = unat a + 16" using b x(5) hi by (intro header_addr) simp
  then have un: "unat n = unat a + 16 + unat s" using n b x(5) hi unat_add [of "a + HEADER_SIZE" s] by simp
  have "unat (HEADER_SIZE + t) = 16 + unat t" using b hi unat_add [of 16 t] by (simp add: HEADER_SIZE_def)
  then have u: "unat (s + (HEADER_SIZE + t)) = unat s + 16 + unat t" using b hi un unat_add [of s "HEADER_SIZE + t"] by simp
  have "layout (unat a + 16 + (unat s + 16 + unat t)) ys hi" using x(8) un by (simp add: ac_simps)
  then show ?thesis using x u by (auto simp: layout_append intro!: exI [of _ mid])
qed

lemma released_layout:
  assumes l: "layout lo (xs @ (a, s, f) # ys) hi" and hi: "hi < 4294967296"
  shows "layout lo (released xs a s ys) hi"
proof -
  have 1: "layout lo (xs @ (a, fst (join_next a s ys), True) # snd (join_next a s ys)) hi"
  proof (cases "\<exists>n t zs. ys = (n, t, True) # zs \<and> a + HEADER_SIZE + s = n")
    case True
    then show ?thesis using joined_layout [OF _ hi] l by (auto simp: join_next_def)
  next
    case False
    then have "join_next a s ys = (s, ys)"
      by (auto simp: join_next_def split: list.splits prod.splits bool.splits)
    then show ?thesis using l by (simp add: layout_append)
  qed
  have 2: "layout lo (join_prev xs a s' @ ys') hi" if "layout lo (xs @ (a, s', True) # ys') hi" for s' ys'
  proof (cases xs rule: rev_cases)
    case Nil
    then show ?thesis using that by (simp add: join_prev_def)
  next
    case (snoc zs x)
    then show ?thesis using that joined_layout [OF _ hi, of lo zs "fst x" "fst (snd x)" "snd (snd x)" a s' True ys' True]
      by (simp add: join_prev_def)
  qed
  show ?thesis using 2 [OF 1] by (simp add: released_def split_def Let_def)
qed

lemma live_flag:
  assumes "distinct (map fst (xs @ (a, s, f) # ys))"
  shows "live (xs @ (a, s, False) # ys) = (live (xs @ ys))(a + HEADER_SIZE \<mapsto> unat s)"
    and "live (xs @ (a, s, True) # ys) = live (xs @ ys)"
    and "live (xs @ ys) (a + HEADER_SIZE) = None"
proof -
  have x: "live xs (a + HEADER_SIZE) = None" "live ys (a + HEADER_SIZE) = None"
    using assms by (auto intro!: live_none)
  then show "live (xs @ (a, s, False) # ys) = (live (xs @ ys))(a + HEADER_SIZE \<mapsto> unat s)"
    by (simp add: live_append live_simps map_add_upd_left domIff)
  show "live (xs @ (a, s, True) # ys) = live (xs @ ys)" by (simp add: live_append live_simps)
  show "live (xs @ ys) (a + HEADER_SIZE) = None" using x by (simp add: live_append map_add_None)
qed

lemma live_taken:
  assumes "distinct (map fst (xs @ (a, s, f) # ys))"
  shows "live (xs @ taken a s sz False @ ys) =
    (live (xs @ ys))(a + HEADER_SIZE \<mapsto> (if s - sz < 32 then unat s else unat sz))"
  using live_flag(1) [OF assms] live_flag(1) [of xs a sz f ys] assms
  by (simp add: taken_def live_append live_simps)

lemma live_released:
  assumes "distinct (map fst (xs @ (a, s, f) # ys))"
  shows "live (released xs a s ys) = live (xs @ ys)"
proof -
  have 1: "live (snd (join_next a s ys)) = live ys"
    by (auto simp: join_next_def live_simps split: list.splits prod.splits bool.splits)
  have 2: "live (join_prev xs a s') = live xs" for s'
  proof (cases "xs \<noteq> [] \<and> snd (snd (last xs)) \<and> fst (last xs) + HEADER_SIZE + fst (snd (last xs)) = a")
    case True
    then have "live (butlast xs @ [last xs]) = live (butlast xs)"
      by (cases "last xs") (auto simp: live_append live_simps)
    then have "live xs = live (butlast xs)" using True by simp
    then show ?thesis using True by (simp add: join_prev_def live_append live_simps)
  next
    case False
    then show ?thesis by (simp only: join_prev_def if_False live_append live_simps) simp
  qed
  show ?thesis by (simp add: released_def split_def Let_def live_append 1 2)
qed

section \<open>Mapping the pages of the heap\<close>

text \<open>
  Every page of \<open>[lo, hi)\<close> is mapped, to a frame that is in use and holds no page table, and no two pages
  share a frame. The heap lies below the page tables' own addresses, \<open>heap_top\<close>.
\<close>

definition backed :: "mm \<Rightarrow> nat \<Rightarrow> nat \<Rightarrow> bool" where
  "backed m lo hi \<longleftrightarrow>
     (\<forall>v. lo \<le> unat v \<and> unat v < hi \<longrightarrow> (\<exists>f. translate m v = Some f \<and> f \<notin> free_pages (phys m) \<and> data_frame m f)) \<and>
     (\<forall>v w. lo \<le> unat v \<and> unat v < hi \<and> lo \<le> unat w \<and> unat w < hi \<and> translate m v = translate m w \<longrightarrow>
        unat v div 4096 = unat w div 4096)"

abbreviation heap_base :: nat where "heap_base \<equiv> 3489660928"
abbreviation heap_top :: nat where "heap_top \<equiv> 4290772992"

lemma heap_pd_index: "unat v < heap_top \<Longrightarrow> pd_index v < 1023"
  unfolding pd_index_div by (simp add: div_less_iff_less_mult)

text \<open>The memory manager after \<open>n\<close> more pages are mapped at \<open>e\<close>, at most two frames a page.\<close>

definition extended :: "mm \<Rightarrow> nat \<Rightarrow> nat \<Rightarrow> mm \<Rightarrow> bool" where
  "extended m e n m' \<longleftrightarrow> mm_ok m' \<and> cr3 m' = cr3 m \<and> data_kept m m' \<and>
     free_pages (phys m') \<subseteq> free_pages (phys m) \<and> card (free_pages (phys m)) \<le> card (free_pages (phys m')) + 2 * n \<and>
     backed m' heap_base (e + n * 4096) \<and>
     (\<forall>v. pd_index v < 1023 \<longrightarrow> \<not> (e \<le> unat v \<and> unat v < e + n * 4096) \<longrightarrow> translate m' v = translate m v)"

lemma page_of_range:
  assumes "4096 dvd e"
  shows "unat (v :: u32) div 4096 = e div 4096 \<longleftrightarrow> e \<le> unat v \<and> unat v < e + 4096"
proof -
  obtain k where k: "e = k * 4096" using assms by (auto elim: dvdE)
  have "unat v div 4096 = k \<longleftrightarrow> k * 4096 \<le> unat v \<and> unat v < k * 4096 + 4096"
    using div_mult_mod_eq [of "unat v" 4096] mod_less_divisor [of 4096 "unat v"] by linarith
  then show ?thesis by (simp add: k)
qed

lemma backed_new_page:
  assumes e: "4096 dvd unat e" "unat e + 4096 \<le> heap_top" and bk: "backed m heap_base (unat e)"
    and q: "q \<in> free_pages (phys m)" "data_frame m' q" and sub: "free_pages (phys m') \<subseteq> free_pages (phys m) - {q}"
    and dk: "data_kept m m'"
    and tr: "\<And>v. pd_index v < 1023 \<Longrightarrow>
      translate m' v = (if unat v div 4096 = unat e div 4096 then Some q else translate m v)"
  shows "backed m' heap_base (unat e + 4096)"
proof -
  have T: "translate m' v = (if unat e \<le> unat v \<and> unat v < unat e + 4096 then Some q else translate m v)"
    if "unat v < heap_top" for v
    using tr [OF heap_pd_index [OF that]] page_of_range [OF e(1)] by simp
  have old: "\<exists>f. translate m v = Some f \<and> f \<notin> free_pages (phys m) \<and> data_frame m' f" if "heap_base \<le> unat v" "unat v < unat e" for v
    using bk that dk unfolding backed_def data_kept_def by blast
  show ?thesis
    unfolding backed_def
  proof (intro conjI allI impI)
    fix v :: u32 assume v: "heap_base \<le> unat v \<and> unat v < unat e + 4096"
    then have "unat v < heap_top" using e by simp
    then show "\<exists>f. translate m' v = Some f \<and> f \<notin> free_pages (phys m') \<and> data_frame m' f"
      using T [of v] old [of v] q sub v by fastforce
  next
    fix v w :: u32 assume vw: "heap_base \<le> unat v \<and> unat v < unat e + 4096 \<and> heap_base \<le> unat w \<and>
      unat w < unat e + 4096 \<and> translate m' v = translate m' w"
    then have tt: "unat v < heap_top" "unat w < heap_top" using e by simp_all
    consider "unat e \<le> unat v" "unat e \<le> unat w" | "unat e \<le> unat v" "unat w < unat e"
      | "unat v < unat e" "unat e \<le> unat w" | "unat v < unat e" "unat w < unat e" by linarith
    then show "unat v div 4096 = unat w div 4096"
    proof cases
      case 1
      then show ?thesis using vw page_of_range [OF e(1), of v] page_of_range [OF e(1), of w] by simp
    next
      case 2
      then have "translate m w = Some q" using T [OF tt(1)] T [OF tt(2)] vw by auto
      then show ?thesis using old [of w] 2 vw q(1) by auto
    next
      case 3
      then have "translate m v = Some q" using T [OF tt(1)] T [OF tt(2)] vw by auto
      then show ?thesis using old [of v] 3 vw q(1) by auto
    next
      case 4
      then show ?thesis using T [OF tt(1)] T [OF tt(2)] vw bk by (simp add: backed_def)
    qed
  qed
qed

lemma map_one_page:
  assumes ok: "mm_ok m" and e: "4096 dvd unat e" "heap_base \<le> unat e" "unat e + 4096 \<le> heap_top"
    and bk: "backed m heap_base (unat e)"
    and mem: "2 \<le> card (free_pages (phys m))" "0 \<notin> free_pages (phys m)"
  obtains p a m' where "pmm_alloc_frame (phys m) = Some (p, a)" "a \<noteq> 0"
    "mmu_map_page a e True False (m\<lparr>phys := p\<rparr>) = Some m'" "extended m (unat e) 1 m'"
proof -
  have i: "pd_index e < 1023" using e by (intro heap_pd_index) simp
  from map_new_frame [OF ok i mem] obtain p q m' where
    m': "pmm_alloc_frame (phys m) = Some (p, page_addr q)" "page_addr q \<noteq> 0"
      "mmu_map_page (page_addr q) e True False (m\<lparr>phys := p\<rparr>) = Some m'" and
    r: "mm_ok m'" "cr3 m' = cr3 m" "q \<in> free_pages (phys m)" "free_pages (phys m') \<subseteq> free_pages (phys m) - {q}"
      "card (free_pages (phys m)) \<le> card (free_pages (phys m')) + 2" "data_kept m m'" "data_frame m' q"
      "\<forall>v. pd_index v < 1023 \<longrightarrow> translate m' v = (if unat v div 4096 = unat e div 4096 then Some q else translate m v)" .
  have "backed m' heap_base (unat e + 4096)" by (rule backed_new_page [OF e(1,3) bk r(3,7,4,6)]) (simp add: r(8))
  then have "extended m (unat e) 1 m'" using r page_of_range [OF e(1)] by (auto simp: extended_def)
  then show ?thesis using that m' by blast
qed

lemma extended_trans:
  assumes "extended m e 1 m1" "extended m1 (e + 4096) n m2"
  shows "extended m e (Suc n) m2"
proof -
  have "data_kept m m2" using assms data_kept_trans [of m m1 m2] by (simp add: extended_def)
  then show ?thesis using assms unfolding extended_def by (fastforce simp: algebra_simps)
qed

lemma heap_map_loop_spec:
  assumes "mm_ok (hmm h)" "4096 dvd unat (heap_end h)" "heap_base \<le> unat (heap_end h)"
    "unat (heap_end h) + n * 4096 \<le> heap_top" "backed (hmm h) heap_base (unat (heap_end h))"
    "2 * n \<le> card (free_pages (phys (hmm h)))" "0 \<notin> free_pages (phys (hmm h))"
  shows "\<exists>m'. heap_map_loop n h = Some (h\<lparr>hmm := m', heap_end := heap_end h + of_nat (n * 4096)\<rparr>, True) \<and>
    extended (hmm h) (unat (heap_end h)) n m'"
  using assms
proof (induction n arbitrary: h)
  case 0
  then show ?case by (intro exI [of _ "hmm h"]) (simp add: extended_def)
next
  case (Suc n)
  let ?e = "heap_end h"
  have e: "unat ?e + 4096 \<le> heap_top" "2 \<le> card (free_pages (phys (hmm h)))" using Suc.prems by simp_all
  obtain p a m1 where 1: "pmm_alloc_frame (phys (hmm h)) = Some (p, a)" "a \<noteq> 0"
    "mmu_map_page a ?e True False ((hmm h)\<lparr>phys := p\<rparr>) = Some m1" "extended (hmm h) (unat ?e) 1 m1"
    using map_one_page [OF Suc.prems(1,2,3) e(1) Suc.prems(5) e(2) Suc.prems(7)] .
  let ?h = "h\<lparr>hmm := m1, heap_end := ?e + of_nat PAGE_SIZE\<rparr>"
  have u: "unat (?e + 4096) = unat ?e + 4096" using e(1) unat_add [of ?e 4096] by simp
  have "\<exists>m'. heap_map_loop n ?h = Some (?h\<lparr>hmm := m', heap_end := heap_end ?h + of_nat (n * 4096)\<rparr>, True) \<and>
      extended (hmm ?h) (unat (heap_end ?h)) n m'"
  proof (rule Suc.IH)
    show "mm_ok (hmm ?h)" "backed (hmm ?h) heap_base (unat (heap_end ?h))"
      using 1(4) u by (simp_all add: extended_def PAGE_SIZE_def)
    show "2 * n \<le> card (free_pages (phys (hmm ?h)))" "0 \<notin> free_pages (phys (hmm ?h))"
      using 1(4) Suc.prems by (auto simp: extended_def)
    show "4096 dvd unat (heap_end ?h)" "heap_base \<le> unat (heap_end ?h)" "unat (heap_end ?h) + n * 4096 \<le> heap_top"
      using u Suc.prems by (simp_all add: PAGE_SIZE_def)
  qed
  then obtain m' where "heap_map_loop n ?h = Some (?h\<lparr>hmm := m', heap_end := heap_end ?h + of_nat (n * 4096)\<rparr>, True)"
    "extended m1 (unat ?e + 4096) n m'" using u by (auto simp: PAGE_SIZE_def)
  then show ?case using 1 extended_trans [OF 1(4)]
    by (intro exI [of _ m']) (simp add: PAGE_SIZE_def algebra_simps)
qed

lemma heap_map_oom:
  assumes "mm_ok (hmm h)" "free_pages (phys (hmm h)) = {}" "0 < n"
  shows "heap_map_loop n h = Some (h, False)"
proof -
  have "pmm_alloc_frame (phys (hmm h)) = Some (phys (hmm h), 0)"
    using pmm_alloc_frame_spec [of "phys (hmm h)"] assms by (auto simp: mm_ok_def)
  then show ?thesis using assms(3) by (cases n) simp_all
qed

section \<open>The heap invariant and the operations' contract\<close>

definition heap_rep :: "heap \<Rightarrow> block list \<Rightarrow> bool" where
  "heap_rep h bs \<longleftrightarrow> mm_ok (hmm h) \<and> 0 \<notin> free_pages (phys (hmm h)) \<and> bs \<noteq> [] \<and>
     list_rep (headers h) (head h) bs \<and> layout heap_base bs (unat (heap_end h)) \<and>
     unat (heap_end h) \<le> heap_top \<and> 4096 dvd unat (heap_end h) \<and> backed (hmm h) heap_base (unat (heap_end h))"

lemma heap_rep_update:
  "heap_rep h bs \<Longrightarrow> list_rep B (head h) bs' \<Longrightarrow> bs' \<noteq> [] \<Longrightarrow> layout heap_base bs' (unat (heap_end h)) \<Longrightarrow>
   heap_rep (h\<lparr>headers := B\<rparr>) bs'"
  by (simp add: heap_rep_def)

lemma heap_rep_distinct: "heap_rep h bs \<Longrightarrow> distinct (map fst bs)"
  by (simp add: heap_rep_def list_rep_def)

lemma heap_rep_block:
  "heap_rep h bs \<Longrightarrow> (a, s, f) \<in> set bs \<Longrightarrow>
   heap_base \<le> unat a \<and> unat a + 16 + unat s \<le> unat (heap_end h) \<and> unat (a + HEADER_SIZE) = unat a + 16 \<and> 8 dvd unat a"
  using layout_bounds [of heap_base bs "unat (heap_end h)" a s f] header_addr [of a] by (auto simp: heap_rep_def)

lemma take_block_rep:
  assumes r: "heap_rep h (xs @ (a, s, True) # ys)" and sz: "sz \<le> s" "8 dvd unat sz"
  shows "\<exists>B. take_block a sz h = Some (h\<lparr>headers := B\<rparr>, a + HEADER_SIZE) \<and>
    heap_rep (h\<lparr>headers := B\<rparr>) (xs @ taken a s sz False @ ys)"
proof -
  have l: "layout heap_base (xs @ (a, s, True) # ys) (unat (heap_end h))"
    and lr: "list_rep (headers h) (head h) (xs @ (a, s, True) # ys)" using r by (simp_all add: heap_rep_def)
  have hi: "unat (heap_end h) < 4294967296" using r by (simp add: heap_rep_def)
  have n: "\<not> s - sz < 32 \<Longrightarrow> a + HEADER_SIZE + sz \<notin> addrs (xs @ (a, s, True) # ys) \<and> a + HEADER_SIZE + sz \<noteq> 0"
    using taken_layout(2) [OF l hi sz] by (metis unsigned_0 not_gr_zero)
  obtain B1 where 1: "split_block a sz h = Some (h\<lparr>headers := B1\<rparr>)" "list_rep B1 (head h) (xs @ taken a s sz True @ ys)"
    using split_block_rep [OF lr n] by blast
  obtain s' zs where t: "taken a s sz True = (a, s', True) # zs" "taken a s sz False = (a, s', False) # zs"
    by (cases "s - sz < 32") (auto simp: taken_def)
  have "list_rep (headers (h\<lparr>headers := B1\<rparr>)) (head h) (xs @ (a, s', True) # (zs @ ys))"
    using 1(2) t by simp
  then obtain B2 where 2: "upd_header a (\<lambda>b. b\<lparr>bh_free := False\<rparr>) (h\<lparr>headers := B1\<rparr>) = Some (h\<lparr>headers := B2\<rparr>)"
    "list_rep B2 (head h) (xs @ taken a s sz False @ ys)"
    using set_free_rep [of "h\<lparr>headers := B1\<rparr>" "head h" xs a s' True "zs @ ys" False] t by auto
  have "layout heap_base (xs @ (a, s, False) # ys) (unat (heap_end h))" using l by (simp add: layout_append)
  then have "layout heap_base (xs @ taken a s sz False @ ys) (unat (heap_end h))"
    using hi sz by (rule taken_layout(1))
  then have "heap_rep (h\<lparr>headers := B2\<rparr>) (xs @ taken a s sz False @ ys)"
    using heap_rep_update [OF r 2(2)] t by simp
  moreover have "take_block a sz h = Some (h\<lparr>headers := B2\<rparr>, a + HEADER_SIZE)"
    using 1(1) 2(1) by (simp add: take_block_def)
  ultimately show ?thesis by blast
qed

text \<open>What a successful request of \<open>n\<close> bytes does to the block list.\<close>

definition granted :: "nat \<Rightarrow> block list \<Rightarrow> u32 \<Rightarrow> block list \<Rightarrow> bool" where
  "granted n bs r bs' \<longleftrightarrow> r \<noteq> 0 \<and> 8 dvd unat r \<and> live bs r = None \<and>
     (\<exists>k. live bs' = (live bs)(r \<mapsto> k) \<and> n \<le> k \<and> k < n + 40)"

lemma take_block_granted:
  assumes r: "heap_rep h (xs @ (a, s, True) # ys)" and n: "unat n \<le> 0xFFFFFFF8" "block_bytes (unat n) \<le> unat s"
  shows "\<exists>B. take_block a (ALIGN_UP n 8) h = Some (h\<lparr>headers := B\<rparr>, a + HEADER_SIZE) \<and>
    heap_rep (h\<lparr>headers := B\<rparr>) (xs @ taken a s (ALIGN_UP n 8) False @ ys) \<and>
    granted (unat n) (xs @ (a, s, True) # ys) (a + HEADER_SIZE) (xs @ taken a s (ALIGN_UP n 8) False @ ys)"
proof -
  let ?sz = "ALIGN_UP n 8"
  have sz: "?sz \<le> s" "8 dvd unat ?sz" using n align_8 [OF n(1)] block_bytes(3) by (simp_all add: word_le_nat_alt)
  have d: "distinct (map fst (xs @ (a, s, True) # ys))" using heap_rep_distinct [OF r] .
  have a: "unat (a + HEADER_SIZE) = unat a + 16" "8 dvd unat a" using heap_rep_block [OF r, of a s True] by auto
  have nz: "a + HEADER_SIZE \<noteq> 0"
  proof
    assume "a + HEADER_SIZE = 0"
    then show False using a(1) by simp
  qed
  have "unat (s - ?sz) = unat s - block_bytes (unat n)" using unat_sub [OF sz(1)] align_8 [OF n(1)] by simp
  then have "s - ?sz < 32 \<Longrightarrow> unat s < block_bytes (unat n) + 32" by (simp add: word_less_nat_alt)
  then have "granted (unat n) (xs @ (a, s, True) # ys) (a + HEADER_SIZE) (xs @ taken a s ?sz False @ ys)"
    unfolding granted_def live_taken [OF d] live_flag(2) [OF d]
    using live_flag(3) [OF d] nz a align_8 [OF n(1)] block_bytes [of "unat n"] n(2)
    by (auto simp: word_less_nat_alt)
  then show ?thesis using take_block_rep [OF r sz] by blast
qed

abbreviation fits :: "nat \<Rightarrow> block \<Rightarrow> bool" where
  "fits n \<equiv> \<lambda>(a, s, f). f \<and> block_bytes n \<le> unat s"

text \<open>First fit: the first free block that is large enough.\<close>

lemma malloc_at:
  assumes r: "heap_rep h (xs @ (a, s, True) # ys)" and n: "n \<noteq> 0" "unat n \<le> 0xFFFFFFF8"
    and f: "block_bytes (unat n) \<le> unat s" "\<forall>y \<in> set xs. \<not> fits (unat n) y"
  shows "\<exists>B. malloc n h = Some (h\<lparr>headers := B\<rparr>, a + HEADER_SIZE) \<and>
    heap_rep (h\<lparr>headers := B\<rparr>) (xs @ taken a s (ALIGN_UP n 8) False @ ys) \<and>
    granted (unat n) (xs @ (a, s, True) # ys) (a + HEADER_SIZE) (xs @ taken a s (ALIGN_UP n 8) False @ ys)"
proof -
  have sz: "unat (ALIGN_UP n 8) = block_bytes (unat n)" using n(2) by (rule align_8)
  obtain l where "dseg (headers h) 0 (head h) (xs @ (a, s, True) # ys) l 0" "0 \<notin> addrs (xs @ (a, s, True) # ys)"
    using r by (auto simp: heap_rep_def list_rep_def)
  moreover have "\<forall>(b, t, g) \<in> set xs. \<not> (g \<and> ALIGN_UP n 8 \<le> t)" using f(2) sz by (auto simp: word_le_nat_alt)
  ultimately have "find_block (headers h) (ALIGN_UP n 8) (head h) = Some a"
    using f(1) sz by (intro find_block_first) (auto simp: word_le_nat_alt)
  moreover have "a \<noteq> 0" using r by (auto simp: heap_rep_def list_rep_def)
  ultimately have "malloc n h = take_block a (ALIGN_UP n 8) h" using n(1) by (simp add: malloc_def)
  then show ?thesis using take_block_granted [OF r n(2) f(1)] by simp
qed

lemma malloc_fit:
  assumes r: "heap_rep h bs" and n: "n \<noteq> 0" "unat n \<le> 0xFFFFFFF8" and f: "\<exists>x \<in> set bs. fits (unat n) x"
  shows "\<exists>B bs'. malloc n h = Some (h\<lparr>headers := B\<rparr>, fst (hd (filter (fits (unat n)) bs)) + HEADER_SIZE) \<and>
    heap_rep (h\<lparr>headers := B\<rparr>) bs' \<and> granted (unat n) bs (fst (hd (filter (fits (unat n)) bs)) + HEADER_SIZE) bs'"
proof -
  obtain xs x ys where bs: "bs = xs @ x # ys" "fits (unat n) x" "\<forall>y \<in> set xs. \<not> fits (unat n) y"
    using split_list_first_prop [OF f] by blast
  obtain a s where x: "x = (a, s, True)" "block_bytes (unat n) \<le> unat s" using bs(2) by (cases x) auto
  have "hd (filter (fits (unat n)) bs) = x" using bs by (auto simp: filter_empty_conv)
  then show ?thesis using malloc_at [of h xs a s ys n] r bs(1,3) x n by fastforce
qed

lemma find_block_nofit:
  assumes r: "heap_rep h bs" and n: "unat n \<le> 0xFFFFFFF8" and f: "\<not> (\<exists>x \<in> set bs. fits (unat n) x)"
  shows "find_block (headers h) (ALIGN_UP n 8) (head h) = Some 0"
proof -
  obtain l where "dseg (headers h) 0 (head h) bs l 0" "0 \<notin> addrs bs"
    using r by (auto simp: heap_rep_def list_rep_def)
  then show ?thesis using f align_8 [OF n] by (intro find_block_none) (auto simp: word_le_nat_alt)
qed

lemma list_rep_append_block:
  assumes lr: "list_rep B p bs" and ne: "bs \<noteq> []" and e: "e \<notin> addrs bs" "e \<noteq> 0" and n: "bh_next n = 0"
  obtains t b where "find_tail (B(e \<mapsto> n)) p = Some t" "B t = Some b" "t \<noteq> e"
    "list_rep (B(t \<mapsto> b\<lparr>bh_next := e\<rparr>, e \<mapsto> n\<lparr>bh_prev := t\<rparr>)) p (bs @ [(e, bh_size n, bh_free n)])"
proof -
  obtain l where d: "dseg B 0 p bs l 0" and z: "0 \<notin> addrs bs" "distinct (map fst bs)"
    using lr by (auto simp: list_rep_def)
  define t where "t = fst (last bs)"
  have tail: "find_tail (B(e \<mapsto> n)) p = Some t"
    using find_tail_last [of "B(e \<mapsto> n)" 0 p bs l] d z ne e(1) by (simp add: t_def)
  obtain xs s f where bs: "bs = xs @ [(t, s, f)]"
    using ne t_def by (metis append_butlast_last_id prod.collapse)
  from list_rep_focus [of B p xs t s f "[]"] lr bs obtain q where
    q: "dseg B 0 p xs q t" "B t = Some \<lparr>bh_size = s, bh_free = f, bh_next = 0, bh_prev = q\<rparr>" "t \<notin> addrs xs"
    by (auto simp: first_addr_def)
  have te: "t \<noteq> e" using e(1) bs by auto
  let ?b = "\<lparr>bh_size = s, bh_free = f, bh_next = 0, bh_prev = q\<rparr>"
  have "list_rep (B(t \<mapsto> ?b\<lparr>bh_next := e\<rparr>, e \<mapsto> n\<lparr>bh_prev := t\<rparr>)) p (xs @ (t, s, f) # [(e, bh_size n, bh_free n)])"
    using q te e bs z n by (cases n) (intro list_repI; auto)
  then show ?thesis using that [OF tail q(2) te] bs by simp
qed

lemma heap_grow_rep:
  assumes r: "heap_rep h bs" and g: "g = (unat needed + 4095) div 4096 * 4096" "unat needed \<le> 0xFFFFF000" "16 \<le> unat needed"
    and room: "unat (heap_end h) + g \<le> heap_top" "2 * (g div 4096) \<le> card (free_pages (phys (hmm h)))"
  shows "\<exists>h'. heap_grow needed h = Some (h', heap_end h) \<and>
    heap_rep h' (bs @ [(heap_end h, of_nat g - HEADER_SIZE, True)]) \<and> unat (of_nat g - HEADER_SIZE :: u32) = g - 16 \<and>
    heap_end h' = heap_end h + of_nat g \<and> head h' = head h \<and> extended (hmm h) (unat (heap_end h)) (g div 4096) (hmm h')"
proof -
  let ?e = "heap_end h" and ?n = "g div 4096"
  have lay: "layout heap_base bs (unat ?e)" and lr: "list_rep (headers h) (head h) bs" using r by (simp_all add: heap_rep_def)
  have base: "heap_base \<le> unat ?e" using layout_le [OF lay] .
  have gn: "g = ?n * 4096" "unat needed \<le> g" using g(1) round_up [of 4096 "unat needed"] by simp_all
  then have g16: "16 \<le> g" using g(3) by simp
  have gb: "g < 4294967296" using room(1) by simp
  have ug: "unat (of_nat g :: u32) = g" using gb by (simp add: unat_of_nat take_bit_nat_eq_self)
  have al: "ALIGN_UP needed 4096 = of_nat g"
    using align_4096 [OF g(2)] ug by (simp add: word_unat_eq_iff g(1))
  have pages: "unat (of_nat g div 4096 :: u32) = ?n" using ug by (simp add: unat_div_distrib)
  have sz: "unat (of_nat g - HEADER_SIZE :: u32) = g - 16"
    using unat_sub [of 16 "of_nat g :: u32"] ug g16 by (simp add: HEADER_SIZE_def word_le_nat_alt)
  obtain m' where m': "heap_map_loop ?n h = Some (h\<lparr>hmm := m', heap_end := ?e + of_nat g\<rparr>, True)"
    "extended (hmm h) (unat ?e) ?n m'"
    using heap_map_loop_spec [of h ?n] r base room unfolding gn(1) [symmetric] heap_rep_def by blast
  have ue: "unat (?e + of_nat g) = unat ?e + g" using room(1) ug unat_add [of ?e "of_nat g"] by simp
  let ?s = "of_nat g - HEADER_SIZE :: u32"
  let ?new = "\<lambda>p. \<lparr>bh_size = ?s, bh_free = True, bh_next = 0, bh_prev = p\<rparr>"
  let ?B = "(headers h)(?e \<mapsto> ?new 0)"
  have e0: "?e \<noteq> 0" using base by (metis not_numeral_le_zero unsigned_0)
  have off: "?e \<notin> addrs bs"
  proof
    assume "?e \<in> addrs bs"
    from layout_addr [OF lay this] show False by simp
  qed
  have ne: "bs \<noteq> []" using r by (simp add: heap_rep_def)
  from list_rep_append_block [OF lr ne off e0, of "?new 0"] obtain t b where
    tail: "find_tail ?B (head h) = Some t" and t: "headers h t = Some b" "t \<noteq> ?e"
    and lr': "list_rep ((headers h)(t \<mapsto> b\<lparr>bh_next := ?e\<rparr>, ?e \<mapsto> ?new t)) (head h) (bs @ [(?e, ?s, True)])"
    by auto
  let ?B' = "(?B(t \<mapsto> b\<lparr>bh_next := ?e\<rparr>))(?e \<mapsto> ?new t)"
  have B': "?B' = (headers h)(t \<mapsto> b\<lparr>bh_next := ?e\<rparr>, ?e \<mapsto> ?new t)" using t(2) by (auto simp: fun_eq_iff)
  let ?h' = "h\<lparr>hmm := m', heap_end := ?e + of_nat g, headers := ?B'\<rparr>"
  have run: "heap_grow needed h = Some (?h', ?e)"
    using m'(1) tail t
    by (simp add: heap_grow_def heap_map_pages_def PAGE_SIZE_def al pages Let_def upd_header_def)
  have g4: "4096 dvd g" using g(1) by simp
  have "8 dvd g" by (rule dvd_trans [OF _ g4]) simp
  then have "8 dvd unat ?s" using sz g16 by (simp add: dvd_diff_nat)
  moreover have "8 dvd unat ?e" by (rule dvd_trans [of _ 4096]) (use r in \<open>simp_all add: heap_rep_def\<close>)
  ultimately have "layout heap_base (bs @ [(?e, ?s, True)]) (unat (?e + of_nat g))"
    using lay ue sz g16 by (auto simp: layout_append)
  then have "heap_rep ?h' (bs @ [(?e, ?s, True)])"
    using lr' [folded B'] r room(1) ue g4 m'(2) gn(1) by (auto simp: heap_rep_def extended_def)
  with run sz m'(2) show ?thesis by (intro exI [of _ ?h']) simp
qed

text \<open>No block fits and there are frames: the heap grows by whole pages and serves the request from them.\<close>

lemma malloc_grow:
  assumes r: "heap_rep h bs" and n: "n \<noteq> 0" "unat n \<le> 0xFFFFE000" and f: "\<not> (\<exists>x \<in> set bs. fits (unat n) x)"
    and room: "unat (heap_end h) + grow_bytes (unat n) \<le> heap_top"
      "2 * (grow_bytes (unat n) div 4096) \<le> card (free_pages (phys (hmm h)))"
  shows "\<exists>h' bs'. malloc n h = Some (h', heap_end h + HEADER_SIZE) \<and> heap_rep h' bs' \<and>
    granted (unat n) bs (heap_end h + HEADER_SIZE) bs' \<and> unat (heap_end h') = unat (heap_end h) + grow_bytes (unat n) \<and>
    extended (hmm h) (unat (heap_end h)) (grow_bytes (unat n) div 4096) (hmm h')"
proof -
  let ?e = "heap_end h" and ?g = "grow_bytes (unat n)"
  have n8: "unat n \<le> 0xFFFFFFF8" using n(2) by simp
  have sz: "unat (ALIGN_UP n 8) = block_bytes (unat n)" using n8 by (rule align_8)
  have nb: "unat (ALIGN_UP n 8 + HEADER_SIZE) = block_bytes (unat n) + 16"
    using sz n(2) block_bytes(2) [of "unat n"] by (intro header_addr [of "ALIGN_UP n 8", unfolded sz]) simp
  have "?g = (unat (ALIGN_UP n 8 + HEADER_SIZE) + 4095) div 4096 * 4096" by (simp only: nb grow_bytes_def)
  moreover have "unat (ALIGN_UP n 8 + HEADER_SIZE) \<le> 0xFFFFF000" "16 \<le> unat (ALIGN_UP n 8 + HEADER_SIZE)"
    using nb n(2) block_bytes(2) [of "unat n"] by simp_all
  ultimately obtain h1 where h1: "heap_grow (ALIGN_UP n 8 + HEADER_SIZE) h = Some (h1, ?e)"
    "heap_rep h1 (bs @ [(?e, of_nat ?g - HEADER_SIZE, True)])" "unat (of_nat ?g - HEADER_SIZE :: u32) = ?g - 16"
    "heap_end h1 = ?e + of_nat ?g" "extended (hmm h) (unat ?e) (?g div 4096) (hmm h1)"
    using heap_grow_rep [OF r _ _ _ room, of "ALIGN_UP n 8 + HEADER_SIZE"] by metis
  have e0: "?e \<noteq> 0"
  proof
    assume "?e = 0"
    with r layout_le [of heap_base bs "unat ?e"] show False by (simp add: heap_rep_def)
  qed
  have fit: "block_bytes (unat n) \<le> unat (of_nat ?g - HEADER_SIZE :: u32)" using h1(3) grow_bytes(1) [of "unat n"] by simp
  obtain B where B: "take_block ?e (ALIGN_UP n 8) h1 = Some (h1\<lparr>headers := B\<rparr>, ?e + HEADER_SIZE)"
    "heap_rep (h1\<lparr>headers := B\<rparr>) (bs @ taken ?e (of_nat ?g - HEADER_SIZE) (ALIGN_UP n 8) False @ [])"
    "granted (unat n) (bs @ [(?e, of_nat ?g - HEADER_SIZE, True)]) (?e + HEADER_SIZE)
      (bs @ taken ?e (of_nat ?g - HEADER_SIZE) (ALIGN_UP n 8) False @ [])"
    using take_block_granted [OF h1(2) n8 fit] by blast
  have "live (bs @ [(?e, of_nat ?g - HEADER_SIZE, True)]) = live bs" by (simp add: live_append live_simps)
  then have "granted (unat n) bs (?e + HEADER_SIZE) (bs @ taken ?e (of_nat ?g - HEADER_SIZE) (ALIGN_UP n 8) False @ [])"
    using B(3) by (simp add: granted_def)
  moreover have "malloc n h = Some (h1\<lparr>headers := B\<rparr>, ?e + HEADER_SIZE)"
    using n(1) find_block_nofit [OF r n8 f] h1(1) e0 B(1) by (simp add: malloc_def)
  moreover have "unat (heap_end h1) = unat ?e + ?g"
    using h1(4) room(1) unat_add [of ?e "of_nat ?g"] by (simp add: unat_of_nat take_bit_nat_eq_self)
  ultimately show ?thesis using B(2) h1(5) by (intro exI [of _ "h1\<lparr>headers := B\<rparr>"] exI) auto
qed

text \<open>No block fits and no frame is left: the request fails and nothing changes.\<close>

lemma malloc_oom:
  assumes r: "heap_rep h bs" and n: "n \<noteq> 0" "unat n \<le> 0xFFFFE000" and f: "\<not> (\<exists>x \<in> set bs. fits (unat n) x)"
    and full: "free_pages (phys (hmm h)) = {}"
  shows "malloc n h = Some (h, 0)"
proof -
  have n8: "unat n \<le> 0xFFFFFFF8" using n(2) by simp
  have sz: "unat (ALIGN_UP n 8) = block_bytes (unat n)" using n8 by (rule align_8)
  have nb: "unat (ALIGN_UP n 8 + HEADER_SIZE) = block_bytes (unat n) + 16"
    using sz n(2) block_bytes(2) [of "unat n"] by (intro header_addr [of "ALIGN_UP n 8", unfolded sz]) simp
  then have "unat (ALIGN_UP (ALIGN_UP n 8 + HEADER_SIZE) 4096) = grow_bytes (unat n)"
    using align_4096 [of "ALIGN_UP n 8 + HEADER_SIZE"] n(2) block_bytes(2) [of "unat n"] by (simp add: grow_bytes_def)
  then have "0 < unat (ALIGN_UP (ALIGN_UP n 8 + HEADER_SIZE) 4096 div 4096)"
    using grow_bytes [of "unat n"] by (auto simp: unat_div_distrib div_greater_zero_iff dest: dvd_imp_le)
  then have "heap_grow (ALIGN_UP n 8 + HEADER_SIZE) h = Some (h, 0)"
    using heap_map_oom [of h] r full by (simp add: heap_grow_def heap_map_pages_def heap_rep_def PAGE_SIZE_def)
  then show ?thesis using n(1) find_block_nofit [OF r n8 f] by (simp add: malloc_def)
qed

lemma free_at:
  assumes r: "heap_rep h (xs @ (a, s, False) # ys)"
  shows "\<exists>B. free (a + HEADER_SIZE) h = Some (h\<lparr>headers := B\<rparr>) \<and> heap_rep (h\<lparr>headers := B\<rparr>) (released xs a s ys)"
proof -
  have l: "layout heap_base (xs @ (a, s, False) # ys) (unat (heap_end h))" and hi: "unat (heap_end h) < 4294967296"
    and lr: "list_rep (headers h) (head h) (xs @ (a, s, False) # ys)"
    using r by (simp_all add: heap_rep_def)
  have p0: "a + HEADER_SIZE \<noteq> 0"
  proof
    assume z: "a + HEADER_SIZE = 0"
    have "(a, s, False) \<in> set (xs @ (a, s, False) # ys)" by simp
    from heap_rep_block [OF r this] show False by (simp only: z) simp
  qed
  obtain B where B: "free (a + HEADER_SIZE) h = Some (h\<lparr>headers := B\<rparr>)" "list_rep B (head h) (released xs a s ys)"
    using free_rep [OF lr p0] by blast
  have "released xs a s ys \<noteq> []" by (simp add: released_def split_def Let_def join_prev_def)
  then show ?thesis using B heap_rep_update [OF r B(2)] released_layout [OF l hi] by auto
qed

lemma free_live:
  assumes r: "heap_rep h bs" and p: "live bs p = Some k"
  shows "\<exists>B bs'. free p h = Some (h\<lparr>headers := B\<rparr>) \<and> heap_rep (h\<lparr>headers := B\<rparr>) bs' \<and> live bs' = (live bs)(p := None)"
proof -
  let ?a = "p - HEADER_SIZE"
  obtain s xs ys where bs: "bs = xs @ (?a, s, False) # ys" using live_dom [OF p] by (blast dest: split_list)
  have d: "distinct (map fst (xs @ (?a, s, False) # ys))" using heap_rep_distinct [OF r] bs by simp
  have "live (released xs ?a s ys) = (live bs)(p := None)"
    using live_released [OF d] live_flag(1,3) [OF d] bs by (simp add: fun_eq_iff)
  then show ?thesis using free_at [of h xs ?a s ys] r bs by auto
qed

lemma heap_map_shrinks: "heap_map_loop n h = Some (h', b) \<Longrightarrow> shrinks (phys (hmm h)) (phys (hmm h'))"
proof (induction n arbitrary: h)
  case (Suc n)
  obtain p f where p: "pmm_alloc_frame (phys (hmm h)) = Some (p, f)" using Suc.prems by (auto simp: bind_eq_Some_conv)
  show ?case
  proof (cases "f = 0")
    case True
    then show ?thesis using Suc.prems p alloc_shrinks [OF p] by auto
  next
    case False
    then obtain m where m: "mmu_map_page f (heap_end h) True False ((hmm h)\<lparr>phys := p\<rparr>) = Some m"
      "heap_map_loop n (h\<lparr>hmm := m, heap_end := heap_end h + of_nat PAGE_SIZE\<rparr>) = Some (h', b)"
      using Suc.prems p by (auto simp: bind_eq_Some_conv)
    show ?thesis using shrinks_trans [OF alloc_shrinks [OF p] shrinks_trans [OF _ Suc.IH [OF m(2)]]] map_page_shrinks [OF m(1)]
      by simp
  qed
qed simp

lemma memory_init_shrinks: "memory_init h = Some h' \<Longrightarrow> shrinks (phys (hmm h)) (phys (hmm h'))"
  by (auto simp: memory_init_def heap_map_pages_def bind_eq_Some_conv split: if_splits dest!: heap_map_shrinks)

lemma backed_empty: "backed m lo lo"
  by (auto simp: backed_def)

lemma memory_init_rep:
  assumes "mm_ok (hmm h)" "32 \<le> card (free_pages (phys (hmm h)))" "0 \<notin> free_pages (phys (hmm h))"
  shows "\<exists>h'. memory_init h = Some h' \<and> heap_rep h' [(HEAP_VIRT_START, 65520, True)] \<and>
    heap_end h' = 0xD0010000 \<and> extended (hmm h) heap_base 16 (hmm h')"
proof -
  let ?h = "h\<lparr>heap_end := HEAP_VIRT_START\<rparr>"
  have e: "unat HEAP_VIRT_START = heap_base" by (simp add: HEAP_VIRT_START_def)
  have "\<exists>m'. heap_map_loop 16 ?h = Some (?h\<lparr>hmm := m', heap_end := heap_end ?h + of_nat (16 * 4096)\<rparr>, True) \<and>
      extended (hmm ?h) (unat (heap_end ?h)) 16 m'"
    using assms backed_empty by (intro heap_map_loop_spec) (simp_all add: e)
  then obtain m' where m': "heap_map_loop 16 ?h = Some (h\<lparr>hmm := m', heap_end := 0xD0010000\<rparr>, True)"
    "extended (hmm h) heap_base 16 m'" by (auto simp: e) (simp add: HEAP_VIRT_START_def)
  let ?B = "(headers h)(HEAP_VIRT_START \<mapsto> \<lparr>bh_size = 65520, bh_free = True, bh_next = 0, bh_prev = 0\<rparr>)"
  let ?h' = "h\<lparr>hmm := m', heap_end := 0xD0010000, head := HEAP_VIRT_START, headers := ?B\<rparr>"
  have "memory_init h = Some ?h'"
    using m'(1) by (simp add: memory_init_def heap_map_pages_def HEAP_INITIAL_PAGES_def HEAP_VIRT_START_def HEADER_SIZE_def)
  moreover have "heap_rep ?h' [(HEAP_VIRT_START, 65520, True)]"
    using m'(2) assms(3) by (auto simp: heap_rep_def list_rep_def extended_def HEAP_VIRT_START_def)
  ultimately show ?thesis using m'(2) by (intro exI [of _ ?h']) simp
qed

text \<open>Live regions do not overlap, lie in mapped memory and are never hit by a header.\<close>

lemma live_regions:
  assumes r: "heap_rep h bs" and p: "live bs p = Some k"
  shows "heap_base + 16 \<le> unat p" "unat p + k \<le> unat (heap_end h)"
    and "\<And>v. unat p \<le> unat v \<Longrightarrow> unat v < unat p + k \<Longrightarrow>
      \<exists>f. translate (hmm h) v = Some f \<and> data_frame (hmm h) f \<and> f \<notin> free_pages (phys (hmm h))"
    and "\<And>q j. live bs q = Some j \<Longrightarrow> q \<noteq> p \<Longrightarrow> unat p + k + 16 \<le> unat q \<or> unat q + j + 16 \<le> unat p"
    and "\<And>a s f. (a, s, f) \<in> set bs \<Longrightarrow> unat a + 16 \<le> unat p \<or> unat p + k \<le> unat a"
proof -
  obtain s where s: "(p - HEADER_SIZE, s, False) \<in> set bs" "k = unat s" using live_dom [OF p] by blast
  have u: "unat p = unat (p - HEADER_SIZE) + 16" using heap_rep_block [OF r s(1)] by simp
  show lo: "heap_base + 16 \<le> unat p" and hi: "unat p + k \<le> unat (heap_end h)"
    using heap_rep_block [OF r s(1)] u s(2) by auto
  show "\<exists>f. translate (hmm h) v = Some f \<and> data_frame (hmm h) f \<and> f \<notin> free_pages (phys (hmm h))" if "unat p \<le> unat v" "unat v < unat p + k" for v
    using that lo hi r by (auto simp: heap_rep_def backed_def dest!: spec [of _ v])
  have l: "layout heap_base bs (unat (heap_end h))" using r by (simp add: heap_rep_def)
  show "unat p + k + 16 \<le> unat q \<or> unat q + j + 16 \<le> unat p" if q: "live bs q = Some j" "q \<noteq> p" for q j
  proof -
    obtain t where t: "(q - HEADER_SIZE, t, False) \<in> set bs" "j = unat t" using live_dom [OF q(1)] by blast
    have v: "unat q = unat (q - HEADER_SIZE) + 16" using heap_rep_block [OF r t(1)] by simp
    have "q - HEADER_SIZE \<noteq> p - HEADER_SIZE" using q(2) by simp
    from layout_disjoint [OF l t(1) s(1) this] show ?thesis using u v s(2) t(2) by auto
  qed
  show "unat a + 16 \<le> unat p \<or> unat p + k \<le> unat a" if a: "(a, t, f) \<in> set bs" for a t f
  proof (cases "a = p - HEADER_SIZE")
    case True
    then show ?thesis using u by simp
  next
    case False
    from layout_disjoint [OF l a s(1) False] show ?thesis using u s(2) by auto
  qed
qed

lemma backed_kept:
  assumes bk: "backed m lo hi" and tr: "\<And>v. unat v < hi \<Longrightarrow> translate m' v = translate m v"
    and k: "free_pages (phys m') \<subseteq> free_pages (phys m)" "data_kept m m'"
  shows "backed m' lo hi"
  unfolding backed_def
proof (intro conjI allI impI)
  fix v :: u32 assume v: "lo \<le> unat v \<and> unat v < hi"
  then obtain f where f: "translate m v = Some f" "f \<notin> free_pages (phys m)" "data_frame m f"
    using bk unfolding backed_def by blast
  then have "data_frame m' f" using k(2) by (simp add: data_kept_def)
  then show "\<exists>f. translate m' v = Some f \<and> f \<notin> free_pages (phys m') \<and> data_frame m' f"
    using f tr v k(1) by auto
next
  fix v w :: u32 assume v: "lo \<le> unat v \<and> unat v < hi \<and> lo \<le> unat w \<and> unat w < hi \<and> translate m' v = translate m' w"
  then have "translate m v = translate m w" using tr by auto
  then show "unat v div 4096 = unat w div 4096" using bk v by (simp add: backed_def)
qed

text \<open>A fault behind the end of the heap, resolved with a new frame, leaves the heap as it is.\<close>

lemma heap_rep_fault:
  assumes r: "heap_rep h bs" and i: "pd_index va < 1023" "0xD0000000 \<le> va" "e AND 1 = 0"
    and t: "translate (hmm h) va = None" and mem: "2 \<le> card (free_pages (phys (hmm h)))"
  shows "\<exists>m. mmu_handle_page_fault e va (hmm h) = Some m \<and> heap_rep (h\<lparr>hmm := m\<rparr>) bs \<and> translate m va \<noteq> None \<and>
    shrinks (phys (hmm h)) (phys m)"
proof -
  have ok: "mm_ok (hmm h)" "0 \<notin> free_pages (phys (hmm h))" and bk: "backed (hmm h) heap_base (unat (heap_end h))"
    and he: "unat (heap_end h) \<le> heap_top" "4096 dvd unat (heap_end h)" using r by (simp_all add: heap_rep_def)
  obtain m q where m: "mmu_handle_page_fault e va (hmm h) = Some m" "mm_ok m"
    "free_pages (phys m) \<subseteq> free_pages (phys (hmm h)) - {q}" "data_kept (hmm h) m" "translate m va = Some q"
    "\<forall>v. pd_index v < 1023 \<longrightarrow> unat v div 4096 \<noteq> unat va div 4096 \<longrightarrow> translate m v = translate (hmm h) v"
    using mmu_handle_page_fault_spec [OF ok(1) i mem ok(2)] by blast
  have "unat va \<ge> unat (heap_end h)"
  proof (rule ccontr)
    assume "\<not> unat (heap_end h) \<le> unat va"
    then have "heap_base \<le> unat va" "unat va < unat (heap_end h)" using i(2) by (simp_all add: word_le_nat_alt)
    then show False using bk t unfolding backed_def by auto
  qed
  then have "unat v div 4096 \<noteq> unat va div 4096" if "unat v < unat (heap_end h)" for v :: u32
    using that he(2) by (metis dvd_div_mult_self div_le_mono less_mult_imp_div_less linorder_not_less)
  then have tr: "translate m v = translate (hmm h) v" if "unat v < unat (heap_end h)" for v
    using m(6) heap_pd_index [of v] that he(1) by simp
  have "backed m heap_base (unat (heap_end h))"
    by (rule backed_kept [OF bk tr]) (use m(3,4) in auto)
  then show ?thesis using r m(1,2,3,5) fault_shrinks [OF m(1)] by (intro exI [of _ m]) (auto simp: heap_rep_def)
qed

text \<open>The largest requests are rounded up to 0, the size of the first free block whatever it is.\<close>

lemma align_wraps:
  assumes "0xFFFFFFF8 < n"
  shows "ALIGN_UP n 8 = 0"
proof -
  have "4294967288 < unat n" "unat n < 4294967296" using assms unsigned_less [of n] by (simp_all add: word_less_nat_alt)
  then have "unat n \<in> {4294967289, 4294967290, 4294967291, 4294967292, 4294967293, 4294967294, 4294967295}" by simp linarith
  moreover have "n = of_nat (unat n)" by simp
  ultimately have "n \<in> {0xFFFFFFF9, 0xFFFFFFFA, 0xFFFFFFFB, 0xFFFFFFFC, 0xFFFFFFFD, 0xFFFFFFFE, 0xFFFFFFFF}"
    by (elim insertE emptyE) (simp_all only: of_nat_numeral insert_iff simp_thms)
  then show ?thesis by (elim insertE emptyE) (simp_all add: ALIGN_UP_def)
qed

section \<open>The allocator's interface\<close>

text \<open>The block list of a heap, read off the headers.\<close>

partial_function (option) walk :: "(u32 \<rightharpoonup> block_header) \<Rightarrow> u32 \<Rightarrow> block list option" where
  "walk B p = (if p = 0 then Some [] else do {
     b \<leftarrow> B p;
     bs \<leftarrow> walk B (bh_next b);
     Some ((p, bh_size b, bh_free b) # bs) })"

definition regions :: "heap \<Rightarrow> u32 \<rightharpoonup> nat" where
  "regions h = (case walk (headers h) (head h) of Some bs \<Rightarrow> live bs | None \<Rightarrow> Map.empty)"

definition heap_ok :: "heap \<Rightarrow> bool" where
  "heap_ok h \<longleftrightarrow> (\<exists>bs. heap_rep h bs)"

text \<open>A request that can be served: a free block fits, or there is room and memory to grow.\<close>

definition can_serve :: "u32 \<Rightarrow> heap \<Rightarrow> bool" where
  "can_serve n h \<longleftrightarrow> n \<noteq> 0 \<and> unat n \<le> 0xFFFFE000 \<and>
     ((\<exists>bs. walk (headers h) (head h) = Some bs \<and> (\<exists>x \<in> set bs. fits (unat n) x)) \<or>
      (unat (heap_end h) + grow_bytes (unat n) \<le> heap_top \<and>
       2 * (grow_bytes (unat n) div 4096) \<le> card (free_pages (phys (hmm h)))))"

lemma walk_dseg: "dseg B pr p bs l 0 \<Longrightarrow> 0 \<notin> addrs bs \<Longrightarrow> walk B p = Some bs"
proof (induction bs arbitrary: pr p)
  case Nil
  then show ?case by (subst walk.simps) simp
next
  case (Cons x bs)
  then show ?case by (subst walk.simps) (cases x, auto)
qed

lemma heap_rep_walk: "heap_rep h bs \<Longrightarrow> walk (headers h) (head h) = Some bs"
  by (auto simp: heap_rep_def list_rep_def intro: walk_dseg)

lemma heap_rep_regions: "heap_rep h bs \<Longrightarrow> regions h = live bs"
  by (simp add: regions_def heap_rep_walk)

locale allocator =
  fixes acquire :: "u32 \<Rightarrow> 's \<Rightarrow> ('s \<times> u32) option" and release :: "u32 \<Rightarrow> 's \<Rightarrow> 's option"
    and contents :: "'s \<Rightarrow> u32 \<rightharpoonup> nat" and inv :: "'s \<Rightarrow> bool" and room :: "u32 \<Rightarrow> 's \<Rightarrow> bool"
  assumes acquire_law: "inv s \<Longrightarrow> room n s \<Longrightarrow> \<exists>s' r k. acquire n s = Some (s', r) \<and> inv s' \<and> r \<noteq> 0 \<and>
      contents s r = None \<and> contents s' = (contents s)(r \<mapsto> k) \<and> unat n \<le> k"
    and release_law: "inv s \<Longrightarrow> contents s p = Some k \<Longrightarrow>
      \<exists>s'. release p s = Some s' \<and> inv s' \<and> contents s' = (contents s)(p := None)"
begin

lemma acquire_release:
  assumes "inv s" "room n s"
  shows "\<exists>s' r s''. acquire n s = Some (s', r) \<and> release r s' = Some s'' \<and> inv s'' \<and> contents s'' = contents s"
proof -
  from acquire_law [OF assms] obtain s' r k where
    1: "acquire n s = Some (s', r)" "inv s'" "contents s r = None" "contents s' = (contents s)(r \<mapsto> k)" by blast
  then obtain s'' where "release r s' = Some s''" "inv s''" "contents s'' = (contents s')(r := None)"
    using release_law [of s' r k] by auto
  with 1 show ?thesis by (auto simp: fun_eq_iff)
qed

text \<open>Releasing every region, in any order.\<close>

primrec release_each :: "u32 list \<Rightarrow> 's \<Rightarrow> 's option" where
  "release_each [] s = Some s" |
  "release_each (p # ps) s = Option.bind (release p s) (release_each ps)"

lemma release_each_law:
  assumes "inv s" "distinct ps" "set ps \<subseteq> dom (contents s)"
  shows "\<exists>s'. release_each ps s = Some s' \<and> inv s' \<and> contents s' = contents s |` (- set ps)"
  using assms
proof (induction ps arbitrary: s)
  case Nil
  then show ?case by (simp add: restrict_map_def)
next
  case (Cons p ps)
  then obtain k where "contents s p = Some k" by auto
  with release_law Cons.prems(1) obtain s1 where
    s1: "release p s = Some s1" "inv s1" "contents s1 = (contents s)(p := None)" by blast
  moreover have "distinct ps" "set ps \<subseteq> dom (contents s1)" using Cons.prems s1(3) by auto
  ultimately obtain s' where "release_each ps s1 = Some s'" "inv s'" "contents s' = contents s1 |` (- set ps)"
    using Cons.IH by blast
  then show ?case using s1 by (auto simp: restrict_map_def fun_eq_iff)
qed

end

interpretation kheap: allocator malloc free regions heap_ok can_serve
proof unfold_locales
  fix s :: heap and n :: u32
  assume "heap_ok s" and room: "can_serve n s"
  then obtain bs where bs: "heap_rep s bs" by (auto simp: heap_ok_def)
  have n: "n \<noteq> 0" "unat n \<le> 0xFFFFE000" "unat n \<le> 0xFFFFFFF8" using room by (simp_all add: can_serve_def)
  obtain s' r bs' where "malloc n s = Some (s', r)" and r: "heap_rep s' bs'" "granted (unat n) bs r bs'"
  proof (cases "\<exists>x \<in> set bs. fits (unat n) x")
    case True
    then show ?thesis using malloc_fit [OF bs n(1,3) True] that by blast
  next
    case False
    with room have "unat (heap_end s) + grow_bytes (unat n) \<le> heap_top"
      "2 * (grow_bytes (unat n) div 4096) \<le> card (free_pages (phys (hmm s)))"
      using heap_rep_walk [OF bs] by (auto simp: can_serve_def)
    then show ?thesis using malloc_grow [OF bs n(1,2) False] that by blast
  qed
  then show "\<exists>s' r k. malloc n s = Some (s', r) \<and> heap_ok s' \<and> r \<noteq> 0 \<and> regions s r = None \<and>
      regions s' = (regions s)(r \<mapsto> k) \<and> unat n \<le> k"
    using heap_rep_regions [OF bs] heap_rep_regions [OF r(1)] by (auto simp: granted_def heap_ok_def)
next
  fix s :: heap and p k
  assume "heap_ok s" "regions s p = Some k"
  then obtain bs where bs: "heap_rep s bs" "live bs p = Some k" by (auto simp: heap_ok_def heap_rep_regions)
  then show "\<exists>s'. free p s = Some s' \<and> heap_ok s' \<and> regions s' = (regions s)(p := None)"
    using free_live [OF bs] by (auto simp: heap_ok_def heap_rep_regions)
qed

section \<open>Properties\<close>

text \<open>The heap after start-up.\<close>

definition boot_heap :: heap where
  "boot_heap = the (memory_init \<lparr>hmm = boot_mm, heap_end = 0, head = 0, headers = Map.empty\<rparr>)"

definition full_heap :: heap where
  "full_heap = boot_heap\<lparr>hmm := (hmm boot_heap)\<lparr>phys := \<lparr>bitmap = [], bitmap_at = 0x120000\<rparr>\<rparr>\<rparr>"

lemma boot_heap_facts:
  "heap_rep boot_heap [(HEAP_VIRT_START, 65520, True)]" "heap_end boot_heap = 0xD0010000"
  "200 \<le> card (free_pages (phys (hmm boot_heap)))"
proof -
  obtain h' where h': "memory_init \<lparr>hmm = boot_mm, heap_end = 0, head = 0, headers = Map.empty\<rparr> = Some h'"
    "heap_rep h' [(HEAP_VIRT_START, 65520, True)]" "heap_end h' = 0xD0010000" "extended boot_mm heap_base 16 (hmm h')"
    using memory_init_rep [of "\<lparr>hmm = boot_mm, heap_end = 0, head = 0, headers = Map.empty\<rparr>"] boot_mm_facts by auto
  then show "heap_rep boot_heap [(HEAP_VIRT_START, 65520, True)]" "heap_end boot_heap = 0xD0010000"
    "200 \<le> card (free_pages (phys (hmm boot_heap)))"
    using boot_mm_facts(2) by (simp_all add: boot_heap_def extended_def)
qed

lemma full_heap_facts:
  "heap_rep full_heap [(HEAP_VIRT_START, 65520, True)]" "free_pages (phys (hmm full_heap)) = {}"
proof -
  have p: "pmm_ok \<lparr>bitmap = [], bitmap_at = 0x120000\<rparr>" "free_pages \<lparr>bitmap = [], bitmap_at = 0x120000\<rparr> = {}" by (simp_all add: pmm_ok_def free_pages_def)
  have t: "translate (m\<lparr>phys := x\<rparr>) = translate m" for m x by (simp add: translate_def fun_eq_iff cong: if_cong)
  show "free_pages (phys (hmm full_heap)) = {}" using p by (simp add: full_heap_def)
  show "heap_rep full_heap [(HEAP_VIRT_START, 65520, True)]"
    using boot_heap_facts(1) p unfolding full_heap_def heap_rep_def mm_ok_def backed_def
    by (simp add: t data_frame_def) blast
qed

text \<open>C1: when a free block is large enough, malloc returns the payload of the first one in address order,
  takes at least n and less than n + 40 bytes from it, adds exactly that region to the live ones and keeps
  the heap's invariant; memory mappings do not change.\<close>

theorem malloc_first_fit:
  assumes "heap_rep h bs" "n \<noteq> 0" "unat n \<le> 0xFFFFFFF8" "\<exists>x \<in> set bs. fits (unat n) x"
  shows "\<exists>h' bs'. malloc n h = Some (h', fst (hd (filter (fits (unat n)) bs)) + HEADER_SIZE) \<and> heap_rep h' bs' \<and>
    granted (unat n) bs (fst (hd (filter (fits (unat n)) bs)) + HEADER_SIZE) bs' \<and>
    hmm h' = hmm h \<and> heap_end h' = heap_end h"
proof -
  obtain B bs' where r: "malloc n h = Some (h\<lparr>headers := B\<rparr>, fst (hd (filter (fits (unat n)) bs)) + HEADER_SIZE)"
    "heap_rep (h\<lparr>headers := B\<rparr>) bs'" "granted (unat n) bs (fst (hd (filter (fits (unat n)) bs)) + HEADER_SIZE) bs'"
    using malloc_fit [OF assms] by blast
  then show ?thesis by (intro exI [of _ "h\<lparr>headers := B\<rparr>"] exI [of _ bs']) simp
qed

theorem malloc_first_fit_witness:
  "\<exists>h' bs'. malloc 100 boot_heap = Some (h', 0xD0000010) \<and> heap_rep h' bs' \<and> (\<exists>k. live bs' = [0xD0000010 \<mapsto> k] \<and> 100 \<le> k \<and> k < 140)"
proof -
  have "\<exists>x \<in> set [(HEAP_VIRT_START, 65520, True)]. fits (unat (100 :: u32)) x" by (simp add: block_bytes_def)
  moreover have "(100 :: u32) \<noteq> 0" "unat (100 :: u32) \<le> 0xFFFFFFF8" by simp_all
  ultimately obtain h' bs' where
    r: "malloc 100 boot_heap = Some (h', fst (hd (filter (fits (unat (100 :: u32))) [(HEAP_VIRT_START, 65520, True)])) + HEADER_SIZE)"
      "heap_rep h' bs'" "granted (unat (100 :: u32)) [(HEAP_VIRT_START, 65520, True)]
        (fst (hd (filter (fits (unat (100 :: u32))) [(HEAP_VIRT_START, 65520, True)])) + HEADER_SIZE) bs'"
    using malloc_first_fit [OF boot_heap_facts(1)] by blast
  have "fst (hd (filter (fits (unat (100 :: u32))) [(HEAP_VIRT_START, 65520, True)])) + HEADER_SIZE = 0xD0000010"
    by (simp add: block_bytes_def HEAP_VIRT_START_def HEADER_SIZE_def)
  with r show ?thesis by (auto simp: granted_def live_simps)
qed





text \<open>C7: free of a live region, whatever its neighbours, returns, keeps the heap's invariant and removes exactly
  that region from the live ones.\<close>

theorem free_correct:
  assumes "heap_rep h bs" "live bs p = Some k"
  shows "\<exists>h' bs'. free p h = Some h' \<and> heap_rep h' bs' \<and> live bs' = (live bs)(p := None) \<and> hmm h' = hmm h"
proof -
  obtain B bs' where "free p h = Some (h\<lparr>headers := B\<rparr>)" "heap_rep (h\<lparr>headers := B\<rparr>) bs'" "live bs' = (live bs)(p := None)"
    using free_live [OF assms] by blast
  then show ?thesis by (intro exI [of _ "h\<lparr>headers := B\<rparr>"] exI [of _ bs']) simp
qed

theorem free_correct_witness:
  "\<exists>h r h' bs'. malloc 64 boot_heap = Some (h, r) \<and> free r h = Some h' \<and> heap_rep h' bs' \<and> live bs' = Map.empty"
proof -
  have "\<exists>x \<in> set [(HEAP_VIRT_START, 65520, True)]. fits (unat (64 :: u32)) x" by (simp add: block_bytes_def)
  moreover have "(64 :: u32) \<noteq> 0" "unat (64 :: u32) \<le> 0xFFFFFFF8" by simp_all
  ultimately obtain h r bs where h: "malloc 64 boot_heap = Some (h, r)" "heap_rep h bs"
    "granted (unat (64 :: u32)) [(HEAP_VIRT_START, 65520, True)] r bs"
    using malloc_fit [OF boot_heap_facts(1)] by blast
  then obtain k where k: "live bs = [r \<mapsto> k]" by (auto simp: granted_def live_simps)
  then have "live bs r = Some k" by simp
  from free_correct [OF h(2) this] h(1) k show ?thesis by auto
qed

end
