(* ===== verification/Machine.thy ===== *)
theory Machine
  imports Devices Terminal History Heap
begin

text \<open>
  The state of the running kernel, the components' states side by side, and what the layers above
  them share: the exception handler (src/cpu/isr.c), memory accesses through the page tables, the
  debug functions of src/mm/mmu.zig and src/mm/pmm.zig that print on the serial port, and the prompt's
  and the shell's static buffers. A computation that stops the machine (\<open>cli; hlt\<close>) ends as \<open>Halted\<close>.
\<close>

record kernel =
  k_term :: terminal
  k_hist :: history
  k_buffer :: buf \<comment> \<open>shell.c: buffer\<close>
  k_pos :: int \<comment> \<open>shell.c: buffer_pos\<close>
  k_user :: buf \<comment> \<open>setprompt.c: prompt_user\<close>
  k_os :: buf \<comment> \<open>setprompt.c: prompt_os\<close>
  k_timer :: timer
  k_heap :: heap
  k_bus :: bus

datatype outcome = Running kernel | Halted kernel

definition cont :: "outcome option \<Rightarrow> (kernel \<Rightarrow> outcome option) \<Rightarrow> outcome option" where
  "cont r f = (case r of Some (Running k) \<Rightarrow> f k | _ \<Rightarrow> r)"

definition runs :: "kernel option \<Rightarrow> outcome option" where
  "runs r = map_option Running r"

definition on_term :: "(terminal \<Rightarrow> terminal option) \<Rightarrow> kernel \<Rightarrow> kernel option" where
  "on_term f k = do { t \<leftarrow> f (k_term k); Some (k\<lparr>k_term := t\<rparr>) }"

definition on_bus :: "(bus \<Rightarrow> bus option) \<Rightarrow> kernel \<Rightarrow> kernel option" where
  "on_bus f k = do { b \<leftarrow> f (k_bus k); Some (k\<lparr>k_bus := b\<rparr>) }"

abbreviation k_mm :: "kernel \<Rightarrow> mm" where "k_mm k \<equiv> hmm (k_heap k)"

definition set_mm :: "mm \<Rightarrow> kernel \<Rightarrow> kernel" where
  "set_mm m k = k\<lparr>k_heap := (k_heap k)\<lparr>hmm := m\<rparr>\<rparr>"

text \<open>\<open>terminal_writestring\<close> of a literal.\<close>

definition prints :: "string \<Rightarrow> kernel \<Rightarrow> kernel option" where
  "prints s = on_term (terminal_writestring (lit s @ [0]) 0)"

definition putc :: "byte \<Rightarrow> kernel \<Rightarrow> kernel option" where
  "putc c = on_term (terminal_putchar c)"

definition serial_puts :: "string \<Rightarrow> kernel \<Rightarrow> kernel option" where
  "serial_puts s = on_bus (serial_write_string (lit s @ [0]))"

text \<open>Colour literals of src/include/colors.h.\<close>

definition sgr :: "string \<Rightarrow> string" where
  "sgr n = CHR 0x1B # ''['' @ n @ ''m''"

section \<open>Serial debug output\<close>

text \<open>\<open>print_hex\<close> of pmm.zig: the eight nibbles, the least significant one filled in last.\<close>

primrec serial_hex_fill :: "nat \<Rightarrow> u32 \<Rightarrow> buf \<Rightarrow> buf option" where
  "serial_hex_fill 0 temp b = Some b" |
  "serial_hex_fill (Suc i) temp b = do {
     let nibble = (ucast (temp AND 0xF) :: byte);
     b' \<leftarrow> wr b i (if nibble < 10 then 48 + nibble else 65 + (nibble - 10));
     serial_hex_fill i (drop_bit 4 temp) b' }"

definition print_hex :: "u32 \<Rightarrow> bus \<Rightarrow> bus option" where
  "print_hex val b = do {
     b1 \<leftarrow> serial_write_string (lit ''0x'' @ [0]) b;
     cs \<leftarrow> serial_hex_fill 8 val (replicate 8 0);
     puts serial_write_char cs b1 }"

definition pmm_dump_bitmap :: "u32 \<Rightarrow> pmm \<Rightarrow> bus \<Rightarrow> bus option" where
  "pmm_dump_bitmap bytes_to_dump p b = do {
     b \<leftarrow> serial_write_string (lit [CHR 0x0D, CHR 0x0A] @ lit ''=== PMM BITMAP DUMP ==='' @ lit [CHR 0x0D, CHR 0x0A] @ [0]) b;
     b \<leftarrow> serial_write_string (lit ''Legend: [#] Used/Reserved  [.] Free'' @ lit [CHR 0x0D, CHR 0x0A, CHR 0x0A] @ [0]) b;
     b \<leftarrow> for_upto 0 (min (unat bytes_to_dump) (length (bitmap p))) (\<lambda>i b. do {
       b \<leftarrow> (if i mod 8 = 0 then do {
               b \<leftarrow> serial_write_string (lit [CHR 0x0D, CHR 0x0A] @ [0]) b;
               b \<leftarrow> print_hex (of_nat (i * 8 * PAGE_SIZE)) b;
               serial_write_string (lit '' | '' @ [0]) b } else Some b);
       byte \<leftarrow> rd (bitmap p) i;
       b \<leftarrow> for_upto 0 8 (\<lambda>j b. serial_write_char (if byte AND push_bit j 1 \<noteq> 0 then 35 else 46) b) b;
       serial_write_char 32 b }) b;
     serial_write_string (lit [CHR 0x0D, CHR 0x0A, CHR 0x0D, CHR 0x0A] @ lit ''======================='' @ lit [CHR 0x0D, CHR 0x0A] @ [0]) b }"

definition mmu_view_mappings :: "mm \<Rightarrow> bus \<Rightarrow> bus option" where
  "mmu_view_mappings m b = do {
     b \<leftarrow> serial_write_string (lit [CHR 0x0D, CHR 0x0A] @ lit ''=== ACTIVE MEMORY MAPPINGS ==='' @ lit [CHR 0x0D, CHR 0x0A] @ [0]) b;
     f \<leftarrow> translate m (page_addr (kernel_directory m));
     b \<leftarrow> for_upto 0 1024 (\<lambda>i b. do {
       pde \<leftarrow> rd (frames m f) i;
       if entry_present pde then do {
         let start_addr = (of_nat (i * 4 * 1024 * 1024) :: u32);
         let end_addr = start_addr + (4 * 1024 * 1024 - 1);
         b \<leftarrow> serial_write_string (lit ''Range: '' @ [0]) b;
         b \<leftarrow> print_hex start_addr b;
         b \<leftarrow> serial_write_string (lit '' - '' @ [0]) b;
         b \<leftarrow> print_hex end_addr b;
         b \<leftarrow> serial_write_string (lit (if bit pde 2 then '' [USER] '' else '' [KERNEL] '') @ [0]) b;
         serial_write_string (lit (if bit pde 1 then ''R/W'' else ''R-O'') @ lit [CHR 0x0D, CHR 0x0A] @ [0]) b }
       else Some b }) b;
     serial_write_string (lit ''==============================='' @ lit [CHR 0x0D, CHR 0x0A] @ [0]) b }"

section \<open>Exceptions\<close>

definition exception_messages :: "string list" where
  "exception_messages = [''Division By Zero'', ''Debug'', ''Non Maskable Interrupt'', ''Breakpoint'',
     ''Overflow'', ''Bound Range Exceeded'', ''Invalid Opcode'', ''Device Not Available'',
     ''Double Fault'', ''Coprocessor Segment Overrun'', ''Invalid TSS'', ''Segment Not Present'',
     ''Stack-Segment Fault'', ''General Protection Fault'', ''Page Fault'', ''Reserved'',
     ''x87 Floating-Point Exception'', ''Alignment Check'', ''Machine Check'',
     ''SIMD Floating-Point Exception'', ''Virtualization Exception'', ''Control Protection Exception'',
     ''Reserved'', ''Reserved'', ''Reserved'', ''Reserved'', ''Reserved'', ''Reserved'',
     ''Hypervisor Injection Exception'', ''VMM Communication Exception'', ''Security Exception'', ''Reserved'']"

text \<open>The report of a page fault that is not resolved, before the halt.\<close>

definition page_fault_report :: "u32 \<Rightarrow> u32 \<Rightarrow> kernel \<Rightarrow> kernel option" where
  "page_fault_report error_code fault_addr k = do {
     let nl = [CHR 0x0D, CHR 0x0A];
     k \<leftarrow> serial_puts nl k;
     k \<leftarrow> serial_puts (sgr ''91'') k;
     k \<leftarrow> serial_puts ''[PANIC] PAGE FAULT DETECTED!'' k;
     k \<leftarrow> serial_puts nl k;
     k \<leftarrow> serial_puts (sgr ''0'') k;
     k \<leftarrow> serial_puts ''Faulting Address : '' k;
     k \<leftarrow> on_bus (print_hex fault_addr) k;
     k \<leftarrow> serial_puts nl k;
     k \<leftarrow> serial_puts ''Reason           : '' k;
     k \<leftarrow> serial_puts (if error_code AND 1 = 0 then ''Page not present (OOM)'' else ''Protection violation'') k;
     serial_puts (if error_code AND 2 \<noteq> 0 then '' on Write'' @ nl else '' on READ'' @ nl) k }"

text \<open>\<open>cr2\<close> is the faulting address the processor reports.\<close>

definition isr_handler :: "u32 \<Rightarrow> u32 \<Rightarrow> u32 \<Rightarrow> kernel \<Rightarrow> outcome option" where
  "isr_handler int_no err_code cr2 k =
     (if int_no < 32 then do {
        k \<leftarrow> prints ''EXCEPTION: '' k;
        msg \<leftarrow> rd exception_messages (unat int_no);
        k \<leftarrow> prints msg k;
        k \<leftarrow> prints [CHR 0x0A] k;
        if int_no = 14 then
          (case mmu_handle_page_fault err_code cr2 (k_mm k) of
             Some m \<Rightarrow> Some (Running (set_mm m k))
           | None \<Rightarrow> do { k \<leftarrow> page_fault_report err_code cr2 k; Some (Halted k) })
        else do { k \<leftarrow> on_bus (KPANIC msg) k; Some (Halted k) } }
      else Some (Running k))"

section \<open>Memory accesses\<close>

text \<open>
  An access to a page that is not mapped raises exception 14 with an error code whose bit 1 says
  whether it writes; when the handler returns, the access is made again. A mapping the processor
  could not use for the access does not occur: the kernel runs in ring 0 with write protection off.
\<close>

definition touch :: "u32 \<Rightarrow> bool \<Rightarrow> kernel \<Rightarrow> outcome option" where
  "touch addr write k = (case translate (k_mm k) addr of
     Some f \<Rightarrow> Some (Running k)
   | None \<Rightarrow> isr_handler 14 (if write then 2 else 0) addr k)"

definition load_byte :: "u32 \<Rightarrow> mm \<Rightarrow> byte option" where
  "load_byte addr m = do {
     f \<leftarrow> translate m addr;
     w \<leftarrow> rd (frames m f) (unat addr mod 4096 div 4);
     Some (ucast (drop_bit (8 * (unat addr mod 4)) w)) }"

definition store_byte :: "u32 \<Rightarrow> byte \<Rightarrow> mm \<Rightarrow> mm option" where
  "store_byte addr v m = do {
     f \<leftarrow> translate m addr;
     w \<leftarrow> rd (frames m f) (unat addr mod 4096 div 4);
     let s = 8 * (unat addr mod 4);
     ws \<leftarrow> wr (frames m f) (unat addr mod 4096 div 4)
            ((w AND NOT (push_bit s 0xFF)) OR push_bit s (ucast v));
     Some (m\<lparr>frames := (frames m)(f := ws)\<rparr>) }"

text \<open>The terminal's hexadecimal output of a word.\<close>

definition print_hex_term :: "u32 \<Rightarrow> kernel \<Rightarrow> kernel option" where
  "print_hex_term v = on_term (terminal_print_hex (replicate 11 0) v)"

definition mmu_debug_peek :: "u32 \<Rightarrow> kernel \<Rightarrow> outcome option" where
  "mmu_debug_peek addr k = do {
     let nl = [CHR 0x0D, CHR 0x0A];
     k \<leftarrow> serial_puts (nl @ ''[DEBUG] Peeking at '') k;
     k \<leftarrow> on_bus (print_hex addr) k;
     k \<leftarrow> serial_puts (''...'' @ nl) k;
     cont (touch addr False k) (\<lambda>k. do {
       v \<leftarrow> load_byte addr (k_mm k);
       k \<leftarrow> prints ''Value found : '' k;
       k \<leftarrow> print_hex_term (ucast v) k;
       k \<leftarrow> prints [CHR 0x0A] k;
       k \<leftarrow> serial_puts ''Value found: '' k;
       k \<leftarrow> on_bus (print_hex (ucast v)) k;
       runs (serial_puts nl k) }) }"

definition mmu_debug_poke :: "u32 \<Rightarrow> byte \<Rightarrow> kernel \<Rightarrow> outcome option" where
  "mmu_debug_poke addr v k =
     cont (touch addr True k) (\<lambda>k. do {
       let nl = [CHR 0x0D, CHR 0x0A];
       m \<leftarrow> store_byte addr v (k_mm k);
       k \<leftarrow> prints ''Wrote '' (set_mm m k);
       k \<leftarrow> print_hex_term (ucast v) k;
       k \<leftarrow> prints '' at '' k;
       k \<leftarrow> print_hex_term addr k;
       k \<leftarrow> prints [CHR 0x0A] k;
       k \<leftarrow> serial_puts (nl @ ''[DEBUG] Poked '') k;
       k \<leftarrow> on_bus (print_hex (ucast v)) k;
       k \<leftarrow> serial_puts '' at '' k;
       k \<leftarrow> on_bus (print_hex addr) k;
       runs (serial_puts nl k) })"

section \<open>The shape of the state\<close>

definition is_name :: "buf \<Rightarrow> bool" where
  "is_name b \<longleftrightarrow> length b = 64 \<and> 0 \<in> set b"

definition kernel_ok :: "kernel \<Rightarrow> bool" where
  "kernel_ok k \<longleftrightarrow> term_ok (k_term k) \<and> history_ok (k_hist k) \<and> is_line (k_buffer k) \<and>
     0 \<le> k_pos k \<and> k_pos k \<le> int (length (cstring (k_buffer k))) \<and> is_name (k_user k) \<and> is_name (k_os k) \<and>
     uart_live (k_bus k) \<and> mm_ok (k_mm k)"

lemma kernel_ok_term: "kernel_ok k \<Longrightarrow> term_ok t \<Longrightarrow> kernel_ok (k\<lparr>k_term := t\<rparr>)"
  by (simp add: kernel_ok_def)

lemma kernel_ok_bus: "kernel_ok k \<Longrightarrow> uart_live b \<Longrightarrow> kernel_ok (k\<lparr>k_bus := b\<rparr>)"
  by (simp add: kernel_ok_def)

text \<open>Output changes the terminal or the bus only: the rest of the state is the same.\<close>

definition same_but_term :: "kernel \<Rightarrow> kernel \<Rightarrow> bool" where
  "same_but_term k k' \<longleftrightarrow> (\<exists>t. k' = k\<lparr>k_term := t\<rparr> \<and> (term_ok (k_term k) \<longrightarrow> term_ok t))"

lemma same_but_term_refl [simp]: "same_but_term k k"
  unfolding same_but_term_def by (rule exI [of _ "k_term k"]) simp

lemma same_but_term_trans: "same_but_term k k1 \<Longrightarrow> same_but_term k1 k2 \<Longrightarrow> same_but_term k k2"
  by (auto simp: same_but_term_def)

lemma same_but_term_ok: "same_but_term k k' \<Longrightarrow> kernel_ok k \<Longrightarrow> kernel_ok k'"
  by (auto simp: same_but_term_def kernel_ok_def)

lemma same_but_term_simps:
  "same_but_term k k' \<Longrightarrow> k_hist k' = k_hist k \<and> k_buffer k' = k_buffer k \<and> k_pos k' = k_pos k \<and>
     k_user k' = k_user k \<and> k_os k' = k_os k \<and> k_timer k' = k_timer k \<and> k_heap k' = k_heap k \<and> k_bus k' = k_bus k"
  by (auto simp: same_but_term_def)

lemma on_term_ok:
  assumes "kernel_ok k" "\<And>t. term_ok t \<Longrightarrow> \<exists>t'. f t = Some t' \<and> term_ok t'"
  shows "\<exists>k'. on_term f k = Some k' \<and> kernel_ok k' \<and> same_but_term k k'"
proof -
  obtain t where "f (k_term k) = Some t" "term_ok t" using assms by (auto simp: kernel_ok_def)
  then show ?thesis using assms(1) by (auto simp: on_term_def same_but_term_def kernel_ok_term)
qed

lemma writestring_ok:
  "kernel_ok k \<Longrightarrow> str_at s p cs \<Longrightarrow>
   \<exists>k'. on_term (terminal_writestring s p) k = Some k' \<and> kernel_ok k' \<and> same_but_term k k'"
  by (rule on_term_ok) (simp_all add: terminal_writestring_puts vga.puts_ok)

lemma str_at_lit: "0 \<notin> set (lit s) \<Longrightarrow> str_at (lit s @ [0]) 0 (lit s)"
  using str_at_intro [of "lit s" "[]" 0 "[]"] by simp

lemma prints_ok:
  "kernel_ok k \<Longrightarrow> 0 \<notin> set (lit s) \<Longrightarrow> \<exists>k'. prints s k = Some k' \<and> kernel_ok k' \<and> same_but_term k k'"
  unfolding prints_def by (rule writestring_ok [OF _ str_at_lit])

lemma putc_ok: "kernel_ok k \<Longrightarrow> \<exists>k'. putc c k = Some k' \<and> kernel_ok k' \<and> same_but_term k k'"
  unfolding putc_def by (rule on_term_ok) (simp_all add: terminal_putchar_ok)

interpretation kcon: console putc kernel_ok
  by unfold_locales (use putc_ok in blast)

lemma serial_puts_ok:
  assumes "kernel_ok k" "0 \<notin> set (lit s)"
  shows "\<exists>b. serial_puts s k = Some (k\<lparr>k_bus := b\<rparr>) \<and> sent (k_bus k) (lit s) b \<and> uart_live b"
proof -
  have u: "uart_live (k_bus k)" using assms by (simp add: kernel_ok_def)
  obtain b where "serial_write_string (lit s @ [0]) (k_bus k) = Some b" "sent (k_bus k) (lit s) b"
    using serial_write_string_sent [OF u str_at_lit [OF assms(2)]] by blast
  then show ?thesis using sent_live u by (auto simp: serial_puts_def on_bus_def)
qed

section \<open>Peek after poke\<close>

lemma byte_mask: "(0xFF :: u32) = mask 8"
  by (simp add: mask_eq_exp_minus_1)

lemma byte_in_word:
  assumes "s = 8 * a" "t = 8 * b" "a < 4" "b < 4"
  shows "(ucast (drop_bit t ((w AND NOT (push_bit s 0xFF)) OR push_bit s (ucast v) :: u32)) :: byte) =
    (if s = t then v else ucast (drop_bit t w))"
proof (rule bit_word_eqI)
  fix n assume "n < LENGTH(8)"
  then have n: "n < 8" by simp
  show "bit (ucast (drop_bit t ((w AND NOT (push_bit s 0xFF)) OR push_bit s (ucast v) :: u32)) :: byte) n \<longleftrightarrow>
      bit (if s = t then v else ucast (drop_bit t w)) n"
  proof (cases "a = b")
    case True
    then show ?thesis using n assms unfolding byte_mask by (auto simp: bit_simps)
  next
    case False
    then have "s \<le> t + n \<longrightarrow> 8 \<le> t + n - s" using n assms by linarith
    then show ?thesis using n assms False unfolding byte_mask
      by (auto simp: bit_simps dest: bit_imp_le_length)
  qed
qed

lemma mod_4096_4: "x mod 4096 mod 4 = x mod (4 :: nat)"
  by (rule mod_mod_cancel) simp

lemma load_store_byte:
  assumes ok: "mm_ok m" and f: "translate m a = Some f" "data_frame m f"
  shows "\<exists>m'. store_byte a v m = Some m' \<and> mm_ok m' \<and> (\<exists>ws. m' = m\<lparr>frames := (frames m)(f := ws)\<rparr>) \<and> load_byte a m' = Some v \<and>
    (\<forall>b g. translate m b = Some g \<longrightarrow> g \<noteq> f \<or> unat b mod 4096 \<noteq> unat a mod 4096 \<longrightarrow>
       load_byte b m' = load_byte b m) \<and> (\<forall>b. translate m' b = translate m b)"
proof -
  let ?i = "unat a mod 4096 div 4" and ?s = "8 * (unat a mod 4)"
  have len: "length (frames m g) = 1024" for g using ok by (simp add: mm_ok_def)
  have ib: "unat x mod 4096 div 4 < 1024" for x :: u32 by (simp add: less_mult_imp_div_less)
  define w where "w = (frames m f ! ?i AND NOT (push_bit ?s 0xFF)) OR push_bit ?s (ucast v)"
  let ?m = "m\<lparr>frames := (frames m)(f := (frames m f)[?i := w])\<rparr>"
  have st: "store_byte a v m = Some ?m" using f(1) len ib by (simp add: store_byte_def w_def Let_def)
  have tr: "translate ?m b = translate m b" for b using translate_data [OF ok f(2)] len by simp
  have mok: "mm_ok ?m" using ok f(2) len by (simp add: mm_ok_def data_frame_def)
  have at: "load_byte b ?m = (if g = f \<and> unat b mod 4096 = unat a mod 4096 then Some v else load_byte b m)"
    if g: "translate m b = Some g" for b g
  proof (cases "g = f \<and> unat b mod 4096 div 4 = ?i")
    case True
    have "(ucast (drop_bit (8 * (unat b mod 4)) w) :: byte) =
        (if ?s = 8 * (unat b mod 4) then v else ucast (drop_bit (8 * (unat b mod 4)) (frames m f ! ?i)))"
      unfolding w_def by (rule byte_in_word [OF refl refl]) (rule mod_less_divisor, simp)+
    moreover have "load_byte b ?m = Some (ucast (drop_bit (8 * (unat b mod 4)) w))"
      "load_byte b m = Some (ucast (drop_bit (8 * (unat b mod 4)) (frames m f ! ?i)))"
      using True g tr [of b] len ib [of a] by (simp_all add: load_byte_def)
    moreover have "unat b mod 4096 = unat a mod 4096 \<longleftrightarrow> unat b mod 4 = unat a mod 4"
      using True mod_4096_4 by (metis div_mult_mod_eq)
    ultimately show ?thesis using True by auto
  next
    case False
    then show ?thesis using g tr [of b] len ib [of b] by (auto simp: load_byte_def)
  qed
  show ?thesis using st tr mok at f(1) by (intro exI [of _ ?m]) auto
qed

section \<open>Properties\<close>

text \<open>A kernel after start-up, before the heap is set up.\<close>

definition example_kernel :: kernel where
  "example_kernel = \<lparr>k_term = boot_terminal, k_hist = history_zero, k_buffer = replicate 256 0, k_pos = 0,
     k_user = lit ''root'' @ replicate 60 0, k_os = lit ''auri-os'' @ replicate 57 0,
     k_timer = \<lparr>tick = 3725000, frequency = 1000\<rparr>,
     k_heap = \<lparr>hmm = boot_mm, heap_end = 0, head = 0, headers = Map.empty\<rparr>, k_bus = example_bus\<rparr>"

lemma example_kernel_ok: "kernel_ok example_kernel"
  by (simp add: kernel_ok_def example_kernel_def boot_terminal_ok history_zero_ok is_line_def is_name_def
      example_bus_live boot_mm_facts lit_def)

lemma example_kernel_memory:
  "translate (k_mm example_kernel) 0x00200004 = Some 512" "data_frame (k_mm example_kernel) 512"
  "512 \<notin> own_pages (phys (k_mm example_kernel))"
proof -
  have m: "k_mm example_kernel = boot_mm" by (simp add: example_kernel_def)
  show "translate (k_mm example_kernel) 0x00200004 = Some 512" unfolding m by (rule boot_mm_facts(7))
  show "data_frame (k_mm example_kernel) 512" unfolding m data_frame_def using boot_mm_facts(4) boot_mm_facts(5) by force
  show "512 \<notin> own_pages (phys (k_mm example_kernel))" unfolding m boot_mm_facts(8)
    by (simp add: own_pages_def example_pmm_def)
qed

end
