(* ===== verification/Commands.thy ===== *)
theory Commands
  imports Machine C_Integer
begin

text \<open>
  The shell's commands, src/commands/*.c, and \<open>print_unit\<close> of src/kernel/shell.c. A command gets the
  strings of its arguments as offsets into the shell's line buffer, where \<open>shell_parse\<close> left them.
\<close>

section \<open>The code\<close>

abbreviation nl :: string where "nl \<equiv> [CHR 0x0A]"

definition streq :: "buf \<Rightarrow> nat \<Rightarrow> string \<Rightarrow> bool option" where
  "streq b p s = do { r \<leftarrow> strcmp b p (lit s @ [0]) 0; Some (r = 0) }"

definition print_unit :: "u32 \<Rightarrow> string \<Rightarrow> int \<Rightarrow> kernel \<Rightarrow> kernel option" where
  "print_unit val unit new_line k = do {
     out_buf \<leftarrow> itoa (sint val) (replicate 32 0);
     k \<leftarrow> on_term (terminal_writestring out_buf 0) k;
     k \<leftarrow> prints unit k;
     if new_line = 1 then prints nl k else Some k }"

definition help_command :: "kernel \<Rightarrow> kernel option" where
  "help_command k = do {
     k \<leftarrow> prints (nl @ ''help  - show this command'' @ nl) k;
     k \<leftarrow> prints (''fetch   - show informations about AuriOS'' @ nl) k;
     k \<leftarrow> prints (''clear   - clear the terminal (can be done with CTRL + L)'' @ nl) k;
     k \<leftarrow> prints (''uptime  - show uptime since machine started'' @ nl @ ''           -h for options help'' @ nl) k;
     k \<leftarrow> prints (''memdump - print the PMM Bitmap in the log'' @ nl) k;
     k \<leftarrow> prints (''memtest - allocate/free on the kernel heap (heap self-test)'' @ nl) k;
     k \<leftarrow> prints (''mia     - force a Page Fault for MMU testing'' @ nl) k;
     k \<leftarrow> prints (''mmap    - print current virtual memory mappings'' @ nl) k;
     k \<leftarrow> prints (''peek    - read and print memory at a given hex address'' @ nl) k;
     k \<leftarrow> prints (''poke    - write a hex byte at a given hex address'' @ nl) k;
     k \<leftarrow> prints (''echo    - repeats your input to the console'' @ nl) k;
     k \<leftarrow> prints (''reboot  - restart the machine'' @ nl) k;
     k \<leftarrow> prints (''exit    - shut the machine down (QEMU/Bochs)'' @ nl) k;
     k \<leftarrow> prints (''crash   - make the machine freeze (fun cmd)'' @ nl @ nl) k;
     prints (''setprompt - set the shell prompt (<user>, <os> placeholders; no arg prints current)'' @ nl @ nl) k }"

text \<open>The pieces of src/include/colors.h and src/include/fetch.h the command concatenates.\<close>

definition COLOR_WHITE_BRIGHT :: string where "COLOR_WHITE_BRIGHT = sgr ''97''"
definition COLOR_CYAN_BRIGHT :: string where "COLOR_CYAN_BRIGHT = sgr ''96''"
definition COLOR_BLUE_BRIGHT :: string where "COLOR_BLUE_BRIGHT = sgr ''94''"
definition COLOR_GREEN_BRIGHT :: string where "COLOR_GREEN_BRIGHT = sgr ''92''"
definition COLOR_RED_BRIGHT :: string where "COLOR_RED_BRIGHT = sgr ''91''"
definition COLOR_RESET :: string where "COLOR_RESET = sgr ''0''"

definition bg_color :: string where
  "bg_color = sgr ''41'' @ ''  '' @ sgr ''42'' @ ''  '' @ sgr ''43'' @ ''  '' @ sgr ''44'' @ ''  '' @ sgr ''45'' @
     ''  '' @ sgr ''46'' @ ''  '' @ sgr ''47'' @ ''  '' @ COLOR_RESET"

definition bg_color_bright :: string where
  "bg_color_bright = sgr ''101'' @ ''  '' @ sgr ''102'' @ ''  '' @ sgr ''103'' @ ''  '' @ sgr ''104'' @ ''  '' @
     sgr ''105'' @ ''  '' @ sgr ''106'' @ ''  '' @ sgr ''107'' @ ''  '' @ COLOR_RESET"

definition fetch_user :: string where
  "fetch_user = COLOR_RED_BRIGHT @ ''root'' @ COLOR_CYAN_BRIGHT @ ''@'' @ COLOR_WHITE_BRIGHT @ ''auri-os'' @ COLOR_RESET"

definition fetch :: "kernel \<Rightarrow> kernel option" where
  "fetch k = do {
     let W = COLOR_WHITE_BRIGHT; let C = COLOR_CYAN_BRIGHT; let B = COLOR_BLUE_BRIGHT; let R = COLOR_RESET;
     k \<leftarrow> prints (nl @ ''          '' @ W @ ''.**.'' @ R @ ''                 '' @ nl) k;
     k \<leftarrow> prints (''         '' @ W @ ''.'' @ C @ ''='' @ B @ ''###'' @ W @ ''.'' @ R @ ''             '' @ fetch_user @ nl) k;
     k \<leftarrow> prints (''        '' @ W @ ''.'' @ C @ ''=='' @ W @ ''.'' @ B @ ''##%'' @ W @ ''.'' @ R @ ''            --------------'' @ nl) k;
     k \<leftarrow> prints (''       '' @ W @ ''.'' @ C @ ''==='' @ W @ ''.'' @ B @ ''###'' @ W @ ''.'' @ R @ ''            '' @ ''OS: AuriOS'' @ nl) k;
     k \<leftarrow> prints (''      '' @ W @ ''.'' @ C @ ''====='' @ B @ ''###'' @ W @ ''.'' @ R @ ''            '' @ ''Version: 0.2.2'' @ nl) k;
     k \<leftarrow> prints (''     '' @ W @ ''.'' @ C @ ''======'' @ W @ ''.'' @ B @ ''###'' @ W @ ''.'' @ R @ ''           '' @ ''Release: 9-03-26'' @ nl) k;
     k \<leftarrow> prints (''    '' @ W @ ''.'' @ C @ ''======'' @ W @ ''..'' @ B @ ''###'' @ W @ ''.'' @ R @ ''         '' @ nl) k;
     k \<leftarrow> prints (''   '' @ W @ ''.===.    .'' @ B @ ''###'' @ W @ ''.'' @ R @ ''           '' @ bg_color_bright @ nl) k;
     k \<leftarrow> prints (''             '' @ W @ ''.***.'' @ R @ ''          '' @ bg_color @ nl @ nl) k;
     prints (''Type '' @ [CHR 0x27] @ ''help'' @ [CHR 0x27] @ '' for available commands'' @ nl @ nl) k }"

definition crash :: "kernel \<Rightarrow> outcome option" where
  "crash k = Some (Halted k)"

text \<open>\<open>while (inb(0x64) & 0x02);\<close>\<close>

partial_function (option) keyboard_controller_wait :: "bus \<Rightarrow> bus option" where
  "keyboard_controller_wait b = (case port_in 0x64 b of (v, b') \<Rightarrow>
     if v AND 0x02 \<noteq> 0 then keyboard_controller_wait b' else Some b')"

definition reboot :: "kernel \<Rightarrow> outcome option" where
  "reboot k = do {
     k \<leftarrow> prints (''Rebooting...'' @ nl) k;
     k \<leftarrow> on_bus keyboard_controller_wait k;
     k \<leftarrow> on_bus (\<lambda>b. Some (port_out 0x64 0xFE b)) k;
     Some (Halted k) }"

definition poweroff :: "kernel \<Rightarrow> outcome option" where
  "poweroff k = do {
     k \<leftarrow> prints (''Powering off...'' @ nl) k;
     k \<leftarrow> on_bus (\<lambda>b. Some (port_outw 0x604 0x2000 b)) k;
     k \<leftarrow> on_bus (\<lambda>b. Some (port_outw 0xB004 0x2000 b)) k;
     Some (Halted k) }"

definition mia :: "kernel \<Rightarrow> outcome option" where
  "mia k = do {
     k \<leftarrow> prints nl k;
     k \<leftarrow> on_bus (KINFO ''[TEST] Attempting to read unmapped memory at 10 MB...'') k;
     cont (touch 0x00A00000 False k) (\<lambda>k.
       runs (on_bus (KPANIC ''MMU failed to block unmapped memory access!'') k)) }"

definition memdump :: "nat list \<Rightarrow> kernel \<Rightarrow> kernel option" where
  "memdump args k =
     (if length args \<noteq> 2 then prints (''usage: memdump <size>'' @ nl) k
      else do {
        p \<leftarrow> rd args 1;
        sz \<leftarrow> atoi (k_buffer k) p;
        if sz < 1 \<or> sz > 16384 then prints (''memdump: size must be between 1-16384'' @ nl) k
        else on_bus (pmm_dump_bitmap (word_of_int sz) (phys (k_mm k))) k })"

definition peek :: "nat list \<Rightarrow> kernel \<Rightarrow> outcome option" where
  "peek args k =
     (if length args \<noteq> 2 then runs (prints (''usage: peek <hex address>'' @ nl) k)
      else do {
        p \<leftarrow> rd args 1;
        addr \<leftarrow> htoi (k_buffer k) p;
        mmu_debug_peek addr k })"

definition poke :: "nat list \<Rightarrow> kernel \<Rightarrow> outcome option" where
  "poke args k =
     (if length args \<noteq> 3 then runs (prints (''usage: poke <hex address> <hex value>'' @ nl) k)
      else do {
        p \<leftarrow> rd args 1;
        addr \<leftarrow> htoi (k_buffer k) p;
        q \<leftarrow> rd args 2;
        v \<leftarrow> htoi (k_buffer k) q;
        mmu_debug_poke addr (ucast v) k })"

text \<open>
  Bytes of the heap. \<open>strlcpy (a, "heap ok", 8)\<close> fills the eight bytes at \<open>a\<close>, and printing \<open>a\<close> reads
  them back; an allocation is aligned to eight bytes, so the eight lie in one page.
\<close>

primrec store_bytes :: "u32 \<Rightarrow> buf \<Rightarrow> mm \<Rightarrow> mm option" where
  "store_bytes a [] m = Some m" |
  "store_bytes a (c # cs) m = do { m' \<leftarrow> store_byte a c m; store_bytes (a + 1) cs m' }"

primrec load_bytes :: "u32 \<Rightarrow> nat \<Rightarrow> mm \<Rightarrow> buf option" where
  "load_bytes a 0 m = Some []" |
  "load_bytes a (Suc n) m = do { c \<leftarrow> load_byte a m; cs \<leftarrow> load_bytes (a + 1) n m; Some (c # cs) }"

definition memtest :: "kernel \<Rightarrow> outcome option" where
  "memtest k = do {
     (h, a) \<leftarrow> malloc 32 (k_heap k);
     (h, b) \<leftarrow> malloc 100 h;
     cs \<leftarrow> strlcpy (replicate 8 0) 0 (lit ''heap ok'' @ [0]) 0 8;
     cont (touch a True (k\<lparr>k_heap := h\<rparr>)) (\<lambda>k. do {
       m \<leftarrow> store_bytes a cs (k_mm k);
       k \<leftarrow> prints (nl @ ''alloc a: '') (set_mm m k);
       s \<leftarrow> load_bytes a 8 (k_mm k);
       k \<leftarrow> on_term (terminal_writestring s 0) k;
       h \<leftarrow> free a (k_heap k);
       (h, c) \<leftarrow> malloc 16 h;
       k \<leftarrow> prints (nl @ ''reuse : '') (k\<lparr>k_heap := h\<rparr>);
       k \<leftarrow> print_unit c ''(addr)'' 1 k;
       h \<leftarrow> free b (k_heap k);
       h \<leftarrow> free c h;
       Some (Running (k\<lparr>k_heap := h\<rparr>)) }) }"

text \<open>The options before the words, \<open>Some None\<close> when \<open>-h\<close> has been met.\<close>

function echo_opts :: "buf \<Rightarrow> nat list \<Rightarrow> nat \<Rightarrow> bool \<Rightarrow> (nat \<times> bool) option option" where
  "echo_opts b args j skip_newline =
     (if j < length args then do {
        p \<leftarrow> rd args j;
        c \<leftarrow> rd b p;
        if c = 45 then do {
          n \<leftarrow> streq b p ''-n'';
          if n then echo_opts b args (j + 1) True
          else do {
            h \<leftarrow> streq b p ''-h'';
            if h then Some None else Some (Some (j, skip_newline)) } }
        else Some (Some (j, skip_newline)) }
      else Some (Some (j, skip_newline)))"
  by pat_completeness auto
termination
  by (relation "measure (\<lambda>(b, args, j, s). length args - j)") auto

declare echo_opts.simps [simp del]

definition echo :: "nat list \<Rightarrow> kernel \<Rightarrow> kernel option" where
  "echo args k = do {
     r \<leftarrow> echo_opts (k_buffer k) args 1 False;
     (case r of
        None \<Rightarrow> do {
          k \<leftarrow> prints (''echo - repeats your input to the console'' @ nl @ nl) k;
          k \<leftarrow> prints (''-h   - show this command'' @ nl) k;
          k \<leftarrow> prints ''-n   - do not output the trailing new line'' k;
          prints nl k }
      | Some (j, skip_newline) \<Rightarrow> do {
          k \<leftarrow> for_upto j (length args) (\<lambda>i k'. do {
            p \<leftarrow> rd args i;
            k' \<leftarrow> on_term (terminal_writestring (k_buffer k) p) k';
            prints '' '' k' }) k;
          if \<not> skip_newline then prints nl k else Some k }) }"

record uptime_flags =
  raw :: bool
  sec :: bool
  pretty :: bool

function uptime_opts :: "buf \<Rightarrow> nat list \<Rightarrow> nat \<Rightarrow> uptime_flags \<Rightarrow> uptime_flags option option" where
  "uptime_opts b args j f =
     (if j < length args then do {
        p \<leftarrow> rd args j;
        c \<leftarrow> rd b p;
        if c = 45 then do {
          h \<leftarrow> streq b p ''-h'';
          if h then Some None else do {
          r \<leftarrow> streq b p ''-r'';
          if r then uptime_opts b args (j + 1) (f\<lparr>raw := True\<rparr>) else do {
          s \<leftarrow> streq b p ''-s'';
          if s then uptime_opts b args (j + 1) (f\<lparr>sec := True\<rparr>) else do {
          q \<leftarrow> streq b p ''-p'';
          if q then uptime_opts b args (j + 1) (f\<lparr>pretty := True\<rparr>) else Some (Some f) } } } }
        else Some (Some f) }
      else Some (Some f))"
  by pat_completeness auto
termination
  by (relation "measure (\<lambda>(b, args, j, f). length args - j)") auto

declare uptime_opts.simps [simp del]

definition uptime :: "nat list \<Rightarrow> kernel \<Rightarrow> kernel option" where
  "uptime args k = do {
     let ticks = get_tick (k_timer k);
     let total_seconds = ticks div 1000;
     let seconds = total_seconds mod 60;
     let total_minutes = total_seconds div 60;
     let minutes = total_minutes mod 60;
     let hours = total_minutes div 60;
     r \<leftarrow> uptime_opts (k_buffer k) args 1 \<lparr>raw = False, sec = False, pretty = False\<rparr>;
     (case r of
        None \<Rightarrow> do {
          k \<leftarrow> prints (''uptime - show uptime since machine started'' @ nl) k;
          k \<leftarrow> prints (''-h     - show this message'' @ nl) k;
          k \<leftarrow> prints (''-r     - show uptime in miliseconds'' @ nl) k;
          k \<leftarrow> prints (''-s     - show uptime in seconds'' @ nl) k;
          prints (''-p     - show uptime in a pretty format'' @ nl) k }
      | Some f \<Rightarrow>
          if raw f then print_unit ticks ''ms'' 1 k
          else if sec f then print_unit total_seconds ''s'' 1 k
          else if pretty f then do {
            k \<leftarrow> prints (''Current Uptime: '' @ nl) k;
            k \<leftarrow> (if hours \<noteq> 0 then print_unit hours (if hours > 1 then '' hours'' else '' hour'') 1 k else Some k);
            k \<leftarrow> print_unit minutes (if minutes > 1 then '' minutes'' else '' minute'') 1 k;
            k \<leftarrow> print_unit seconds (if seconds > 1 then '' seconds'' else '' second'') 1 k;
            prints nl k }
          else do {
            k \<leftarrow> prints ''Current Uptime: '' k;
            k \<leftarrow> print_unit hours ''h '' 0 k;
            k \<leftarrow> print_unit minutes ''m '' 0 k;
            print_unit seconds ''s'' 1 k }) }"

definition NAME_SIZE :: nat where "NAME_SIZE = 64"

definition PROMPT_TEMPLATE :: string where
  "PROMPT_TEMPLATE = COLOR_WHITE_BRIGHT @ ''['' @ COLOR_RED_BRIGHT @ ''%user%'' @ COLOR_CYAN_BRIGHT @ ''@'' @
     COLOR_WHITE_BRIGHT @ ''%os%'' @ COLOR_RESET @ '' ~'' @ COLOR_WHITE_BRIGHT @ '']'' @ COLOR_GREEN_BRIGHT @
     ''$ '' @ COLOR_RESET"

text \<open>\<open>prompt_match(&s[p], tok)\<close>, \<open>i\<close> the loop's counter.\<close>

function prompt_match :: "buf \<Rightarrow> nat \<Rightarrow> buf \<Rightarrow> nat \<Rightarrow> bool option" where
  "prompt_match s p tok i = (case rd tok i of None \<Rightarrow> None
     | Some t \<Rightarrow> if t = 0 then Some True
         else (case rd s (p + i) of None \<Rightarrow> None
               | Some c \<Rightarrow> if c \<noteq> t then Some False else prompt_match s p tok (i + 1)))"
  by pat_completeness auto
termination
  by (relation "measure (\<lambda>(s, p, tok, i). length tok - i)") (auto simp: rd_Some_conv)

declare prompt_match.simps [simp del]

function render_loop :: "buf \<Rightarrow> nat \<Rightarrow> kernel \<Rightarrow> kernel option" where
  "render_loop fmt i k = (case rd fmt i of None \<Rightarrow> None
     | Some c \<Rightarrow> if c = 0 then Some k
         else (case prompt_match fmt i (lit ''%user%'' @ [0]) 0 of None \<Rightarrow> None
          | Some True \<Rightarrow> (case on_term (terminal_writestring (k_user k) 0) k of None \<Rightarrow> None
              | Some k' \<Rightarrow> render_loop fmt (i + 5 + 1) k')
          | Some False \<Rightarrow> (case prompt_match fmt i (lit ''%os%'' @ [0]) 0 of None \<Rightarrow> None
              | Some True \<Rightarrow> (case on_term (terminal_writestring (k_os k) 0) k of None \<Rightarrow> None
                  | Some k' \<Rightarrow> render_loop fmt (i + 3 + 1) k')
              | Some False \<Rightarrow> (case putc c k of None \<Rightarrow> None
                  | Some k' \<Rightarrow> render_loop fmt (i + 1) k'))))"
  by pat_completeness auto
termination
  by (relation "measure (\<lambda>(fmt, i, k). length fmt - i)") (auto simp: rd_Some_conv)

declare render_loop.simps [simp del]

definition shell_render_prompt :: "kernel \<Rightarrow> kernel option" where
  "shell_render_prompt = render_loop (lit PROMPT_TEMPLATE @ [0]) 0"

definition setprompt :: "nat list \<Rightarrow> kernel \<Rightarrow> kernel option" where
  "setprompt args k =
     (if length args < 2 then prints (''Usage: setprompt <user> <os>'' @ nl) k
      else do {
        p \<leftarrow> rd args 1;
        u \<leftarrow> strlcpy (k_user k) 0 (k_buffer k) p NAME_SIZE;
        let k = k\<lparr>k_user := u\<rparr>;
        if length args \<ge> 3 then do {
          q \<leftarrow> rd args 2;
          v \<leftarrow> strlcpy (k_os k) 0 (k_buffer k) q NAME_SIZE;
          Some (k\<lparr>k_os := v\<rparr>) }
        else Some k })"

end
