(* ===== verification/Shell.thy ===== *)
theory Shell
  imports Commands
begin

text \<open>
  src/kernel/shell.c: the line editor, the completion of command names, the parser of the line and the
  dispatch to the commands. The line is \<open>k_buffer\<close>, the cursor's place in it \<open>k_pos\<close>, an \<open>int\<close> as in the
  source, checked at every access. \<open>print_unit\<close> is with the commands that use it.
\<close>

definition BUFFER_SIZE :: nat where "BUFFER_SIZE = 256"
definition MAX_CMD_ARGS :: nat where "MAX_CMD_ARGS = 16"

definition command_list :: "string list" where
  "command_list = [''help'', ''fetch'', ''clear'', ''uptime'', ''memdump'', ''memtest'', ''mia'',
     ''mmap'', ''peek'', ''poke'', ''echo'', ''reboot'', ''exit'', ''crash'', ''setprompt'']"

definition shell_init :: "kernel \<Rightarrow> kernel option" where
  "shell_init k = shell_render_prompt (k\<lparr>k_buffer := replicate BUFFER_SIZE 0, k_pos := 0\<rparr>)"

section \<open>Parsing\<close>

text \<open>The inner loops: to the end of a word, and over the spaces behind it.\<close>

function word_end :: "buf \<Rightarrow> nat \<Rightarrow> nat option" where
  "word_end cmd i = do { c \<leftarrow> rd cmd i; if c \<noteq> 0 \<and> c \<noteq> 32 then word_end cmd (Suc i) else Some i }"
  by pat_completeness auto
termination
  by (relation "measure (\<lambda>(cmd, i). length cmd - i)") (auto simp: rd_Some_conv)

function skip_spaces :: "buf \<Rightarrow> nat \<Rightarrow> nat option" where
  "skip_spaces cmd i = do { c \<leftarrow> rd cmd i; if c = 32 then skip_spaces cmd (Suc i) else Some i }"
  by pat_completeness auto
termination
  by (relation "measure (\<lambda>(cmd, i). length cmd - i)") (auto simp: rd_Some_conv)

function parse_loop :: "buf \<Rightarrow> nat \<Rightarrow> nat list \<Rightarrow> (buf \<times> nat list) option" where
  "parse_loop cmd i args = (case rd cmd i of None \<Rightarrow> None
     | Some c \<Rightarrow>
         if c \<noteq> 0 \<and> length args < MAX_CMD_ARGS then
           (case word_end cmd i of None \<Rightarrow> None
            | Some j \<Rightarrow>
              (case (if cmd ! j = 32 then map_option (\<lambda>b. (b, Suc j)) (wr cmd j 0) else Some (cmd, j)) of
                 None \<Rightarrow> None
               | Some (cmd', j') \<Rightarrow>
                   (case skip_spaces cmd' j' of None \<Rightarrow> None
                    | Some i' \<Rightarrow> parse_loop cmd' i' (args @ [i]))))
         else Some (cmd, args))"
  by pat_completeness auto
termination
  by (relation "measure (\<lambda>(cmd, i, args). MAX_CMD_ARGS - length args)") auto

declare word_end.simps [simp del] skip_spaces.simps [simp del] parse_loop.simps [simp del]

definition shell_parse :: "buf \<Rightarrow> (buf \<times> nat list) option" where
  "shell_parse b = do {
     (b1, cmd) \<leftarrow> str_trim b (Some 0);
     (case cmd of
        None \<Rightarrow> Some (b1, [])
      | Some p \<Rightarrow> do {
          c \<leftarrow> rd b1 p;
          if c = 0 then Some (b1, []) else parse_loop b1 p [] }) }"

section \<open>Dispatch\<close>

definition on_name :: "buf \<Rightarrow> nat \<Rightarrow> string \<Rightarrow> outcome option \<Rightarrow> outcome option \<Rightarrow> outcome option" where
  "on_name b p name run other = do { eq \<leftarrow> streq b p name; if eq then run else other }"

definition shell_dispatch :: "nat list \<Rightarrow> kernel \<Rightarrow> outcome option" where
  "shell_dispatch args k = do {
     cmd_name \<leftarrow> rd args 0;
     let cmd = on_name (k_buffer k) cmd_name;
     cmd ''help'' (runs (help_command k)) (
     cmd ''clear'' (runs (on_term terminal_clear k)) (
     cmd ''fetch'' (runs (fetch k)) (
     cmd ''crash'' (crash k) (
     cmd ''reboot'' (reboot k) (
     cmd ''exit'' (poweroff k) (
     cmd ''uptime'' (runs (uptime args k)) (
     cmd ''echo'' (runs (echo args k)) (
     cmd ''memdump'' (runs (memdump args k)) (
     cmd ''mia'' (mia k) (
     cmd ''mmap'' (runs (on_bus (mmu_view_mappings (k_mm k)) k)) (
     cmd ''peek'' (peek args k) (
     cmd ''poke'' (poke args k) (
     cmd ''memtest'' (memtest k) (
     cmd ''setprompt'' (runs (setprompt args k)) (do {
       k \<leftarrow> prints ''command not found: '' k;
       k \<leftarrow> on_term (terminal_writestring (k_buffer k) cmd_name) k;
       runs (putc 10 k) }))))))))))))))) }"

definition shell_execute :: "kernel \<Rightarrow> outcome option" where
  "shell_execute k = do {
     h \<leftarrow> history_push (k_hist k) (Some (k_buffer k, 0));
     (b, args) \<leftarrow> shell_parse (k_buffer k);
     let k = k\<lparr>k_hist := h, k_buffer := b\<rparr>;
     if args = [] then Some (Running k) else shell_dispatch args k }"

section \<open>Completion\<close>

function recognition_loop :: "buf \<Rightarrow> buf \<Rightarrow> nat \<Rightarrow> nat option" where
  "recognition_loop a b i = do {
     x \<leftarrow> rd a i;
     if x = 0 then Some i else do {
     y \<leftarrow> rd b i;
     if y \<noteq> 0 \<and> x = y then recognition_loop a b (Suc i) else Some i } }"
  by pat_completeness auto
termination
  by (relation "measure (\<lambda>(a, b, i). length a - i)") (auto simp: rd_Some_conv)

declare recognition_loop.simps [simp del]

definition command_recognition :: "string \<Rightarrow> string \<Rightarrow> int option" where
  "command_recognition a b = map_option int (recognition_loop (lit a @ [0]) (lit b @ [0]) 0)"

text \<open>\<open>while (i < buffer_pos) if (buffer[i++] == ' ') return\<close>: whether it returns.\<close>

function has_space :: "buf \<Rightarrow> nat \<Rightarrow> nat \<Rightarrow> bool option" where
  "has_space b i n = (if i < n then do {
       c \<leftarrow> rd b i;
       if c = 32 then Some True else has_space b (Suc i) n }
     else Some False)"
  by pat_completeness auto
termination
  by (relation "measure (\<lambda>(b, i, n). n - i)") auto

declare has_space.simps [simp del]

text \<open>One round of the loop over \<open>command_list\<close>: the matches so far and the length of their common prefix.\<close>

definition match_step :: "buf \<Rightarrow> int \<Rightarrow> string \<Rightarrow> string list \<times> int \<Rightarrow> (string list \<times> int) option" where
  "match_step b prefix_len cmd s = (case s of (matches, lcp) \<Rightarrow> do {
     r \<leftarrow> strncmp (lit cmd @ [0]) 0 b 0 (nat prefix_len);
     if r = 0 then do {
       let matches = (if length matches < 32 then matches @ [cmd] else matches);
       lcp \<leftarrow> (if lcp < 0 then map_option int (strlen (lit cmd @ [0]) 0)
              else do {
                first \<leftarrow> rd matches 0;
                c \<leftarrow> command_recognition first cmd;
                Some (if c < lcp then c else lcp) });
       Some (matches, lcp) }
     else Some (matches, lcp) })"

primrec match_loop :: "buf \<Rightarrow> int \<Rightarrow> string list \<Rightarrow> string list \<times> int \<Rightarrow> (string list \<times> int) option" where
  "match_loop b prefix_len [] s = Some s" |
  "match_loop b prefix_len (cmd # cmds) s = do { s' \<leftarrow> match_step b prefix_len cmd s; match_loop b prefix_len cmds s' }"

function insert_loop :: "buf \<Rightarrow> int \<Rightarrow> int \<Rightarrow> kernel \<Rightarrow> kernel option" where
  "insert_loop text len i k =
     (if i < len \<and> i < int BUFFER_SIZE - 2 then do {
        ch \<leftarrow> rdi text i;
        b \<leftarrow> wri (k_buffer k) i ch;
        k' \<leftarrow> putc ch (k\<lparr>k_buffer := b\<rparr>);
        insert_loop text len (i + 1) k' }
      else Some k)"
  by pat_completeness auto
termination
  by (relation "measure (\<lambda>(text, len, i, k). nat (len - i))") auto

declare insert_loop.simps [simp del]

definition shell_insert_completion :: "string \<Rightarrow> int \<Rightarrow> bool \<Rightarrow> kernel \<Rightarrow> kernel option" where
  "shell_insert_completion text len add_space k = do {
     k \<leftarrow> insert_loop (lit text @ [0]) len (k_pos k) k;
     let k = k\<lparr>k_pos := len\<rparr>;
     b \<leftarrow> wri (k_buffer k) (k_pos k) 0;
     let k = k\<lparr>k_buffer := b\<rparr>;
     if add_space \<and> k_pos k < int BUFFER_SIZE - 1 then do {
       b \<leftarrow> wri (k_buffer k) (k_pos k) 32;
       let k = k\<lparr>k_buffer := b, k_pos := k_pos k + 1\<rparr>;
       b \<leftarrow> wri (k_buffer k) (k_pos k) 0;
       putc 32 (k\<lparr>k_buffer := b\<rparr>) }
     else Some k }"

primrec list_matches :: "string list \<Rightarrow> kernel \<Rightarrow> kernel option" where
  "list_matches [] k = Some k" |
  "list_matches (m # ms) k = do { k \<leftarrow> prints m k; k \<leftarrow> prints ''  '' k; list_matches ms k }"

definition command_completion :: "kernel \<Rightarrow> kernel option" where
  "command_completion k = do {
     let prefix_len = k_pos k;
     sp \<leftarrow> has_space (k_buffer k) 0 (nat (k_pos k));
     if sp then Some k else do {
     (matches, lcp) \<leftarrow> match_loop (k_buffer k) prefix_len command_list ([], -1);
     let n = length matches;
     if n = 0 then Some k
     else if n = 1 then do {
       m \<leftarrow> rd matches 0;
       len \<leftarrow> strlen (lit m @ [0]) 0;
       shell_insert_completion m (int len) True k }
     else if lcp > prefix_len then do {
       m \<leftarrow> rd matches 0;
       shell_insert_completion m lcp False k }
     else do {
       k \<leftarrow> putc 10 k;
       k \<leftarrow> list_matches matches k;
       k \<leftarrow> putc 10 k;
       k \<leftarrow> shell_render_prompt k;
       on_term (terminal_writestring (k_buffer k) 0) k } } }"

section \<open>Keys\<close>

text \<open>\<open>terminal_writestring(&buffer[buffer_pos])\<close>\<close>

definition write_tail :: "kernel \<Rightarrow> kernel option" where
  "write_tail k = (if 0 \<le> k_pos k then on_term (terminal_writestring (k_buffer k) (nat (k_pos k))) k else None)"

text \<open>\<open>for (x = len; x > buffer_pos; x--) buffer[x] = buffer[x - 1]\<close>\<close>

function shift_up :: "buf \<Rightarrow> int \<Rightarrow> int \<Rightarrow> buf option" where
  "shift_up b x pos = (if x > pos then do {
       c \<leftarrow> rdi b (x - 1);
       b' \<leftarrow> wri b x c;
       shift_up b' (x - 1) pos }
     else Some b)"
  by pat_completeness auto
termination
  by (relation "measure (\<lambda>(b, x, pos). nat (x - pos))") auto

declare shift_up.simps [simp del]

definition key_backspace :: "kernel \<Rightarrow> kernel option" where
  "key_backspace k = (if k_pos k > 0 then do {
       len \<leftarrow> strlen (k_buffer k) 0;
       let tail = int len - k_pos k;
       b \<leftarrow> for_upto (nat (k_pos k)) len (\<lambda>x b. do { c \<leftarrow> rd b x; wri b (int x - 1) c }) (k_buffer k);
       b \<leftarrow> wri b (int len - 1) 0;
       let k = k\<lparr>k_buffer := b, k_pos := k_pos k - 1\<rparr>;
       k \<leftarrow> on_term terminal_backspace k;
       k \<leftarrow> write_tail k;
       k \<leftarrow> putc 32 k;
       on_term (terminal_move_cursor (- (tail + 1))) k }
     else Some k)"

definition key_insert :: "byte \<Rightarrow> kernel \<Rightarrow> kernel option" where
  "key_insert c k = do {
     len \<leftarrow> strlen (k_buffer k) 0;
     if len < BUFFER_SIZE - 1 then do {
       let tail = int len - k_pos k;
       b \<leftarrow> shift_up (k_buffer k) (int len) (k_pos k);
       b \<leftarrow> wri b (k_pos k) c;
       b \<leftarrow> wr b (len + 1) 0;
       k \<leftarrow> write_tail (k\<lparr>k_buffer := b\<rparr>);
       on_term (terminal_move_cursor (- tail)) (k\<lparr>k_pos := k_pos k + 1\<rparr>) }
     else Some k }"

definition key_enter :: "kernel \<Rightarrow> outcome option" where
  "key_enter k = do {
     k \<leftarrow> putc 10 k;
     cont (shell_execute k) (\<lambda>k. do {
       b \<leftarrow> wr (k_buffer k) 0 0;
       runs (shell_render_prompt (k\<lparr>k_buffer := b, k_pos := 0\<rparr>)) }) }"

definition shell_handle_key :: "byte \<Rightarrow> kernel \<Rightarrow> outcome option" where
  "shell_handle_key c k =
     (if c = 0x0C then do {
        k \<leftarrow> on_term terminal_clear k;
        runs (shell_init (k\<lparr>k_pos := 0\<rparr>)) }
      else if c = 10 then key_enter k
      else if c = 8 then runs (key_backspace k)
      else if c = 9 then runs (command_completion k)
      else runs (key_insert c k))"

definition shell_history :: "int \<Rightarrow> kernel \<Rightarrow> kernel option" where
  "shell_history a k = do {
     old_len \<leftarrow> strlen (k_buffer k) 0;
     k \<leftarrow> on_term (terminal_move_cursor (int old_len - k_pos k)) k;
     (h, r) \<leftarrow> (if a = 1 then history_prev (k_hist k) (Some (k_buffer k, 0)) else history_next (k_hist k));
     k \<leftarrow> for_upto 0 old_len (\<lambda>x. on_term terminal_backspace) (k\<lparr>k_hist := h\<rparr>);
     cur \<leftarrow> history_getcurrentcommand (k_hist k);
     b \<leftarrow> strlcpy (k_buffer k) 0 cur 0 BUFFER_SIZE;
     n \<leftarrow> strlen b 0;
     on_term (terminal_writestring b 0) (k\<lparr>k_buffer := b, k_pos := int n\<rparr>) }"

definition shell_buffer_pos_decrement :: "kernel \<Rightarrow> kernel option" where
  "shell_buffer_pos_decrement k =
     (if k_pos k \<le> 0 then Some k else on_term (terminal_move_cursor (-1)) (k\<lparr>k_pos := k_pos k - 1\<rparr>))"

definition shell_buffer_pos_increment :: "kernel \<Rightarrow> kernel option" where
  "shell_buffer_pos_increment k = do {
     len \<leftarrow> strlen (k_buffer k) 0;
     if k_pos k \<ge> int len then Some k else on_term (terminal_move_cursor 1) (k\<lparr>k_pos := k_pos k + 1\<rparr>) }"

end
