(* ===== verification/Keyboard.thy ===== *)
theory Keyboard
  imports Shell
begin

text \<open>
  src/drivers/keyboard.c: the interrupt handler of the PS/2 keyboard, a state machine over scan codes
  (extended prefix, shift and control held) whose outputs are the shell's keys.
\<close>

section \<open>The code\<close>

definition scancode_to_ascii :: buf where
  "scancode_to_ascii = [0, 0] @ lit ''1234567890-='' @ [0,
     0] @ lit ''qwertyuiop[]'' @ [10,
     0] @ lit ''asdfghjkl;'' @ lit [CHR 0x27, CHR 0x60] @ [
     0] @ lit [CHR 0x5C] @ lit ''zxcvbnm,./'' @ [0] @
     lit ''*'' @ [0] @ lit '' '' @ replicate 70 0"

definition scancode_to_ascii_shift :: buf where
  "scancode_to_ascii_shift = [0, 0] @ lit ''!@#$%^&*()_+'' @ [0,
     0] @ lit ''QWERTYUIOP{}'' @ [10,
     0] @ lit ''ASDFGHJKL:'' @ lit [CHR 0x22] @ lit ''~'' @ [
     0] @ lit ''|'' @ lit ''ZXCVBNM<>?'' @ [0] @
     lit ''*'' @ [0] @ lit '' '' @ replicate 70 0"

record keyboard =
  shift_pressed :: bool
  ctrl_pressed :: bool
  extended :: bool

definition keyboard_zero :: keyboard where
  "keyboard_zero = \<lparr>shift_pressed = False, ctrl_pressed = False, extended = False\<rparr>"

definition leaving :: "keyboard \<Rightarrow> outcome option \<Rightarrow> (keyboard \<times> outcome) option" where
  "leaving kb r = map_option (Pair kb) r"

definition keyboard_callback :: "keyboard \<Rightarrow> kernel \<Rightarrow> (keyboard \<times> outcome) option" where
  "keyboard_callback kb0 k0 = (case port_in 0x60 (k_bus k0) of (scancode, b) \<Rightarrow>
     let k = k0\<lparr>k_bus := b\<rparr>; kb = kb0\<lparr>extended := False\<rparr> in
     if scancode = 0xE0 then Some (kb0\<lparr>extended := True\<rparr>, Running k)
     else if extended kb0 \<and> scancode = 0x48 then leaving kb (runs (shell_history 1 k))
     else if extended kb0 \<and> scancode = 0x50 then leaving kb (runs (shell_history 2 k))
     else if extended kb0 \<and> scancode = 0x4B then leaving kb (runs (shell_buffer_pos_decrement k))
     else if extended kb0 \<and> scancode = 0x4D then leaving kb (runs (shell_buffer_pos_increment k))
     else if scancode = 0x2A \<or> scancode = 0x36 then Some (kb\<lparr>shift_pressed := True\<rparr>, Running k)
     else if scancode = 0xAA \<or> scancode = 0xB6 then Some (kb\<lparr>shift_pressed := False\<rparr>, Running k)
     else if scancode = 0x1D then Some (kb\<lparr>ctrl_pressed := True\<rparr>, Running k)
     else if scancode = 0x9D then Some (kb\<lparr>ctrl_pressed := False\<rparr>, Running k)
     else if scancode AND 0x80 \<noteq> 0 then Some (kb, Running k)
     else if ctrl_pressed kb \<and> scancode = 0x26 then leaving kb (shell_handle_key 0x0C k)
     else if scancode = 0x0E then leaving kb (shell_handle_key 8 k)
     else if scancode = 0x0F then leaving kb (shell_handle_key 9 k)
     else do {
       c \<leftarrow> rd (if shift_pressed kb then scancode_to_ascii_shift else scancode_to_ascii) (unat scancode);
       if c \<noteq> 0 then leaving kb (shell_handle_key c k) else Some (kb, Running k) })"

section \<open>The decoder as a step relation\<close>

datatype key_event = Nothing | Char byte | Up | Down | Left | Right

text \<open>What each scan code means in each state.\<close>

inductive decodes :: "keyboard \<Rightarrow> byte \<Rightarrow> key_event \<Rightarrow> keyboard \<Rightarrow> bool" where
  prefix_code: "decodes kb 0xE0 Nothing (kb\<lparr>extended := True\<rparr>)"
| arrow: "extended kb \<Longrightarrow> (sc, e) \<in> {(0x48, Up), (0x50, Down), (0x4B, Left), (0x4D, Right)} \<Longrightarrow>
    decodes kb sc e (kb\<lparr>extended := False\<rparr>)"
| shift_down: "sc \<in> {0x2A, 0x36} \<Longrightarrow> decodes kb sc Nothing (kb\<lparr>extended := False, shift_pressed := True\<rparr>)"
| shift_up: "sc \<in> {0xAA, 0xB6} \<Longrightarrow> decodes kb sc Nothing (kb\<lparr>extended := False, shift_pressed := False\<rparr>)"
| ctrl_down: "decodes kb 0x1D Nothing (kb\<lparr>extended := False, ctrl_pressed := True\<rparr>)"
| ctrl_up: "decodes kb 0x9D Nothing (kb\<lparr>extended := False, ctrl_pressed := False\<rparr>)"
| release: "0x80 \<le> sc \<Longrightarrow> sc \<notin> {0xE0, 0xAA, 0xB6, 0x9D} \<Longrightarrow> decodes kb sc Nothing (kb\<lparr>extended := False\<rparr>)"
| clear_screen: "ctrl_pressed kb \<Longrightarrow> decodes kb 0x26 (Char 0x0C) (kb\<lparr>extended := False\<rparr>)"
| backspace: "decodes kb 0x0E (Char 8) (kb\<lparr>extended := False\<rparr>)"
| tab: "decodes kb 0x0F (Char 9) (kb\<lparr>extended := False\<rparr>)"
| make: "sc < 0x80 \<Longrightarrow> sc \<notin> {0x2A, 0x36, 0x1D, 0x0E, 0x0F} \<Longrightarrow> \<not> (ctrl_pressed kb \<and> sc = 0x26) \<Longrightarrow>
    \<not> (extended kb \<and> sc \<in> {0x48, 0x50, 0x4B, 0x4D}) \<Longrightarrow>
    c = (if shift_pressed kb then scancode_to_ascii_shift else scancode_to_ascii) ! unat sc \<Longrightarrow>
    decodes kb sc (if c = 0 then Nothing else Char c) (kb\<lparr>extended := False\<rparr>)"

inductive_cases decodes_elim: "decodes kb sc e kb'"

text \<open>What the shell does for an event.\<close>

fun key_action :: "key_event \<Rightarrow> kernel \<Rightarrow> outcome option" where
  "key_action Nothing k = Some (Running k)" |
  "key_action (Char c) k = shell_handle_key c k" |
  "key_action Up k = runs (shell_history 1 k)" |
  "key_action Down k = runs (shell_history 2 k)" |
  "key_action Left k = runs (shell_buffer_pos_decrement k)" |
  "key_action Right k = runs (shell_buffer_pos_increment k)"

lemma tables_length: "length scancode_to_ascii = 128" "length scancode_to_ascii_shift = 128"
  by (simp_all add: scancode_to_ascii_def scancode_to_ascii_shift_def lit_def)

lemma high_bit: "(sc :: byte) AND 0x80 \<noteq> 0 \<longleftrightarrow> 0x80 \<le> sc"
proof -
  have "sc AND 0x80 \<noteq> 0 \<longleftrightarrow> bit sc 7" using and_exp_eq_0_iff_not_bit [of sc 7] by simp
  also have "\<dots> \<longleftrightarrow> odd (unat sc div 128)"
    using bit_iff_odd [of "unat sc" 7] by (simp add: bit_unsigned_iff)
  also have "\<dots> \<longleftrightarrow> 128 \<le> unat sc"
  proof -
    have "unat sc < 256" using unsigned_less [of sc] by simp
    then have "unat sc div 128 = 0 \<or> unat sc div 128 = 1" by auto
    then show ?thesis by (auto simp: div_eq_0_iff)
  qed
  finally show ?thesis by (simp add: word_le_nat_alt)
qed

lemma keyboard_callback_eq:
  fixes kb0 :: keyboard
  assumes "port_in 0x60 (k_bus k0) = (scancode, b)"
  defines "k \<equiv> k0\<lparr>k_bus := b\<rparr>" and "kb \<equiv> kb0\<lparr>extended := False\<rparr>"
  shows "keyboard_callback kb0 k0 =
     (if scancode = 0xE0 then Some (kb0\<lparr>extended := True\<rparr>, Running k)
     else if extended kb0 \<and> scancode = 0x48 then leaving kb (runs (shell_history 1 k))
     else if extended kb0 \<and> scancode = 0x50 then leaving kb (runs (shell_history 2 k))
     else if extended kb0 \<and> scancode = 0x4B then leaving kb (runs (shell_buffer_pos_decrement k))
     else if extended kb0 \<and> scancode = 0x4D then leaving kb (runs (shell_buffer_pos_increment k))
     else if scancode = 0x2A \<or> scancode = 0x36 then Some (kb\<lparr>shift_pressed := True\<rparr>, Running k)
     else if scancode = 0xAA \<or> scancode = 0xB6 then Some (kb\<lparr>shift_pressed := False\<rparr>, Running k)
     else if scancode = 0x1D then Some (kb\<lparr>ctrl_pressed := True\<rparr>, Running k)
     else if scancode = 0x9D then Some (kb\<lparr>ctrl_pressed := False\<rparr>, Running k)
     else if 0x80 \<le> scancode then Some (kb, Running k)
     else if ctrl_pressed kb \<and> scancode = 0x26 then leaving kb (shell_handle_key 0x0C k)
     else if scancode = 0x0E then leaving kb (shell_handle_key 8 k)
     else if scancode = 0x0F then leaving kb (shell_handle_key 9 k)
     else do {
       c \<leftarrow> rd (if shift_pressed kb then scancode_to_ascii_shift else scancode_to_ascii) (unat scancode);
       if c \<noteq> 0 then leaving kb (shell_handle_key c k) else Some (kb, Running k) })"
  unfolding keyboard_callback_def assms prod.case Let_def high_bit by (rule refl)

text \<open>The handler makes a step of the decoder and performs its event.\<close>

lemma keyboard_make_code:
  assumes sc: "port_in 0x60 (k_bus k) = (sc, b)" and make: "sc < 0x80" "sc \<notin> {0x2A, 0x36, 0x1D, 0x0E, 0x0F}"
    "\<not> (ctrl_pressed kb \<and> sc = 0x26)" "\<not> (extended kb \<and> sc \<in> {0x48, 0x50, 0x4B, 0x4D})"
  defines "c \<equiv> (if shift_pressed kb then scancode_to_ascii_shift else scancode_to_ascii) ! unat sc"
  shows "keyboard_callback kb k =
    leaving (kb\<lparr>extended := False\<rparr>) (key_action (if c = 0 then Nothing else Char c) (k\<lparr>k_bus := b\<rparr>))"
proof -
  let ?t = "if shift_pressed kb then scancode_to_ascii_shift else scancode_to_ascii"
  let ?k = "k\<lparr>k_bus := b\<rparr>" and ?kb = "kb\<lparr>extended := False\<rparr>"
  have n: "unat sc < length ?t" using make(1) tables_length by (simp add: word_less_nat_alt)
  have no: "(extended kb \<and> sc = 0x48) = False" "(extended kb \<and> sc = 0x50) = False"
    "(extended kb \<and> sc = 0x4B) = False" "(extended kb \<and> sc = 0x4D) = False" "(ctrl_pressed kb \<and> sc = 0x26) = False"
    using make(3,4) by auto
  have ne: "sc \<noteq> 0xE0" "sc \<noteq> 0xAA" "sc \<noteq> 0xB6" "sc \<noteq> 0x9D" "\<not> 0x80 \<le> sc"
    using make(1) by (auto simp: not_le)
  have "keyboard_callback kb k = (if c \<noteq> 0 then leaving ?kb (shell_handle_key c ?k) else Some (?kb, Running ?k))"
    using make(2) ne rd_in [OF n] unfolding c_def
    by (simp add: keyboard_callback_eq [OF sc, where ?kb0.0 = kb] no split del: if_split)
  then show ?thesis by (simp add: leaving_def)
qed

lemma keyboard_callback_decodes:
  assumes sc: "port_in 0x60 (k_bus k) = (sc, b)"
  shows "\<exists>e kb'. decodes kb sc e kb' \<and> keyboard_callback kb k = leaving kb' (key_action e (k\<lparr>k_bus := b\<rparr>))"
proof -
  let ?k = "k\<lparr>k_bus := b\<rparr>" and ?kb = "kb\<lparr>extended := False\<rparr>"
  note cb = keyboard_callback_eq [OF sc, where ?kb0.0 = kb]
  have silent: ?thesis if "keyboard_callback kb k = Some (kb', Running ?k)" "decodes kb sc Nothing kb'" for kb'
    using that by (intro exI [of _ Nothing] exI [of _ kb']) (simp add: leaving_def)
  consider (prefix) "sc = 0xE0"
    | (arrow) e where "extended kb" "(sc, e) \<in> {(0x48, Up), (0x50, Down), (0x4B, Left), (0x4D, Right)}"
    | (shift) "sc \<in> {0x2A, 0x36}" | (unshift) "sc \<in> {0xAA, 0xB6}" | (ctrl) "sc = 0x1D" | (unctrl) "sc = 0x9D"
    | (up) "0x80 \<le> sc" "sc \<notin> {0xE0, 0xAA, 0xB6, 0x9D}"
    | (clear) "ctrl_pressed kb" "sc = 0x26" | (bs) "sc = 0x0E" | (tab) "sc = 0x0F"
    | (make) "sc < 0x80" "sc \<notin> {0x2A, 0x36, 0x1D, 0x0E, 0x0F}" "\<not> (ctrl_pressed kb \<and> sc = 0x26)"
        "\<not> (extended kb \<and> sc \<in> {0x48, 0x50, 0x4B, 0x4D})"
    by (cases "0x80 \<le> sc") (auto simp: not_le)
  then show ?thesis
  proof cases
    case prefix
    show ?thesis by (rule silent [of "kb\<lparr>extended := True\<rparr>"]) (simp_all add: cb prefix decodes.prefix_code)
  next
    case arrow
    have "keyboard_callback kb k = leaving ?kb (key_action e ?k)"
      using arrow(2,1) by (elim insertE emptyE) (simp_all add: cb)
    then show ?thesis using decodes.arrow arrow by blast
  next
    case shift
    show ?thesis
      by (rule silent [of "?kb\<lparr>shift_pressed := True\<rparr>"]) (use shift decodes.shift_down [OF shift, of kb] in \<open>auto simp: cb\<close>)
  next
    case unshift
    show ?thesis
      by (rule silent [of "?kb\<lparr>shift_pressed := False\<rparr>"]) (use unshift decodes.shift_up [OF unshift, of kb] in \<open>auto simp: cb\<close>)
  next
    case ctrl
    show ?thesis by (rule silent [of "?kb\<lparr>ctrl_pressed := True\<rparr>"]) (use ctrl decodes.ctrl_down [of kb] in \<open>simp_all add: cb\<close>)
  next
    case unctrl
    show ?thesis by (rule silent [of "?kb\<lparr>ctrl_pressed := False\<rparr>"]) (use unctrl decodes.ctrl_up [of kb] in \<open>simp_all add: cb\<close>)
  next
    case up
    show ?thesis by (rule silent [of ?kb]) (use up decodes.release [OF up, of kb] in \<open>auto simp: cb\<close>)
  next
    case clear
    then have "keyboard_callback kb k = leaving ?kb (key_action (Char 0x0C) ?k)" by (simp add: cb)
    then show ?thesis using decodes.clear_screen clear by blast
  next
    case bs
    then have "keyboard_callback kb k = leaving ?kb (key_action (Char 8) ?k)" by (simp add: cb)
    then show ?thesis using decodes.backspace bs by blast
  next
    case tab
    then have "keyboard_callback kb k = leaving ?kb (key_action (Char 9) ?k)" by (simp add: cb)
    then show ?thesis using decodes.tab tab by blast
  next
    case make
    show ?thesis unfolding keyboard_make_code [OF sc make] using decodes.make [OF make refl] by blast
  qed
qed

lemma decodes_fun: "decodes kb sc e kb' \<Longrightarrow> decodes kb sc e2 kb2 \<Longrightarrow> e = e2 \<and> kb' = kb2"
  by (elim decodes_elim) auto

end
