(* ===== verification/Commands_Spec.thy ===== *)
theory Commands_Spec
  imports Commands "HOL-Library.Sublist"
begin

text \<open>
  What the commands print: each is the output of one byte string to the console, a function of the
  words of the command line and the kernel's state.
\<close>

section \<open>Printing as the output of bytes\<close>

definition emits :: "byte list \<Rightarrow> kernel \<Rightarrow> kernel option" where
  "emits cs = on_term (puts terminal_putchar cs)"

lemma emits_append: "emits (cs @ ds) k = do { k' \<leftarrow> emits cs k; emits ds k' }"
  by (auto simp: emits_def on_term_def puts_append split: bind_splits)

lemma emits_Nil [simp]: "emits [] k = Some k"
  by (simp add: emits_def on_term_def)

lemma emits_ok: "kernel_ok k \<Longrightarrow> \<exists>k'. emits cs k = Some k' \<and> kernel_ok k' \<and> same_but_term k k'"
  unfolding emits_def by (rule on_term_ok) (simp_all add: vga.puts_ok)

lemma emits_same: "emits cs k = Some k' \<Longrightarrow> k' = k\<lparr>k_term := k_term k'\<rparr>"
  by (auto simp: emits_def on_term_def split: bind_splits)

lemma emits_fields:
  "emits cs k = Some k' \<Longrightarrow> k_hist k' = k_hist k \<and> k_buffer k' = k_buffer k \<and> k_pos k' = k_pos k \<and>
     k_user k' = k_user k \<and> k_os k' = k_os k \<and> k_timer k' = k_timer k \<and> k_heap k' = k_heap k \<and> k_bus k' = k_bus k"
  by (auto simp: emits_def on_term_def split: bind_splits)

lemma writestring_emits: "str_at s p cs \<Longrightarrow> on_term (terminal_writestring s p) k = emits cs k"
  by (simp add: emits_def on_term_def terminal_writestring_puts)

lemma prints_emits: "0 \<notin> set (lit s) \<Longrightarrow> prints s = emits (lit s)"
  using writestring_emits [OF str_at_lit] by (simp add: prints_def fun_eq_iff)

lemma putc_emits: "putc c k = emits [c] k"
  by (simp add: putc_def emits_def on_term_def)

lemma lit_simps [simp]: "lit [] = []" "lit (c # s) = of_char c # lit s" "lit (s @ t) = lit s @ lit t"
  by (simp_all add: lit_def)

lemma nonzero_char: "c \<noteq> CHR 0x00 \<Longrightarrow> (of_char c :: byte) \<noteq> 0"
proof
  assume "c \<noteq> CHR 0x00" and "(of_char c :: byte) = 0"
  have "(of_nat (of_char c :: nat) :: byte) = 0" using \<open>(of_char c :: byte) = 0\<close> by (simp add: of_nat_of_char)
  then have "unat (of_nat (of_char c :: nat) :: byte) = 0" by simp
  moreover have "(of_char c :: nat) < 256" by (rule nat_of_char_less_256)
  ultimately have "(of_char c :: nat) = 0" by (simp add: unat_of_nat take_bit_eq_mod)
  then have "c = char_of (0 :: nat)" by (metis char_of_char)
  moreover have "char_of (0 :: nat) = CHR 0x00" by (simp add: char_of_def)
  ultimately show False using \<open>c \<noteq> CHR 0x00\<close> by simp
qed

lemma lit_nonzero: "CHR 0x00 \<notin> set s \<Longrightarrow> 0 \<notin> set (lit s)"
proof (induction s)
  case (Cons c s)
  then show ?case using nonzero_char [of c] by auto
qed simp

lemma emits_puts: "puts terminal_putchar cs (k_term k) = Some t \<Longrightarrow> emits cs k = Some (k\<lparr>k_term := t\<rparr>)"
  by (simp add: emits_def on_term_def)

text \<open>Sequences of outputs of literals.\<close>

lemma prints_lit: "CHR 0x00 \<notin> set s \<Longrightarrow> prints s = emits (lit s)"
  using prints_emits lit_nonzero by blast

lemma seven_bit: "lit ''%'' = [37]" "lit ''-n'' = [45, 110]" "lit ''-h'' = [45, 104]"
  by (simp_all add: lit_def)

section \<open>Comparing words, printing numbers\<close>

lemma streq_spec:
  "str_at b p w \<Longrightarrow> CHR 0x00 \<notin> set s \<Longrightarrow> streq b p s = Some (w = lit s)"
  using strcmp_sign [OF _ str_at_lit [OF lit_nonzero], of b p w s] by (auto simp: streq_def)

lemma sint_bounds: "INT_MIN \<le> sint (v :: u32)" "sint v \<le> INT_MAX"
  using sint_greater_eq [of v] sint_less [of v] by (simp_all add: INT_MIN_def INT_MAX_def)

lemma sint_small: "uint (v :: u32) < 2147483648 \<Longrightarrow> sint v = uint v"
  by (simp add: sint_uint signed_take_bit_eq_take_bit_minus bit_uint_iff take_bit_eq_mod
      bit_iff_odd div_pos_pos_trivial)

lemma print_unit_emits:
  assumes "sint v \<noteq> INT_MIN" "CHR 0x00 \<notin> set u"
  shows "print_unit v u n = emits (dec_string (sint v) @ lit u @ (if n = 1 then [10] else []))"
proof (rule ext)
  fix k
  have r: "INT_MIN < sint v" "sint v \<le> INT_MAX" using sint_bounds [of v] assms(1) by simp_all
  then have "length (dec_string (sint v)) \<le> 11"
    by (intro length_dec_string) (simp add: INT_MIN_def INT_MAX_def)
  then have "length (dec_string (sint v)) < length (replicate 32 (0 :: byte))" by simp
  from itoa_dec_string [OF r this] obtain b where
    b: "itoa (sint v) (replicate 32 0) = Some b" "str_at b 0 (dec_string (sint v))" by blast
  show "print_unit v u n k = emits (dec_string (sint v) @ lit u @ (if n = 1 then [10] else [])) k"
    using b assms(2) by (simp add: print_unit_def writestring_emits prints_lit emits_append)
qed

section \<open>The prompt\<close>

text \<open>The template with \<open>%user%\<close> and \<open>%os%\<close> replaced.\<close>

abbreviation user_tok :: "byte list" where "user_tok \<equiv> lit ''%user%''"
abbreviation os_tok :: "byte list" where "os_tok \<equiv> lit ''%os%''"

function expand :: "byte list \<Rightarrow> byte list \<Rightarrow> byte list \<Rightarrow> byte list" where
  "expand u v cs = (case cs of [] \<Rightarrow> []
     | c # ds \<Rightarrow> if prefix user_tok cs then u @ expand u v (drop 6 cs)
         else if prefix os_tok cs then v @ expand u v (drop 4 cs)
         else c # expand u v ds)"
  by pat_completeness auto
termination
  by (relation "measure (\<lambda>(u, v, cs). length cs)") auto

declare expand.simps [simp del]

lemma prompt_match_spec:
  "str_at tok i ts \<Longrightarrow> str_at s (p + i) cs \<Longrightarrow> prompt_match s p tok i = Some (prefix ts cs)"
proof (induction ts arbitrary: i cs)
  case Nil
  then show ?case by (subst prompt_match.simps) simp
next
  case (Cons t ts)
  show ?case
  proof (cases cs)
    case Nil
    then show ?thesis using Cons.prems by (subst prompt_match.simps) auto
  next
    case (Cons c ds)
    then show ?thesis using Cons.prems Cons.IH [of "Suc i" ds] by (subst prompt_match.simps) auto
  qed
qed

lemma str_at_tok: "str_at (user_tok @ [0]) 0 user_tok" "str_at (os_tok @ [0]) 0 os_tok"
  by (intro str_at_lit lit_nonzero; simp)+

lemma length_tok: "length user_tok = 6" "length os_tok = 4"
  by (simp_all add: lit_def)

lemma render_loop_emits:
  "str_at fmt i cs \<Longrightarrow> str_at (k_user k) 0 u \<Longrightarrow> str_at (k_os k) 0 v \<Longrightarrow> kernel_ok k \<Longrightarrow>
   render_loop fmt i k = emits (expand u v cs) k"
proof (induction "length cs" arbitrary: i cs k rule: less_induct)
  case less
  show ?case
  proof (cases cs)
    case Nil
    then show ?thesis using less.prems(1) by (subst render_loop.simps) (simp add: expand.simps)
  next
    case (Cons c ds)
    have m: "prompt_match fmt i (user_tok @ [0]) 0 = Some (prefix user_tok cs)"
      "prompt_match fmt i (os_tok @ [0]) 0 = Some (prefix os_tok cs)"
      using prompt_match_spec [OF str_at_tok(1), of fmt i cs] prompt_match_spec [OF str_at_tok(2), of fmt i cs]
        less.prems(1) by simp_all
    have c: "rd fmt i = Some c" "c \<noteq> 0" using less.prems(1) Cons by simp_all
    have step: "(case emits xs k of None \<Rightarrow> None | Some k' \<Rightarrow> render_loop fmt (i + n) k') =
        emits (xs @ expand u v (drop n cs)) k" if n: "0 < n" "n \<le> length cs" for xs n
    proof -
      obtain k1 where k1: "emits xs k = Some k1" "kernel_ok k1" using emits_ok [OF less.prems(4)] by blast
      have "str_at fmt (i + n) (drop n cs)" using str_at_drop [OF less.prems(1) n(2)] .
      then have "render_loop fmt (i + n) k1 = emits (expand u v (drop n cs)) k1"
        using less.hyps [of "drop n cs"] n less.prems(2,3) k1 emits_fields [OF k1(1)] by auto
      then show ?thesis using k1(1) by (simp add: emits_append)
    qed
    consider "prefix user_tok cs" | "\<not> prefix user_tok cs" "prefix os_tok cs"
      | "\<not> prefix user_tok cs" "\<not> prefix os_tok cs" by blast
    then show ?thesis
    proof cases
      case 1
      then have n: "6 \<le> length cs" using length_tok by (metis prefix_length_le)
      have "expand u v cs = u @ expand u v (drop 6 cs)" using 1 Cons by (subst expand.simps) simp
      then show ?thesis
        using step [of 6 u] n 1 c m less.prems(2) by (subst render_loop.simps) (simp add: writestring_emits ac_simps cong: option.case_cong)
    next
      case 2
      then have n: "4 \<le> length cs" using length_tok by (metis prefix_length_le)
      have "expand u v cs = v @ expand u v (drop 4 cs)" using 2 Cons by (subst expand.simps) simp
      then show ?thesis
        using step [of 4 v] n 2 c m less.prems(3) by (subst render_loop.simps) (simp add: writestring_emits ac_simps cong: option.case_cong)
    next
      case 3
      have "expand u v cs = [c] @ expand u v (drop 1 cs)" using 3 Cons by (subst expand.simps) auto
      moreover have "prompt_match fmt i (user_tok @ [0]) 0 = Some False" "prompt_match fmt i (os_tok @ [0]) 0 = Some False"
        using m 3 by (simp_all only: simp_thms)
      moreover have "1 \<le> length cs" using Cons by simp
      ultimately show ?thesis
        using step [of 1 "[c]"] c by (subst render_loop.simps) (simp add: putc_emits ac_simps cong: option.case_cong)
    qed
  qed
qed

lemma name_str_at: "is_name b \<Longrightarrow> str_at b 0 (cstring b)"
  using str_at_ex [of 0 b] cstring_str_at by (auto simp: is_name_def)

definition prompt_text :: "byte list \<Rightarrow> byte list \<Rightarrow> byte list" where
  "prompt_text u v = lit (COLOR_WHITE_BRIGHT @ ''['' @ COLOR_RED_BRIGHT) @ u @ lit (COLOR_CYAN_BRIGHT @ ''@'' @ COLOR_WHITE_BRIGHT) @
     v @ lit (COLOR_RESET @ '' ~'' @ COLOR_WHITE_BRIGHT @ '']'' @ COLOR_GREEN_BRIGHT @ ''$ '' @ COLOR_RESET)"

lemma expand_template: "expand u v (lit PROMPT_TEMPLATE) = prompt_text u v"
  by (simp add: PROMPT_TEMPLATE_def prompt_text_def COLOR_WHITE_BRIGHT_def COLOR_RED_BRIGHT_def
      COLOR_CYAN_BRIGHT_def COLOR_RESET_def COLOR_GREEN_BRIGHT_def sgr_def expand.simps [of _ _ "_ # _"]
      expand.simps [of _ _ "[]"])

lemma shell_render_prompt_emits:
  assumes "kernel_ok k"
  shows "shell_render_prompt k = emits (prompt_text (cstring (k_user k)) (cstring (k_os k))) k"
proof -
  have "str_at (lit PROMPT_TEMPLATE @ [0]) 0 (lit PROMPT_TEMPLATE)"
    by (intro str_at_lit lit_nonzero)
       (simp add: PROMPT_TEMPLATE_def COLOR_WHITE_BRIGHT_def COLOR_RED_BRIGHT_def
          COLOR_CYAN_BRIGHT_def COLOR_RESET_def COLOR_GREEN_BRIGHT_def sgr_def)
  moreover have "is_name (k_user k)" "is_name (k_os k)" using assms by (simp_all add: kernel_ok_def)
  ultimately show ?thesis
    using render_loop_emits [OF _ name_str_at name_str_at assms] expand_template shell_render_prompt_def by metis
qed

text \<open>Copying a word into a name buffer.\<close>

lemma strlcpy_name:
  assumes "str_at s p cs" "is_name d"
  shows "\<exists>b. strlcpy d 0 s p 64 = Some b \<and> is_name b \<and> cstring b = take 63 cs"
proof -
  have l: "length d = 64" using assms(2) by (simp add: is_name_def)
  have z: "0 \<notin> set (take 63 cs)" using str_at_nonzero [OF assms(1)] by (auto dest: in_set_takeD)
  let ?b = "overwrite d 0 (take 63 cs @ [0])"
  have "strlcpy d 0 s p 64 = Some ?b" using strlcpy_str_at [OF assms(1), of 64 0 d] l by simp
  moreover have at: "str_at ?b 0 (take 63 cs)" using z l by (intro str_at_overwrite) auto
  moreover have "length ?b = 64" using l by (simp add: overwrite_def)
  moreover have "0 \<in> set ?b" using at by (auto simp: str_at_0_iff)
  ultimately show ?thesis by (simp add: is_name_def)
qed

section \<open>Echo\<close>

text \<open>The words at the argument offsets.\<close>

definition argv :: "buf \<Rightarrow> nat list \<Rightarrow> byte list list \<Rightarrow> bool" where
  "argv b args ws \<longleftrightarrow> list_all2 (str_at b) args ws"

lemma argv_nth: "argv b args ws \<Longrightarrow> j < length args \<Longrightarrow> rd args j = Some (args ! j) \<and> str_at b (args ! j) (ws ! j)"
  by (simp add: argv_def list_all2_conv_all_nth)

lemma argv_length: "argv b args ws \<Longrightarrow> length ws = length args"
  by (simp add: argv_def list_all2_lengthD)

text \<open>Options until the first word that is not \<open>-n\<close>; \<open>None\<close> when it is \<open>-h\<close>.\<close>

fun echo_scan :: "byte list list \<Rightarrow> bool \<Rightarrow> (byte list list \<times> bool) option" where
  "echo_scan [] s = Some ([], s)" |
  "echo_scan (w # ws) s = (if w = lit ''-n'' then echo_scan ws True
     else if w = lit ''-h'' then None else Some (w # ws, s))"

definition echo_help :: "byte list" where
  "echo_help = lit (''echo - repeats your input to the console'' @ nl @ nl @ ''-h   - show this command'' @ nl @
     ''-n   - do not output the trailing new line'' @ nl)"

definition echo_text :: "byte list list \<Rightarrow> byte list" where
  "echo_text ws = (case echo_scan ws False of None \<Rightarrow> echo_help
     | Some (vs, s) \<Rightarrow> concat (map (\<lambda>w. w @ [32]) vs) @ (if s then [] else [10]))"

lemma str_at_first: "str_at b p w \<Longrightarrow> \<exists>c. rd b p = Some c \<and> (c = d \<longrightarrow> d \<noteq> 0 \<longrightarrow> w \<noteq> [] \<and> hd w = d) \<and>
   (c \<noteq> d \<longrightarrow> \<not> (w \<noteq> [] \<and> hd w = d))"
  by (cases w) auto

lemma echo_opts_scan:
  assumes "argv b args ws" "1 \<le> j" "j \<le> length args"
  shows "(case echo_scan (drop j ws) s of
      None \<Rightarrow> echo_opts b args j s = Some None
    | Some (vs, s') \<Rightarrow> \<exists>i \<ge> j. i \<le> length args \<and> vs = drop i ws \<and> echo_opts b args j s = Some (Some (i, s')))"
  using assms
proof (induction "length args - j" arbitrary: j s)
  case 0
  then show ?case using argv_length [OF assms(1)] by (subst (1 2) echo_opts.simps) simp
next
  case (Suc n)
  have len: "length ws = length args" using argv_length [OF assms(1)] .
  have j: "j < length args" using Suc.hyps(2) by simp
  have w: "rd args j = Some (args ! j)" "str_at b (args ! j) (ws ! j)" using argv_nth [OF assms(1) j] by simp_all
  have d: "drop j ws = ws ! j # drop (Suc j) ws" using j len by (simp add: Cons_nth_drop_Suc)
  have n: "streq b (args ! j) ''-n'' = Some (ws ! j = lit ''-n'')"
    and h: "streq b (args ! j) ''-h'' = Some (ws ! j = lit ''-h'')"
    using streq_spec [OF w(2)] by auto
  obtain c where c: "rd b (args ! j) = Some c" "c = 45 \<longleftrightarrow> ws ! j \<noteq> [] \<and> hd (ws ! j) = 45"
    using str_at_first [OF w(2), of 45] by auto
  have ih: "case echo_scan (drop (Suc j) ws) s of
      None \<Rightarrow> echo_opts b args (Suc j) s = Some None
    | Some (vs, s') \<Rightarrow> \<exists>i \<ge> Suc j. i \<le> length args \<and> vs = drop i ws \<and> echo_opts b args (Suc j) s = Some (Some (i, s'))" for s
    using Suc.hyps Suc.prems j by (intro Suc.hyps(1)) auto
  consider "ws ! j = lit ''-n''" | "ws ! j = lit ''-h''" | "ws ! j \<noteq> lit ''-n''" "ws ! j \<noteq> lit ''-h''" by blast
  then show ?case
  proof cases
    case 1
    then have c45: "c = 45" using c(2) by simp
    have "echo_opts b args j s = echo_opts b args (Suc j) True"
      using j w c c45 n 1 by (subst echo_opts.simps) simp
    then show ?thesis using ih [of True] 1 d by (auto split: option.splits)
  next
    case 2
    then have c45: "c = 45" using c(2) by simp
    have "echo_opts b args j s = Some None"
      using j w c c45 n h 2 by (subst echo_opts.simps) simp
    then show ?thesis using 2 d by simp
  next
    case 3
    have "echo_opts b args j s = Some (Some (j, s))"
      using j w c n h 3 by (subst echo_opts.simps) (auto simp del: lit_simps)
    then show ?thesis using 3 d j by auto
  qed
qed

lemma echo_loop_emits:
  assumes "argv b args ws"
  shows "j \<le> length args \<Longrightarrow> for_upto j (length args) (\<lambda>i k'. do {
            p \<leftarrow> rd args i;
            k' \<leftarrow> on_term (terminal_writestring b p) k';
            prints '' '' k' }) k = emits (concat (map (\<lambda>w. w @ [32]) (drop j ws))) k"
proof (induction "length args - j" arbitrary: j k)
  case 0
  then show ?case using argv_length [OF assms] by simp
next
  case (Suc n)
  have j: "j < length args" using Suc.hyps(2) by simp
  have w: "rd args j = Some (args ! j)" "str_at b (args ! j) (ws ! j)" using argv_nth [OF assms j] by simp_all
  have d: "drop j ws = ws ! j # drop (Suc j) ws" using j argv_length [OF assms] by (simp add: Cons_nth_drop_Suc)
  have ih: "for_upto (Suc j) (length args) (\<lambda>i k'. do {
            p \<leftarrow> rd args i;
            k' \<leftarrow> on_term (terminal_writestring b p) k';
            prints '' '' k' }) k = emits (concat (map (\<lambda>w. w @ [32]) (drop (Suc j) ws))) k" for k
    using Suc j by auto
  show ?case
    by (simp only: for_upto_step [OF j] w(1) bind.bind_lunit ih writestring_emits [OF w(2)])
       (simp add: d prints_lit emits_append [symmetric] bind_assoc)
qed

lemma echo_emits:
  assumes "argv (k_buffer k) args ws" "args \<noteq> []"
  shows "echo args k = emits (echo_text (tl ws)) k"
proof -
  have tl: "tl ws = drop 1 ws" by (simp add: drop_Suc)
  have l: "1 \<le> length args" using assms(2) by (cases args) simp_all
  note scan = echo_opts_scan [OF assms(1) order_refl l, of False]
  show ?thesis
  proof (cases "echo_scan (drop 1 ws) False")
    case None
    then have "echo_opts (k_buffer k) args 1 False = Some None" using scan by simp
    then show ?thesis using None
      by (simp add: echo_def echo_text_def echo_help_def tl prints_lit emits_append [symmetric])
  next
    case (Some r)
    obtain vs s where r: "r = (vs, s)" by (cases r)
    then obtain i where i: "i \<le> length args" "vs = drop i ws"
      "echo_opts (k_buffer k) args 1 False = Some (Some (i, s))" using scan Some by auto
    show ?thesis
      using i(3) Some r i(2) echo_loop_emits [OF assms(1) i(1), of k]
      by (cases s) (simp_all add: echo_def echo_text_def tl prints_lit emits_append)
  qed
qed

section \<open>Uptime\<close>

definition hms :: "u32 \<Rightarrow> int \<times> int \<times> int" where
  "hms ticks = (let s = uint ticks div 1000 in (s div 3600, s div 60 mod 60, s mod 60))"

lemma div_3600: "x div 3600 = x div 60 div (60 :: int)"
  using zdiv_zmult2_eq [of 60 x 60] by simp

lemma hms_spec:
  "hms ticks = (h, m, s) \<Longrightarrow> h * 3600 + m * 60 + s = uint ticks div 1000 \<and> 0 \<le> h \<and> 0 \<le> m \<and> m < 60 \<and> 0 \<le> s \<and> s < 60"
proof -
  assume a: "hms ticks = (h, m, s)"
  let ?t = "uint ticks div 1000"
  note e = div_3600 [of ?t]
  have hms: "h = ?t div 60 div 60" "m = ?t div 60 mod 60" "s = ?t mod 60"
    using a unfolding hms_def Let_def e by simp_all
  have "0 \<le> ?t" by (simp add: pos_imp_zdiv_nonneg_iff)
  then have "0 \<le> h" unfolding hms by (simp add: pos_imp_zdiv_nonneg_iff)
  moreover have "?t div 60 * 60 + s = ?t" "h * 60 + m = ?t div 60"
    unfolding hms by (rule div_mult_mod_eq)+
  moreover have "0 \<le> m" "m < 60" "0 \<le> s" "s < 60" unfolding hms by simp_all
  ultimately show ?thesis by linarith
qed

lemma uptime_values:
  fixes ticks :: u32
  defines "ts \<equiv> ticks div 1000"
  shows "hms ticks = (sint (ts div 60 div 60), sint (ts div 60 mod 60), sint (ts mod 60))"
    and "sint ts = uint ticks div 1000" and "sint (ts div 60 div 60) \<noteq> INT_MIN" "sint (ts div 60 mod 60) \<noteq> INT_MIN"
    "sint (ts mod 60) \<noteq> INT_MIN" "sint ts \<noteq> INT_MIN"
proof -
  have b: "uint ticks < 4294967296" "0 \<le> uint ticks" using uint_bounded [of ticks] by simp_all
  have u: "uint ts = uint ticks div 1000" by (simp add: ts_def uint_div_distrib)
  have lt: "uint ts < 2147483648" using b u by simp
  have c: "uint (ts div 60 div 60) = uint ts div 60 div 60" "uint (ts div 60 mod 60) = uint ts div 60 mod 60"
    "uint (ts mod 60) = uint ts mod 60"
    by (simp_all add: uint_div_distrib uint_mod_distrib)
  have d: "uint ts div 60 div 60 < 2147483648" "uint ts div 60 mod 60 < 60" "uint ts mod 60 < 60"
    "0 \<le> uint ts div 60 div 60" 
  proof -
    have "uint ts div 60 div 60 \<le> uint ts" unfolding div_3600 [symmetric] using zdiv_mono2 [of "uint ts" 1 3600] by simp
    then show "uint ts div 60 div 60 < 2147483648" using lt by simp
  qed (simp_all add: pos_imp_zdiv_nonneg_iff)
  show s: "sint ts = uint ticks div 1000" using sint_small [OF lt] u by simp
  have s3: "sint (ts div 60 div 60) = uint ts div 60 div 60" "sint (ts div 60 mod 60) = uint ts div 60 mod 60"
    "sint (ts mod 60) = uint ts mod 60"
    using sint_small [of "ts div 60 div 60"] sint_small [of "ts div 60 mod 60"] sint_small [of "ts mod 60"] d
    unfolding c by linarith+
  show "hms ticks = (sint (ts div 60 div 60), sint (ts div 60 mod 60), sint (ts mod 60))"
    unfolding s3 hms_def u [symmetric] Let_def div_3600 by (rule refl)
  show "sint (ts div 60 div 60) \<noteq> INT_MIN" "sint (ts div 60 mod 60) \<noteq> INT_MIN" "sint (ts mod 60) \<noteq> INT_MIN" "sint ts \<noteq> INT_MIN"
    unfolding s3 s INT_MIN_def using d b div_int_pos_iff [of "uint ticks" 1000] pos_mod_sign [of 60 "uint ts"] pos_mod_sign [of 60 "uint ts div 60"] by linarith+
qed

lemma uptime_plain:
  assumes "argv (k_buffer k) args ws" "length args = 1"
  shows "uptime args k = (case hms (tick (k_timer k)) of (h, m, s) \<Rightarrow>
    emits (lit ''Current Uptime: '' @ dec_string h @ lit ''h '' @ dec_string m @ lit ''m '' @ dec_string s @ lit (''s'' @ nl)) k)"
proof -
  have "uptime_opts (k_buffer k) args 1 f = Some (Some f)" for f
    using assms(2) by (subst uptime_opts.simps) simp
  then show ?thesis
    using uptime_values [of "tick (k_timer k)"]
    by (simp add: uptime_def get_tick_def prints_lit print_unit_emits emits_append [symmetric] Let_def)
qed

section \<open>Properties\<close>

text \<open>C32: echo prints the words after its options, each followed by a space, and a line feed unless -n was
  among the options; -h prints the help instead. Nothing but the console changes.\<close>

theorem echo_correct:
  assumes "kernel_ok k" "argv (k_buffer k) args ws" "args \<noteq> []"
  shows "\<exists>t. echo args k = Some (k\<lparr>k_term := t\<rparr>) \<and> term_ok t \<and>
    puts terminal_putchar (echo_text (tl ws)) (k_term k) = Some t"
proof -
  have "term_ok (k_term k)" using assms(1) by (simp add: kernel_ok_def)
  then obtain t where "puts terminal_putchar (echo_text (tl ws)) (k_term k) = Some t" "term_ok t"
    using vga.puts_ok by blast
  then show ?thesis using echo_emits [OF assms(2,3)] by (simp add: emits_def on_term_def)
qed

theorem echo_correct_witness:
  "\<exists>t. echo [0, 5, 8] (example_kernel\<lparr>k_buffer := lit ''echo'' @ [0] @ lit ''-n'' @ [0] @ lit ''hi'' @ replicate 246 0\<rparr>) =
      Some (example_kernel\<lparr>k_buffer := lit ''echo'' @ [0] @ lit ''-n'' @ [0] @ lit ''hi'' @ replicate 246 0, k_term := t\<rparr>) \<and>
     puts terminal_putchar (lit ''hi '') boot_terminal = Some t"
proof -
  let ?b = "lit ''echo'' @ [0] @ lit ''-n'' @ [0] @ lit ''hi'' @ replicate 246 0"
  let ?k = "example_kernel\<lparr>k_buffer := ?b\<rparr>"
  have "kernel_ok ?k" using example_kernel_ok by (simp add: kernel_ok_def is_line_def example_kernel_def lit_def)
  moreover have "argv (k_buffer ?k) [0, 5, 8] [lit ''echo'', lit ''-n'', lit ''hi'']"
    by (simp add: argv_def lit_def)
  ultimately obtain t where "echo [0, 5, 8] ?k = Some (?k\<lparr>k_term := t\<rparr>)"
    "puts terminal_putchar (echo_text (tl [lit ''echo'', lit ''-n'', lit ''hi''])) (k_term ?k) = Some t"
    using echo_correct [of ?k "[0, 5, 8]" "[lit ''echo'', lit ''-n'', lit ''hi'']"] by blast
  moreover have "echo_text (tl [lit ''echo'', lit ''-n'', lit ''hi'']) = lit ''hi ''"
    by (simp add: echo_text_def lit_def)
  ultimately show ?thesis by (intro exI [of _ t]) (simp add: example_kernel_def)
qed

text \<open>C34: uptime without options prints hours, minutes and seconds that add up to the whole seconds of the
  tick counter, minutes and seconds below 60.\<close>

theorem uptime_correct:
  assumes "kernel_ok k" "argv (k_buffer k) args ws" "length args = 1"
  shows "\<exists>h m s t. h * 3600 + m * 60 + s = uint (tick (k_timer k)) div 1000 \<and> 0 \<le> h \<and> 0 \<le> m \<and> m < 60 \<and> 0 \<le> s \<and> s < 60 \<and>
    uptime args k = Some (k\<lparr>k_term := t\<rparr>) \<and>
    puts terminal_putchar (lit ''Current Uptime: '' @ dec_string h @ lit ''h '' @ dec_string m @ lit ''m '' @
      dec_string s @ lit (''s'' @ nl)) (k_term k) = Some t"
proof -
  obtain h m s where r: "hms (tick (k_timer k)) = (h, m, s)" by (cases "hms (tick (k_timer k))") auto
  let ?cs = "lit ''Current Uptime: '' @ dec_string h @ lit ''h '' @ dec_string m @ lit ''m '' @ dec_string s @ lit (''s'' @ nl)"
  have "term_ok (k_term k)" using assms(1) by (simp add: kernel_ok_def)
  then obtain t where t: "puts terminal_putchar ?cs (k_term k) = Some t" using vga.puts_ok by blast
  have "uptime args k = emits ?cs k" using uptime_plain [OF assms(2,3)] r by simp
  then have "uptime args k = Some (k\<lparr>k_term := t\<rparr>)" using emits_puts [OF t] by (simp only:)
  then show ?thesis using hms_spec [OF r] t by blast
qed

theorem uptime_correct_witness:
  "\<exists>t. uptime [0] (example_kernel\<lparr>k_buffer := lit ''uptime'' @ replicate 250 0\<rparr>) =
     Some (example_kernel\<lparr>k_buffer := lit ''uptime'' @ replicate 250 0, k_term := t\<rparr>)"
proof -
  let ?k = "example_kernel\<lparr>k_buffer := lit ''uptime'' @ replicate 250 0\<rparr>"
  have "kernel_ok ?k" using example_kernel_ok by (simp add: kernel_ok_def is_line_def example_kernel_def lit_def)
  moreover have "argv (k_buffer ?k) [0] [lit ''uptime'']" by (simp add: argv_def lit_def)
  ultimately show ?thesis using uptime_correct [of ?k "[0]" "[lit ''uptime'']"] by auto
qed

text \<open>C33: setprompt stores its words as user and system name, each cut to 63 bytes, and the prompt shown from
  then on is the template with %user% and %os% replaced by them, whatever bytes they contain.\<close>

theorem setprompt_correct:
  assumes "kernel_ok k" "argv (k_buffer k) [c, p, q] [w, u, v]"
  shows "\<exists>k1 t. setprompt [c, p, q] k = Some k1 \<and> kernel_ok k1 \<and> k_term k1 = k_term k \<and>
    shell_render_prompt k1 = Some (k1\<lparr>k_term := t\<rparr>) \<and>
    puts terminal_putchar (prompt_text (take 63 u) (take 63 v)) (k_term k) = Some t"
proof -
  have at: "str_at (k_buffer k) p u" "str_at (k_buffer k) q v" using assms(2) by (simp_all add: argv_def)
  have n: "is_name (k_user k)" "is_name (k_os k)" using assms(1) by (simp_all add: kernel_ok_def)
  obtain b1 where b1: "strlcpy (k_user k) 0 (k_buffer k) p 64 = Some b1" "is_name b1" "cstring b1 = take 63 u"
    using strlcpy_name [OF at(1) n(1)] by blast
  obtain b2 where b2: "strlcpy (k_os k) 0 (k_buffer k) q 64 = Some b2" "is_name b2" "cstring b2 = take 63 v"
    using strlcpy_name [OF at(2) n(2)] by blast
  let ?k = "k\<lparr>k_user := b1, k_os := b2\<rparr>"
  have ok: "kernel_ok ?k" using assms(1) b1(2) b2(2) by (simp add: kernel_ok_def)
  have "term_ok (k_term k)" using assms(1) by (simp add: kernel_ok_def)
  then obtain t where t: "puts terminal_putchar (prompt_text (take 63 u) (take 63 v)) (k_term k) = Some t"
    using vga.puts_ok by blast
  have "setprompt [c, p, q] k = Some ?k" using b1(1) b2(1) by (simp add: setprompt_def NAME_SIZE_def)
  moreover have "shell_render_prompt ?k = Some (?k\<lparr>k_term := t\<rparr>)"
    using shell_render_prompt_emits [OF ok] b1(3) b2(3) emits_puts [of _ ?k t] t by simp
  ultimately show ?thesis using ok t by (intro exI [of _ ?k] exI [of _ t]) simp
qed

theorem setprompt_correct_witness:
  "\<exists>k1. setprompt [0, 2, 4] (example_kernel\<lparr>k_buffer := [115, 0, 97, 0, 98, 0] @ replicate 250 0\<rparr>) = Some k1 \<and>
     (\<exists>t. puts terminal_putchar (prompt_text [97] [98]) boot_terminal = Some t)"
proof -
  let ?k = "example_kernel\<lparr>k_buffer := [115, 0, 97, 0, 98, 0] @ replicate 250 0\<rparr>"
  have "kernel_ok ?k" using example_kernel_ok by (simp add: kernel_ok_def is_line_def example_kernel_def)
  moreover have "argv (k_buffer ?k) [0, 2, 4] [[115], [97], [98]]" by (simp add: argv_def)
  ultimately show ?thesis
    using setprompt_correct [of ?k 0 2 4 "[115]" "[97]" "[98]"] by (auto simp: example_kernel_def)
qed

end
