(* ===== verification/Shell_Parse.thy ===== *)
theory Shell_Parse
  imports Commands_Spec Shell
begin

text \<open>
  What \<open>shell_parse\<close> makes of a line: its words, at most sixteen, each terminated in place.
\<close>

text \<open>The words of a line, separated by spaces.\<close>

function words :: "byte list \<Rightarrow> byte list list" where
  "words [] = []" |
  "words (c # cs) = (if c = 32 then words cs
     else (c # takeWhile (\<lambda>c. c \<noteq> 32) cs) # words (dropWhile (\<lambda>c. c \<noteq> 32) cs))"
  by pat_completeness auto
termination
  by (relation "measure length") (auto simp: le_imp_less_Suc length_dropWhile_le)

lemma words_spaces: "words cs = words (dropWhile (\<lambda>c. c = 32) cs)"
  by (induction cs) auto

lemma word_end_spec:
  "str_at b i cs \<Longrightarrow> word_end b i = Some (i + length (takeWhile (\<lambda>c. c \<noteq> 32) cs))"
proof (induction cs arbitrary: i)
  case Nil
  then show ?case by (subst word_end.simps) simp
next
  case (Cons c cs)
  then show ?case by (subst word_end.simps) auto
qed

lemma skip_spaces_spec:
  "str_at b i cs \<Longrightarrow> skip_spaces b i = Some (i + length (takeWhile (\<lambda>c. c = 32) cs))"
proof (induction cs arbitrary: i)
  case Nil
  then show ?case by (subst skip_spaces.simps) simp
next
  case (Cons c cs)
  then show ?case by (subst skip_spaces.simps) auto
qed

lemma str_at_prefix_cut:
  assumes "str_at b i (w @ cs)"
  shows "i + length w < length b" "str_at (b[i + length w := 0]) i w"
proof -
  show l: "i + length w < length b" using str_at_length [OF assms] by simp
  have "0 \<notin> set w" "take (length w) (drop i b) = w"
    using assms by (auto simp: str_at_iff) (metis append_eq_conv_conj min.absorb1 le_add1 take_take)
  then show "str_at (b[i + length w := 0]) i w" using l
    by (auto simp: str_at_iff drop_update_swap)
qed

text \<open>The loop: words already found stay, because it writes behind them only.\<close>

definition ends_by :: "nat list \<Rightarrow> byte list list \<Rightarrow> nat \<Rightarrow> bool" where
  "ends_by args ws i \<longleftrightarrow> list_all2 (\<lambda>p w. p + length w < i) args ws"

lemma argv_update:
  "argv b args ws \<Longrightarrow> ends_by args ws i \<Longrightarrow> i \<le> j \<Longrightarrow> argv (b[j := v]) args ws"
  unfolding argv_def ends_by_def
  by (fastforce simp: list_all2_conv_all_nth intro!: str_at_update_outside)

lemma list_all2_snoc: "list_all2 P (xs @ [x]) (ys @ [y]) \<longleftrightarrow> list_all2 P xs ys \<and> P x y"
  using list_all2_rev [of P "xs @ [x]" "ys @ [y]"] list_all2_rev [of P xs ys] by auto

lemma argv_snoc: "argv b (args @ [p]) (ws @ [w]) \<longleftrightarrow> argv b args ws \<and> str_at b p w"
  by (simp add: argv_def list_all2_snoc)

lemma ends_by_snoc: "ends_by (args @ [p]) (ws @ [w]) j \<longleftrightarrow> ends_by args ws j \<and> p + length w < j"
  by (simp add: ends_by_def list_all2_snoc)

lemma ends_by_mono: "ends_by args ws i \<Longrightarrow> i \<le> j \<Longrightarrow> ends_by args ws j"
  by (fastforce simp: ends_by_def list_all2_conv_all_nth)

text \<open>One round of the loop: the word at the position is recorded, cut off by a 0, and the spaces behind it are skipped.\<close>

lemma parse_last_word:
  assumes at: "str_at b i cs" and c: "cs \<noteq> []" "32 \<notin> set cs" and la: "length args < MAX_CMD_ARGS"
  shows "parse_loop b i args = Some (b, args @ [i])"
proof -
  let ?j = "i + length cs"
  have w: "takeWhile (\<lambda>c. c \<noteq> 32) cs = cs" using c(2) by (simp add: takeWhile_eq_all_conv) metis
  have we: "word_end b i = Some ?j" using word_end_spec [OF at] w by simp
  have l: "?j < length b" using str_at_length [OF at] .
  have r0: "rd b ?j = Some 0" using str_at_end [OF at] l by (simp add: rd_Some_conv)
  have sk: "skip_spaces b ?j = Some ?j" by (subst skip_spaces.simps) (simp add: r0)
  have fin: "parse_loop b ?j (args @ [i]) = Some (b, args @ [i])"
    by (subst parse_loop.simps) (simp add: r0)
  obtain d ds where "cs = d # ds" using c(1) by (cases cs) auto
  then have "rd b i = Some d" "d \<noteq> 0" using at by auto
  then show ?thesis using la we r0 l sk fin by (subst parse_loop.simps) (simp add: rd_Some_conv)
qed

lemma parse_next_word:
  assumes at: "str_at b i (w @ 32 # rs)" and w: "w \<noteq> []" "32 \<notin> set w" and la: "length args < MAX_CMD_ARGS"
  defines "b1 \<equiv> b[i + length w := 0]" and "i1 \<equiv> i + length w + 1 + length (takeWhile (\<lambda>c. c = 32) rs)"
  shows "parse_loop b i args = parse_loop b1 i1 (args @ [i])"
    and "str_at b1 i1 (dropWhile (\<lambda>c. c = 32) rs)" and "str_at b1 i w"
proof -
  let ?j = "i + length w" and ?cs = "w @ 32 # rs"
  have t: "takeWhile (\<lambda>c. c \<noteq> 32) ?cs = w" using w(2) by (induction w) auto
  have we: "word_end b i = Some ?j" using word_end_spec [OF at] t by simp
  have l: "?j < length b" and cut: "str_at b1 i w" using str_at_prefix_cut [OF at] by (simp_all add: b1_def)
  then show "str_at b1 i w" by simp
  have e: "b ! ?j = 32" using str_at_nth [OF at, of "length w"] l by (simp add: rd_Some_conv)
  have "str_at b (Suc ?j) rs" using str_at_drop [OF at, of "Suc (length w)"] by simp
  then have rs: "str_at b1 (Suc ?j) rs" unfolding b1_def by (rule str_at_update_outside) simp
  have sk: "skip_spaces b1 (Suc ?j) = Some i1" using skip_spaces_spec [OF rs] by (simp add: i1_def)
  show "str_at b1 i1 (dropWhile (\<lambda>c. c = 32) rs)"
    using str_at_drop [OF rs, of "length (takeWhile (\<lambda>c. c = 32) rs)"]
    by (simp add: i1_def length_takeWhile_le dropWhile_eq_drop)
  obtain d ds where "w = d # ds" using w(1) by (cases w) auto
  then have "rd b i = Some d" "d \<noteq> 0" using at by auto
  then show "parse_loop b i args = parse_loop b1 i1 (args @ [i])"
    using la we l e sk by (subst parse_loop.simps) (simp add: b1_def)
qed

lemma parse_loop_spec:
  "str_at b i cs \<Longrightarrow> cs = [] \<or> hd cs \<noteq> 32 \<Longrightarrow> argv b args ws \<Longrightarrow> ends_by args ws i \<Longrightarrow> length args \<le> MAX_CMD_ARGS \<Longrightarrow>
   \<exists>b' args'. parse_loop b i args = Some (b', args') \<and>
     argv b' args' (ws @ take (MAX_CMD_ARGS - length args) (words cs)) \<and> length b' = length b"
proof (induction "length cs" arbitrary: b i cs args ws rule: less_induct)
  case less
  show ?case
  proof (cases "cs = [] \<or> length args = MAX_CMD_ARGS")
    case True
    then have "parse_loop b i args = Some (b, args)"
      using less.prems(1) by (subst parse_loop.simps) (cases cs; auto)
    then show ?thesis using True less.prems(3) by auto
  next
    case False
    then obtain c ds where cs: "cs = c # ds" by (cases cs) auto
    let ?w = "takeWhile (\<lambda>c. c \<noteq> 32) cs" and ?r = "dropWhile (\<lambda>c. c \<noteq> 32) cs"
    let ?j = "i + length ?w"
    have c: "c \<noteq> 32" using less.prems(2) cs by simp
    have wr: "?w @ ?r = cs" by simp
    have words: "words cs = ?w # words ?r" using cs c by simp
    have la: "length args < MAX_CMD_ARGS" using False less.prems(5) by simp
    have w: "?w \<noteq> []" "32 \<notin> set ?w" using cs c by (auto dest: set_takeWhileD)
    have lr: "length ?r < length cs" using wr w(1) by (metis length_append length_greater_0_conv less_add_same_cancel2)
    show ?thesis
    proof (cases ?r)
      case Nil
      then have e: "?w = cs" using wr by simp
      have "parse_loop b i args = Some (b, args @ [i])"
        by (rule parse_last_word [OF less.prems(1) _ _ la]) (use w e in simp_all)
      moreover have "argv b (args @ [i]) (ws @ [?w])"
        using less.prems(1,3) unfolding e by (simp add: argv_snoc)
      moreover have "take (MAX_CMD_ARGS - length args) (words cs) = [?w]" using words Nil la by simp
      ultimately show ?thesis by auto
    next
      case (Cons s rs)
      have s: "s = 32" using hd_dropWhile [of "\<lambda>c. c \<noteq> 32" cs] Cons by auto
      let ?b = "b[?j := 0]" and ?t = "dropWhile (\<lambda>c. c = 32) rs"
      let ?i = "?j + 1 + length (takeWhile (\<lambda>c. c = 32) rs)"
      have at: "str_at b i (?w @ 32 # rs)" using less.prems(1) wr Cons s by simp
      note step = parse_next_word [OF at w la]
      have t: "?t = [] \<or> hd ?t \<noteq> 32" using hd_dropWhile [of "\<lambda>c. c = 32" rs] by blast
      have lt: "length ?t < length cs"
        using lr Cons length_dropWhile_le [of "\<lambda>c. c = 32" rs] by simp
      have a': "argv ?b (args @ [i]) (ws @ [?w])"
        using argv_update [OF less.prems(3,4), of ?j 0] step(3) by (simp add: argv_snoc)
      have e': "ends_by (args @ [i]) (ws @ [?w]) ?i"
        using ends_by_mono [OF less.prems(4), of ?i] by (simp add: ends_by_snoc)
      obtain b' args' where ih: "parse_loop ?b ?i (args @ [i]) = Some (b', args')"
        "argv b' args' ((ws @ [?w]) @ take (MAX_CMD_ARGS - length (args @ [i])) (words ?t))" "length b' = length ?b"
        using less.hyps [OF lt step(2) t a' e'] la by auto
      have "words ?r = words ?t" using Cons s words_spaces [of rs] by simp
      then have "ws @ take (MAX_CMD_ARGS - length args) (words cs) =
          (ws @ [?w]) @ take (MAX_CMD_ARGS - length (args @ [i])) (words ?t)"
        using words la by (simp add: take_Cons' Suc_diff_Suc)
      with ih step(1) show ?thesis by auto
    qed
  qed
qed

lemma words_rstrip_hd: "cs \<noteq> [] \<Longrightarrow> hd (lstrip cs) \<noteq> 32 \<or> lstrip cs = []"
  using hd_dropWhile [of is_blank cs] by (auto simp: lstrip_def is_blank_def)

text \<open>The words of the line without its outer blanks.\<close>

definition line_words :: "byte list \<Rightarrow> byte list list" where
  "line_words cs = take MAX_CMD_ARGS (words (rstrip (lstrip cs)))"

lemma rstrip_hd: "rstrip cs \<noteq> [] \<Longrightarrow> hd (rstrip cs) = hd cs"
proof -
  assume a: "rstrip cs \<noteq> []"
  have "prefix (rstrip cs) cs" unfolding rstrip_def
    by (metis prefix_def rev_append rev_rev_ident takeWhile_dropWhile_id)
  then obtain zs where "cs = rstrip cs @ zs" by (auto simp: prefix_def)
  then show ?thesis using a by (metis hd_append2)
qed

lemma str_at_zero: "str_at b p cs \<Longrightarrow> 0 \<in> set b"
  using str_at_end [of b p cs] by (auto simp: rd_Some_conv in_set_conv_nth)

lemma shell_parse_spec:
  assumes "str_at b 0 cs"
  shows "\<exists>b' args. shell_parse b = Some (b', args) \<and> argv b' args (line_words cs) \<and> length b' = length b \<and> 0 \<in> set b'"
proof -
  let ?t = "rstrip (lstrip cs)"
  obtain b1 p where t: "str_trim b (Some 0) = Some (b1, Some p)" "str_at b1 p ?t" "length b1 = length b"
    using str_trim_str_at [OF assms] by auto
  show ?thesis
  proof (cases ?t)
    case Nil
    then have "shell_parse b = Some (b1, [])" using t by (simp add: shell_parse_def)
    then show ?thesis using t(3) Nil str_at_zero [OF t(2)] by (auto simp: line_words_def argv_def)
  next
    case (Cons c ds)
    then have "hd ?t \<noteq> 32"
      using rstrip_hd [of "lstrip cs"] words_rstrip_hd [of cs] hd_dropWhile [of is_blank cs]
      by (metis lstrip_def is_blank_def list.distinct(1) list.size(3) rev_is_Nil_conv rstrip_def dropWhile.simps(1) rev.simps(1))
    then have h: "?t = [] \<or> hd ?t \<noteq> 32" by blast
    have "argv b1 [] []" "ends_by [] [] p" by (simp_all add: argv_def ends_by_def)
    from parse_loop_spec [OF t(2) h this] obtain b' args where
      "parse_loop b1 p [] = Some (b', args)" "argv b' args (line_words cs)" "length b' = length b1"
      by (auto simp: line_words_def)
    moreover have "rd b1 p = Some c" "c \<noteq> 0" using t(2) Cons by auto
    moreover have "line_words cs \<noteq> []"
      using h Cons by (auto simp: line_words_def MAX_CMD_ARGS_def)
    then have "0 \<in> set b'" using \<open>argv b' args (line_words cs)\<close> str_at_zero
      by (cases "line_words cs") (auto simp: argv_def list_all2_Cons2)
    ultimately show ?thesis using t by (auto simp: shell_parse_def)
  qed
qed

end
