(* ===== verification/Shell_Edit.thy ===== *)
theory Shell_Edit
  imports Shell_Parse
begin

text \<open>
  The line editor: the line buffer, the place of the cursor in it and the screen stay in step. A line
  that is being edited is a pair of byte strings, before and after the cursor; the screen is the
  background with the line written over it from the prompt's end on.
\<close>

section \<open>The line buffer\<close>

lemma overwrite_extend:
  "p + length xs < length s \<Longrightarrow> (overwrite s p xs)[p + length xs := v] = overwrite s p (xs @ [v])"
  using overwrite_append [of p xs "[v]" s] overwrite_single [of "p + length xs" "overwrite s p xs" v] by simp

lemma line_split:
  assumes "str_at b 0 cs" "length b = 256"
  obtains rest where "b = cs @ 0 # rest" "0 \<notin> set cs" "length cs + length rest = 255"
proof -
  obtain rest where r: "b = cs @ 0 # rest" "0 \<notin> set cs" using assms(1) by (auto simp: str_at_0_iff)
  moreover have "length cs + length rest = 255" using assms(2) unfolding r(1) by simp
  ultimately show ?thesis using that by blast
qed

lemma shift_up_spec:
  "pos + n < length b \<Longrightarrow> shift_up b (int (pos + n)) (int pos) = Some (overwrite b (Suc pos) (take n (drop pos b)))"
proof (induction n arbitrary: b)
  case 0
  then show ?case by (subst shift_up.simps) simp
next
  case (Suc n)
  let ?b = "b[pos + Suc n := b ! (pos + n)]"
  have x: "int (pos + Suc n) - 1 = int (pos + n)" by simp
  have e: "take n (drop pos ?b) = take n (drop pos b)" by (simp add: drop_update_swap)
  have i: "pos + n < length b" using Suc.prems by simp
  have l: "length (take n (drop pos b)) = n" using Suc.prems by simp
  have "pos + n < length ?b" using i by simp
  from Suc.IH [OF this] have "shift_up ?b (int (pos + n)) (int pos) = Some (overwrite ?b (Suc pos) (take n (drop pos b)))"
    unfolding e .
  moreover have "overwrite ?b (Suc pos) (take n (drop pos b)) = overwrite b (Suc pos) (take (Suc n) (drop pos b))"
    using overwrite_snoc [of "Suc pos" "take n (drop pos b)" b "b ! (pos + n)"] Suc.prems l
    by (simp add: take_Suc_conv_app_nth)
  moreover have "rdi b (int (pos + n)) = Some (b ! (pos + n))" "wri b (int (pos + Suc n)) (b ! (pos + n)) = Some ?b"
    using Suc.prems i by (simp_all only: rdi_nat wri_nat rd_in wr_in)
  ultimately show ?case unfolding shift_up.simps [of b] x by simp
qed

lemma insert_bytes:
  assumes "rest \<noteq> []"
  shows "do { b \<leftarrow> shift_up (l @ r @ 0 # rest) (int (length l + length r)) (int (length l));
      b \<leftarrow> wri b (int (length l)) c; wr b (length l + length r + 1) 0 } = Some (l @ c # r @ 0 # tl rest)"
proof -
  obtain z zs where rest: "rest = z # zs" using assms by (cases rest) auto
  let ?b = "l @ r @ 0 # rest"
  obtain y where y: "take (Suc (length l)) ?b = l @ [y]" by (cases r) auto
  have "overwrite ?b (Suc (length l)) (take (length r) (drop (length l) ?b)) = take (Suc (length l)) ?b @ r @ rest"
    by (simp add: overwrite_def)
  then have "overwrite ?b (Suc (length l)) (take (length r) (drop (length l) ?b)) = l @ y # r @ rest" unfolding y by simp
  then have "shift_up ?b (int (length l + length r)) (int (length l)) = Some (l @ y # r @ rest)"
    using shift_up_spec [of "length l" "length r" ?b] by simp
  then show ?thesis by (simp add: list_update_append rest)
qed

lemma erase_bytes:
  "do { b \<leftarrow> for_upto (length l + 1) (length l + 1 + length r) (\<lambda>x b. do { y \<leftarrow> rd b x; wri b (int x - 1) y })
          (l @ c # r @ 0 # rest);
        wri b (int (length l + 1 + length r) - 1) 0 } = Some (l @ r @ 0 # 0 # rest)"
proof -
  let ?b = "l @ c # r @ 0 # rest" and ?p = "length l"
  let ?I = "\<lambda>j s. s = overwrite ?b ?p (take (j - (?p + 1)) r)"
  have "\<exists>s. for_upto (?p + 1) (?p + 1 + length r) (\<lambda>x b. do { y \<leftarrow> rd b x; wri b (int x - 1) y }) ?b = Some s \<and>
      ?I (?p + 1 + length r) s"
  proof (rule for_upto_inv [where I = ?I])
    fix j s assume j: "?p + 1 \<le> j" "j < ?p + 1 + length r" and s: "?I j s"
    define i where "i = j - (?p + 1)"
    have i: "i < length r" "j = ?p + 1 + i" using j by (simp_all add: i_def)
    have len: "?p + length (take i r) \<le> length ?b" by simp
    have "rd s j = rd ?b j" unfolding s i_def [symmetric] using i by (subst rd_overwrite [OF len]) simp
    then have y: "rd s j = Some (r ! i)" using i by (simp add: nth_append)
    have x: "int j - 1 = int (?p + i)" using i by simp
    have "length s = length ?b" unfolding s i_def [symmetric] using len by (rule length_overwrite)
    then have "wri s (int j - 1) (r ! i) = Some (s[?p + i := r ! i])" unfolding x wri_nat using i by simp
    moreover have "s[?p + i := r ! i] = overwrite ?b ?p (take (Suc j - (?p + 1)) r)"
      unfolding s i_def [symmetric] using i overwrite_extend [of ?p "take i r" ?b "r ! i"]
      by (simp add: take_Suc_conv_app_nth)
    ultimately show "\<exists>s'. do { y \<leftarrow> rd s j; wri s (int j - 1) y } = Some s' \<and> ?I (Suc j) s'"
      using y by simp
  qed simp_all
  moreover have "overwrite ?b ?p r = l @ r @ drop (length r) (c # r @ 0 # rest)" by (simp add: overwrite_def)
  moreover obtain y where "drop (length r) (c # r @ 0 # rest) = y # 0 # rest"
    by (cases r rule: rev_cases) auto
  moreover have "int (?p + 1 + length r) - 1 = int (?p + length r)" by simp
  ultimately show ?thesis by (auto simp: list_update_append simp del: of_nat_add)
qed

section \<open>The screen\<close>

definition cells :: "byte \<Rightarrow> byte list \<Rightarrow> u16 list" where
  "cells color cs = map (\<lambda>c. vga_entry c color) cs"

lemma length_cells [simp]: "length (cells color cs) = length cs"
  by (simp add: cells_def)

lemma cells_simps [simp]: "cells color [] = []" "cells color (c # cs) = vga_entry c color # cells color cs"
  "cells color (cs @ ds) = cells color cs @ cells color ds"
  by (simp_all add: cells_def)

text \<open>The line \<open>l @ r\<close> on the background \<open>W\<close> from cell \<open>p\<close> on, the cursor between \<open>l\<close> and \<open>r\<close>.\<close>

definition shows_line :: "u16 list \<Rightarrow> nat \<Rightarrow> byte list \<Rightarrow> byte list \<Rightarrow> terminal \<Rightarrow> bool" where
  "shows_line W p l r t \<longleftrightarrow> term_ok t \<and> current_state t = Normal \<and> length W = 2000 \<and>
     (\<forall>i. p \<le> i \<longrightarrow> i < 2000 \<longrightarrow> W ! i = blank t) \<and> (\<forall>c \<in> set (l @ r). plain c) \<and>
     p + length (l @ r) < 2000 \<and> cursor_pos t = p + length l \<and>
     terminal_buffer t = overwrite W p (cells (terminal_color t) (l @ r))"

lemma overwrite_over:
  "p + length xs + length zs \<le> length W \<Longrightarrow> length ys \<le> length zs \<Longrightarrow>
   overwrite (overwrite W p (xs @ ys)) (p + length xs) zs = overwrite W p (xs @ zs)"
proof (cases "p < length W")
  case False
  assume "p + length xs + length zs \<le> length W" "length ys \<le> length zs"
  then have "length xs = 0" "length ys = 0" "length zs = 0" using False by linarith+
  then show ?thesis by simp
qed (auto simp: overwrite_def min_def ac_simps)

lemma overwrite_update: "overwrite (W[p := v]) p (z # zs) = overwrite W p (z # zs)"
  by (simp add: overwrite_def)

lemma overwrite_blank:
  "p + length xs < length W \<Longrightarrow> W ! (p + length xs) = v \<Longrightarrow> overwrite W p (xs @ [v]) = overwrite W p xs"
  using overwrite_snoc [of p xs W v] by simp (metis list_update_id)

lemma move_cursor_by:
  assumes "term_ok t" "int (cursor_pos t) + d = int q" "q < 2000"
  shows "\<exists>t'. terminal_move_cursor d t = Some t' \<and> term_ok t' \<and> current_state t' = current_state t \<and>
    cursor_pos t' = q \<and> terminal_buffer t' = terminal_buffer t \<and> terminal_color t' = terminal_color t"
proof -
  have c: "cursor_pos t < 2000" using cursor_pos_bound [OF assms(1)] .
  have d: "- 2000000000 \<le> d" "d \<le> 2000000000" using c assms(2,3) by linarith+
  have p: "nat (max 0 (min 1999 (int (cursor_pos t) + d))) = q" using assms(2,3) by simp
  have "q div 80 < 25" using assms(3) by auto
  then show ?thesis using terminal_move_cursor_eq [OF assms(1) d] assms(1)
    unfolding p by (auto simp: term_ok_def cursor_pos_def)
qed

lemma backspace_cell:
  assumes "term_ok t" "cursor_pos t = Suc q"
  shows "\<exists>t'. terminal_backspace t = Some t' \<and> term_ok t' \<and> current_state t' = current_state t \<and>
    cursor_pos t' = q \<and> terminal_buffer t' = (terminal_buffer t)[q := blank t] \<and> terminal_color t' = terminal_color t"
proof (cases "terminal_column t")
  case 0
  then have "terminal_row t * 80 = Suc q" using assms(2) by (simp add: cursor_pos_def)
  then obtain n where "terminal_row t = Suc n" "q = n * 80 + 79" by (cases "terminal_row t") auto
  then show ?thesis using assms(1) 0
    by (auto simp: terminal_backspace_def terminal_putentryat_def store_cell_in terminal_update_cursor_eq
       term_ok_def VGA_WIDTH_def Let_def cursor_pos_def blank_def)
next
  case (Suc n)
  then show ?thesis using assms
    by (auto simp: terminal_backspace_def terminal_putentryat_def store_cell_in terminal_update_cursor_eq
       term_ok_def VGA_WIDTH_def Let_def cursor_pos_def blank_def)
qed

lemma shows_line_move:
  assumes s: "shows_line W p l r t" and eq: "l @ r = l' @ r'" and d: "int (length l) + d = int (length l')"
  shows "\<exists>t'. terminal_move_cursor d t = Some t' \<and> shows_line W p l' r' t'"
proof -
  have len: "length l + length r = length l' + length r'" using arg_cong [OF eq, of length] by simp
  have "\<exists>t'. terminal_move_cursor d t = Some t' \<and> term_ok t' \<and> current_state t' = current_state t \<and>
    cursor_pos t' = p + length l' \<and> terminal_buffer t' = terminal_buffer t \<and> terminal_color t' = terminal_color t"
    using s d len by (intro move_cursor_by) (auto simp: shows_line_def)
  then show ?thesis using s unfolding shows_line_def eq by (auto simp: blank_def)
qed

text \<open>Printing a tail over the line from the cursor on.\<close>

lemma shows_line_print:
  assumes s: "shows_line W p l r t" and c: "\<forall>c \<in> set cs. plain c" "length r \<le> length cs" "p + length l + length cs < 2000"
  shows "\<exists>t'. puts terminal_putchar cs t = Some t' \<and> shows_line W p (l @ cs) [] t'"
proof -
  have f: "term_ok t" "current_state t = Normal" "cursor_pos t + length cs < 2000"
    using s c by (simp_all add: shows_line_def)
  obtain t' where t': "puts terminal_putchar cs t = Some t'" "term_ok t'" "current_state t' = Normal"
    "cursor_pos t' = cursor_pos t + length cs" "terminal_color t' = terminal_color t"
    "terminal_buffer t' = overwrite (terminal_buffer t) (cursor_pos t) (cells (terminal_color t) cs)"
    using puts_plain [OF f(1,2) c(1) f(3)] unfolding cells_def by blast
  have "overwrite (overwrite W p (cells (terminal_color t) (l @ r))) (p + length l) (cells (terminal_color t) cs) =
      overwrite W p (cells (terminal_color t) (l @ cs))"
    using overwrite_over [of p "cells (terminal_color t) l" "cells (terminal_color t) cs" W "cells (terminal_color t) r"] s c
    by (simp add: shows_line_def)
  then show ?thesis using t' s c by (auto simp: shows_line_def blank_def)
qed

text \<open>A trailing blank belongs to the background.\<close>

lemma shows_line_blank: "shows_line W p (l @ [32]) [] t \<Longrightarrow> shows_line W p l [32] t \<Longrightarrow> shows_line W p l [] t"
  using overwrite_blank [of p "cells (terminal_color t) l" W "blank t"] by (auto simp: shows_line_def blank_def)

lemma shows_line_backspace:
  assumes s: "shows_line W p (l @ [c]) [] t"
  shows "\<exists>t'. terminal_backspace t = Some t' \<and> shows_line W p l [] t'"
proof -
  have "term_ok t" "cursor_pos t = Suc (p + length l)" using s by (simp_all add: shows_line_def)
  from backspace_cell [OF this] obtain t' where
    t': "terminal_backspace t = Some t'" "term_ok t'" "current_state t' = current_state t" "cursor_pos t' = p + length l"
      "terminal_buffer t' = (terminal_buffer t)[p + length l := blank t]" "terminal_color t' = terminal_color t" by blast
  have len: "length W = 2000" "p + length l < 2000" "W ! (p + length l) = blank t" using s by (simp_all add: shows_line_def)
  have "(overwrite W p (cells (terminal_color t) (l @ [c])))[p + length l := blank t] =
      overwrite W p (cells (terminal_color t) l @ [blank t])"
    using len by (simp add: overwrite_def list_update_append min_def)
  also have "\<dots> = overwrite W p (cells (terminal_color t) l)" using len by (intro overwrite_blank) simp_all
  finally show ?thesis using s t' by (auto simp: shows_line_def blank_def)
qed

end
