(* ===== verification/Line_Editor.thy ===== *)
theory Line_Editor
  imports Shell_Edit
begin

text \<open>
  The line editor's contract as a locale, the keys' effect on an abstract line, and its interpretation
  on the keys of src/kernel/shell.c: buffer, position and screen always show the abstract line.
\<close>

section \<open>The interface\<close>

datatype edit = Type byte | Erase | Go_Left | Go_Right

text \<open>
  A line with its cursor: the bytes before it and the bytes after it. A line of 255 bytes is full, and drops what is typed.
\<close>

fun edit_line :: "edit \<Rightarrow> byte list \<times> byte list \<Rightarrow> byte list \<times> byte list" where
  "edit_line (Type c) (l, r) = (if length l + length r < 255 then (l @ [c], r) else (l, r))" |
  "edit_line Erase (l, r) = (butlast l, r)" |
  "edit_line Go_Left (l, r) = (if l = [] then (l, r) else (butlast l, last l # r))" |
  "edit_line Go_Right (l, r) = (case r of [] \<Rightarrow> (l, r) | c # r' \<Rightarrow> (l @ [c], r'))"

primrec edit_lines :: "edit list \<Rightarrow> byte list \<times> byte list \<Rightarrow> byte list \<times> byte list" where
  "edit_lines [] x = x" |
  "edit_lines (e # es) x = edit_lines es (edit_line e x)"

definition typed :: "edit list \<Rightarrow> nat" where
  "typed es = length (filter (\<lambda>e. case e of Type c \<Rightarrow> True | _ \<Rightarrow> False) es)"

lemma typed_simps [simp]: "typed [] = 0" "typed (Type c # es) = Suc (typed es)" "typed (Erase # es) = typed es"
  "typed (Go_Left # es) = typed es" "typed (Go_Right # es) = typed es"
  by (simp_all add: typed_def)

text \<open>The line does not grow beyond \<open>room\<close> bytes when at most \<open>n\<close> are typed, be it because it is full before.\<close>

definition in_room :: "nat \<Rightarrow> byte list \<times> byte list \<Rightarrow> nat \<Rightarrow> bool" where
  "in_room room x n \<longleftrightarrow> 255 \<le> room \<or> length (fst x) + length (snd x) + n \<le> room"

lemma edit_line_room: "in_room room x (typed (e # es) + n) \<Longrightarrow> in_room room (edit_line e x) (typed es + n)"
  unfolding in_room_def by (cases x; cases e; cases "fst x" rule: rev_cases; cases "snd x") auto

lemma edit_lines_room: "in_room room x (typed es + n) \<Longrightarrow> in_room room (edit_lines es x) n"
proof (induction es arbitrary: x)
  case (Cons e es)
  from Cons.IH [OF edit_line_room [OF Cons.prems]] show ?case by simp
qed simp

locale line_editor =
  fixes insert_key :: "byte \<Rightarrow> 's \<Rightarrow> 's option" and erase go_left go_right :: "'s \<Rightarrow> 's option"
    and edits :: "byte list \<Rightarrow> byte list \<Rightarrow> 's \<Rightarrow> bool" and key :: "byte \<Rightarrow> bool" and room :: nat
  assumes insert_law: "edits l r s \<Longrightarrow> key c \<Longrightarrow> length l + length r < 255 \<Longrightarrow> length l + length r < room \<Longrightarrow>
      \<exists>s'. insert_key c s = Some s' \<and> edits (l @ [c]) r s'"
    and insert_full_law: "edits l r s \<Longrightarrow> \<not> length l + length r < 255 \<Longrightarrow> insert_key c s = Some s"
    and erase_law: "edits (l @ [c]) r s \<Longrightarrow> \<exists>s'. erase s = Some s' \<and> edits l r s'"
    and erase_start_law: "edits [] r s \<Longrightarrow> erase s = Some s"
    and left_law: "edits (l @ [c]) r s \<Longrightarrow> \<exists>s'. go_left s = Some s' \<and> edits l (c # r) s'"
    and left_start_law: "edits [] r s \<Longrightarrow> go_left s = Some s"
    and right_law: "edits l (c # r) s \<Longrightarrow> \<exists>s'. go_right s = Some s' \<and> edits (l @ [c]) r s'"
    and right_end_law: "edits l [] s \<Longrightarrow> go_right s = Some s"
begin

primrec do_edit :: "edit \<Rightarrow> 's \<Rightarrow> 's option" where
  "do_edit (Type c) s = insert_key c s" |
  "do_edit Erase s = erase s" |
  "do_edit Go_Left s = go_left s" |
  "do_edit Go_Right s = go_right s"

lemma do_edit_law:
  assumes "edits l r s" "\<forall>c. e = Type c \<longrightarrow> key c \<and> in_room room (l, r) 1"
  shows "\<exists>s'. do_edit e s = Some s' \<and> edits (fst (edit_line e (l, r))) (snd (edit_line e (l, r))) s'"
proof (cases e)
  case (Type c)
  then show ?thesis using insert_law insert_full_law assms
    by (cases "length l + length r < 255") (auto simp: in_room_def)
next
  case Erase
  then show ?thesis using assms erase_law erase_start_law by (cases l rule: rev_cases) auto
next
  case Go_Left
  then show ?thesis using assms left_law left_start_law by (cases l rule: rev_cases) auto
next
  case Go_Right
  then show ?thesis using assms right_law right_end_law by (cases r) auto
qed

primrec do_edits :: "edit list \<Rightarrow> 's \<Rightarrow> 's option" where
  "do_edits [] s = Some s" |
  "do_edits (e # es) s = do { s' \<leftarrow> do_edit e s; do_edits es s' }"

lemma do_edits_law:
  "edits l r s \<Longrightarrow> (\<forall>c. Type c \<in> set es \<longrightarrow> key c) \<Longrightarrow> in_room room (l, r) (typed es) \<Longrightarrow>
   \<exists>s'. do_edits es s = Some s' \<and> edits (fst (edit_lines es (l, r))) (snd (edit_lines es (l, r))) s'"
proof (induction es arbitrary: l r s)
  case (Cons e es)
  have "\<forall>c. e = Type c \<longrightarrow> key c \<and> in_room room (l, r) 1" using Cons.prems by (auto simp: in_room_def)
  from do_edit_law [OF Cons.prems(1) this] obtain s1 where
    s1: "do_edit e s = Some s1" "edits (fst (edit_line e (l, r))) (snd (edit_line e (l, r))) s1" by blast
  obtain l' r' where e: "edit_line e (l, r) = (l', r')" by (cases "edit_line e (l, r)")
  have "in_room room (l', r') (typed es)" using edit_line_room [of room "(l, r)" e es 0] Cons.prems(3) e by simp
  then have "\<exists>s'. do_edits es s1 = Some s' \<and> edits (fst (edit_lines es (l', r'))) (snd (edit_lines es (l', r'))) s'"
    using Cons.IH [of l' r' s1] s1(2) Cons.prems(2) e by simp
  then show ?case using s1(1) e by simp
qed simp

text \<open>Typing a word and erasing it gives the line back.\<close>

lemma edit_lines_append: "edit_lines (es @ fs) x = edit_lines fs (edit_lines es x)"
  by (induction es arbitrary: x) auto

lemma type_word: "length l + length w + length r \<le> 255 \<Longrightarrow> edit_lines (map Type w) (l, r) = (l @ w, r)"
  by (induction w arbitrary: l) auto

lemma erase_word: "edit_lines (replicate (length w) Erase) (l @ w, r) = (l, r)"
proof (induction w arbitrary: r rule: rev_induct)
  case (snoc c w)
  have "edit_lines (replicate (length (w @ [c])) Erase) (l @ w @ [c], r) =
      edit_lines (replicate (length w) Erase) (edit_line Erase (l @ w @ [c], r))" by simp
  also have "edit_line Erase (l @ w @ [c], r) = (l @ w, r)" by (simp add: butlast_append)
  finally show ?case using snoc by simp
qed simp

end

section \<open>The keys of the shell\<close>

text \<open>Buffer, position and screen agree on the line.\<close>

definition editing :: "u16 list \<Rightarrow> nat \<Rightarrow> byte list \<Rightarrow> byte list \<Rightarrow> kernel \<Rightarrow> bool" where
  "editing W p l r k \<longleftrightarrow> kernel_ok k \<and> shows_line W p l r (k_term k) \<and>
     cstring (k_buffer k) = l @ r \<and> k_pos k = int (length l)"

text \<open>The keys that enter a character: the line's editor accepts all bytes but its four commands.\<close>

definition char_key :: "byte \<Rightarrow> bool" where
  "char_key c \<longleftrightarrow> plain c \<and> c \<noteq> 0 \<and> c \<noteq> 0x0C \<and> c \<noteq> 8 \<and> c \<noteq> 9"

lemma editing_buffer:
  assumes "editing W p l r k"
  obtains rest where "k_buffer k = l @ r @ 0 # rest" "0 \<notin> set (l @ r)" "length l + length r + length rest = 255"
proof -
  have l: "is_line (k_buffer k)" "cstring (k_buffer k) = l @ r" using assms by (simp_all add: editing_def kernel_ok_def)
  have "str_at (k_buffer k) 0 (l @ r)" using is_line_str_at [OF l(1)] unfolding l(2) .
  moreover have "length (k_buffer k) = 256" using l(1) by (simp add: is_line_def)
  ultimately obtain rest where "k_buffer k = (l @ r) @ 0 # rest" "0 \<notin> set (l @ r)" "length (l @ r) + length rest = 255"
    by (rule line_split)
  then show ?thesis using that by simp
qed

lemma buffer_str: "0 \<notin> set cs \<Longrightarrow> str_at (cs @ 0 # rest) 0 cs"
  by (auto simp: str_at_0_iff)

lemma tail_str: "0 \<notin> set (l @ cs) \<Longrightarrow> str_at (l @ cs @ 0 # rest) (length l) cs"
  by (intro str_at_intro) simp_all

lemma editing_intro:
  assumes "kernel_ok k" "k' = k\<lparr>k_term := t, k_buffer := l @ r @ 0 # rest, k_pos := int (length l)\<rparr>"
    and "shows_line W p l r t" "0 \<notin> set (l @ r)" "length l + length r + length rest = 255"
  shows "editing W p l r k'"
proof -
  have s: "str_at (l @ r @ 0 # rest) 0 (l @ r)" using buffer_str [of "l @ r" rest] assms(4) by simp
  have "length (l @ r @ 0 # rest) = 256" using assms(5) by simp
  then show ?thesis using s is_lineI [OF s] assms
    by (simp add: editing_def kernel_ok_def shows_line_def)
qed

text \<open>Printing the tail of the line behind the cursor, which moves back to it.\<close>

lemma on_term_some: "f (k_term k) = Some t \<Longrightarrow> on_term f k = Some (k\<lparr>k_term := t\<rparr>)"
  by (simp add: on_term_def)

text \<open>What the two editing keys do to the bytes of the line, before they bring the screen up to date.\<close>

lemma key_insert_eq:
  assumes b: "k_buffer k = l @ r @ 0 # rest" "0 \<notin> set (l @ r)" "length l + length r + length rest = 255"
    and p: "k_pos k = int (length l)" and rest: "rest \<noteq> []"
  shows "key_insert c k = do { k \<leftarrow> write_tail (k\<lparr>k_buffer := l @ c # r @ 0 # tl rest\<rparr>);
    on_term (terminal_move_cursor (- int (length r))) (k\<lparr>k_pos := k_pos k + 1\<rparr>) }"
proof -
  have len: "strlen (k_buffer k) 0 = Some (length l + length r)"
    using strlen_str_at [OF buffer_str [OF b(2), of rest]] b(1) by simp
  have bytes: "do { b \<leftarrow> shift_up (k_buffer k) (int (length l + length r)) (k_pos k);
      b \<leftarrow> wri b (k_pos k) c; wr b (length l + length r + 1) 0 } = Some (l @ c # r @ 0 # tl rest)"
    unfolding b(1) p by (rule insert_bytes [OF rest])
  have "length l + length r < BUFFER_SIZE - 1" using b(3) rest by (cases rest) (simp_all add: BUFFER_SIZE_def)
  then have "key_insert c k = do { b \<leftarrow> do { b \<leftarrow> shift_up (k_buffer k) (int (length l + length r)) (k_pos k);
      b \<leftarrow> wri b (k_pos k) c; wr b (length l + length r + 1) 0 };
      k \<leftarrow> write_tail (k\<lparr>k_buffer := b\<rparr>);
      on_term (terminal_move_cursor (- int (length r))) (k\<lparr>k_pos := k_pos k + 1\<rparr>) }"
    using p unfolding key_insert_def len by (simp add: bind_assoc Let_def)
  then show ?thesis unfolding bytes by simp
qed

lemma key_backspace_eq:
  assumes b: "k_buffer k = l @ c # r @ 0 # rest" "0 \<notin> set (l @ c # r)" and p: "k_pos k = int (length l + 1)"
  shows "key_backspace k = do {
    k \<leftarrow> on_term terminal_backspace (k\<lparr>k_buffer := l @ r @ 0 # 0 # rest, k_pos := int (length l)\<rparr>);
    k \<leftarrow> write_tail k; k \<leftarrow> putc 32 k; on_term (terminal_move_cursor (- 1 - int (length r))) k }"
proof -
  let ?len = "length l + 1 + length r"
  have len: "strlen (k_buffer k) 0 = Some ?len"
    using strlen_str_at [OF buffer_str [OF b(2), of rest]] b(1) by simp
  have bytes: "do { b \<leftarrow> for_upto (nat (k_pos k)) ?len (\<lambda>x b. do { c \<leftarrow> rd b x; wri b (int x - 1) c }) (k_buffer k);
      wri b (int ?len - 1) 0 } = Some (l @ r @ 0 # 0 # rest)"
    unfolding b(1) p nat_int by (rule erase_bytes)
  have "key_backspace k = do { b \<leftarrow> do { b \<leftarrow> for_upto (nat (k_pos k)) ?len (\<lambda>x b. do { c \<leftarrow> rd b x; wri b (int x - 1) c }) (k_buffer k);
      wri b (int ?len - 1) 0 };
      k \<leftarrow> on_term terminal_backspace (k\<lparr>k_buffer := b, k_pos := int (length l)\<rparr>);
      k \<leftarrow> write_tail k; k \<leftarrow> putc 32 k; on_term (terminal_move_cursor (- 1 - int (length r))) k }"
    using p unfolding key_backspace_def len by (simp add: bind_assoc Let_def)
  then show ?thesis unfolding bytes by simp
qed

lemma key_insert_full:
  assumes e: "editing W p l r k" and full: "\<not> length l + length r < 255"
  shows "key_insert c k = Some k"
proof -
  obtain rest where b: "k_buffer k = l @ r @ 0 # rest" "0 \<notin> set (l @ r)" using editing_buffer [OF e] by blast
  have "strlen (k_buffer k) 0 = Some (length (l @ r))" using strlen_str_at [OF buffer_str [OF b(2), of rest]] b(1) by simp
  then show ?thesis using full by (simp add: key_insert_def BUFFER_SIZE_def)
qed

lemma key_insert_editing:
  assumes e: "editing W p l r k" and c: "char_key c" and room: "length l + length r < min 255 (1999 - p)"
  shows "\<exists>k'. key_insert c k = Some k' \<and> editing W p (l @ [c]) r k'"
proof -
  obtain rest where b: "k_buffer k = l @ r @ 0 # rest" "0 \<notin> set (l @ r)" "length l + length r + length rest = 255"
    using editing_buffer [OF e] by blast
  have k: "kernel_ok k" "shows_line W p l r (k_term k)" "k_pos k = int (length l)" using e by (simp_all add: editing_def)
  have rest: "rest \<noteq> []" using b(3) room by auto
  have rl: "length (l @ [c]) + length r + length (tl rest) = 255" using b(3) rest by (cases rest) auto
  let ?b = "l @ c # r @ 0 # tl rest"
  have pl: "plain c" "c \<noteq> 0" using c by (simp_all add: char_key_def)
  have "\<forall>d \<in> set (c # r). plain d" using k(2) pl by (simp add: shows_line_def)
  moreover have "p + length l + length (c # r) < 2000" using room by (simp add: less_diff_conv)
  ultimately obtain t1 where t1: "puts terminal_putchar (c # r) (k_term k) = Some t1" "shows_line W p (l @ c # r) [] t1"
    using shows_line_print [OF k(2), of "c # r"] by auto
  have z: "0 \<notin> set (l @ c # r)" using b(2) pl by auto
  have st: "str_at ?b (length l) (c # r)" using tail_str [of l "c # r" "tl rest"] z by simp
  have w: "write_tail (k\<lparr>k_buffer := ?b\<rparr>) = Some (k\<lparr>k_buffer := ?b, k_term := t1\<rparr>)"
    using terminal_writestring_puts [OF st, of "k_term k"] t1(1) k(3)
    by (simp add: write_tail_def on_term_def)
  obtain t2 where t2: "terminal_move_cursor (- int (length r)) t1 = Some t2" "shows_line W p (l @ [c]) r t2"
    using shows_line_move [OF t1(2), of "l @ [c]" r "- int (length r)"] by auto
  let ?k = "k\<lparr>k_term := t2, k_buffer := ?b, k_pos := int (length (l @ [c]))\<rparr>"
  have "key_insert c k = Some ?k"
    using w t2(1) k(3) unfolding key_insert_eq [OF b k(3) rest] by (simp add: on_term_def add.commute)
  moreover have "editing W p (l @ [c]) r ?k"
    using k(1) t2(2) z rl by (intro editing_intro [where rest = "tl rest" and k = k and t = t2]) simp_all
  ultimately show ?thesis by blast
qed

lemma key_backspace_editing:
  assumes e: "editing W p (l @ [c]) r k"
  shows "\<exists>k'. key_backspace k = Some k' \<and> editing W p l r k'"
proof -
  obtain rest where b: "k_buffer k = l @ c # r @ 0 # rest" "0 \<notin> set (l @ c # r)" "length l + length r + length rest = 254"
    using editing_buffer [OF e] by auto
  have k: "kernel_ok k" "shows_line W p (l @ [c]) r (k_term k)" "k_pos k = int (length l + 1)"
    using e by (simp_all add: editing_def)
  let ?b = "l @ r @ 0 # 0 # rest"
  have z: "0 \<notin> set (l @ r)" using b(2) by auto
  have tm: "term_ok (k_term k)" "cursor_pos (k_term k) = Suc (p + length l)" using k(2) by (simp_all add: shows_line_def)
  from backspace_cell [OF this] obtain t1 where t1: "terminal_backspace (k_term k) = Some t1" "term_ok t1"
    "current_state t1 = current_state (k_term k)" "cursor_pos t1 = p + length l"
    "terminal_buffer t1 = (terminal_buffer (k_term k))[p + length l := blank (k_term k)]"
    "terminal_color t1 = terminal_color (k_term k)" by blast
  have s1: "shows_line W p l (32 # r) t1"
    using k(2) t1 by (auto simp: shows_line_def blank_def plain_def overwrite_def list_update_append min_def)
  have r: "\<forall>d \<in> set (r @ [32]). plain d" "p + length l + length (r @ [32]) < 2000"
    using k(2) by (auto simp: shows_line_def plain_def)
  obtain t2 where t2: "puts terminal_putchar (r @ [32]) t1 = Some t2" "shows_line W p (l @ r @ [32]) [] t2"
    using shows_line_print [OF s1 r(1) _ r(2)] by auto
  then obtain tm where tm: "puts terminal_putchar r t1 = Some tm" "terminal_putchar 32 tm = Some t2"
    by (auto simp: puts_append bind_eq_Some_conv)
  obtain t3 where t3: "terminal_move_cursor (- 1 - int (length r)) t2 = Some t3" "shows_line W p l (r @ [32]) t3"
    using shows_line_move [OF t2(2), of l "r @ [32]" "- 1 - int (length r)"] by auto
  then have s3: "shows_line W p l r t3"
    using overwrite_blank [of p "cells (terminal_color t3) (l @ r)" W "blank t3"] by (auto simp: shows_line_def blank_def)
  let ?k = "k\<lparr>k_term := t3, k_buffer := ?b, k_pos := int (length l)\<rparr>"
  have w: "write_tail (k\<lparr>k_buffer := ?b, k_pos := int (length l), k_term := t1\<rparr>) =
      Some (k\<lparr>k_buffer := ?b, k_pos := int (length l), k_term := tm\<rparr>)"
    using terminal_writestring_puts [OF tail_str [OF z, of "0 # rest"], of t1] tm(1)
    by (simp add: write_tail_def on_term_def)
  have "key_backspace k = Some ?k"
    using t1(1) w tm(2) t3(1) unfolding key_backspace_eq [OF b(1,2) k(3)] by (simp add: on_term_def putc_def)
  moreover have "editing W p l r ?k"
    using k(1) s3 z b(3) by (intro editing_intro [where rest = "0 # rest" and k = k and t = t3]) auto
  ultimately show ?thesis by blast
qed

lemma editing_move:
  assumes e: "editing W p l r k" and eq: "l @ r = l' @ r'" and d: "int (length l) + d = int (length l')"
  shows "\<exists>k'. on_term (terminal_move_cursor d) (k\<lparr>k_pos := int (length l')\<rparr>) = Some k' \<and> editing W p l' r' k'"
proof -
  obtain rest where b: "k_buffer k = (l @ r) @ 0 # rest" "0 \<notin> set (l @ r)" "length (l @ r) + length rest = 255"
    using editing_buffer [OF e] by (metis append_assoc length_append)
  have k: "kernel_ok k" "shows_line W p l r (k_term k)" using e by (simp_all add: editing_def)
  obtain t where t: "terminal_move_cursor d (k_term k) = Some t" "shows_line W p l' r' t"
    using shows_line_move [OF k(2) eq d] by blast
  let ?k = "k\<lparr>k_pos := int (length l'), k_term := t\<rparr>"
  have "editing W p l' r' ?k"
  proof (rule editing_intro [OF k(1) _ t(2)])
    show "?k = k\<lparr>k_term := t, k_buffer := l' @ r' @ 0 # rest, k_pos := int (length l')\<rparr>"
      using b(1) unfolding eq by (cases k) simp
    show "0 \<notin> set (l' @ r')" "length l' + length r' + length rest = 255"
      using b(2,3) unfolding eq by simp_all
  qed
  then show ?thesis using t(1) by (simp add: on_term_def)
qed

lemma left_editing:
  "editing W p (l @ [c]) r k \<Longrightarrow> \<exists>k'. shell_buffer_pos_decrement k = Some k' \<and> editing W p l (c # r) k'"
  using editing_move [of W p "l @ [c]" r k l "c # r" "-1"]
  by (simp add: shell_buffer_pos_decrement_def editing_def)

lemma right_editing:
  assumes "editing W p l (c # r) k"
  shows "\<exists>k'. shell_buffer_pos_increment k = Some k' \<and> editing W p (l @ [c]) r k'"
proof -
  obtain rest where b: "k_buffer k = l @ (c # r) @ 0 # rest" "0 \<notin> set (l @ c # r)"
    using editing_buffer [OF assms] by blast
  have "strlen (k_buffer k) 0 = Some (length (l @ c # r))"
    using strlen_str_at [OF buffer_str [OF b(2), of rest]] b(1) by simp
  then show ?thesis using editing_move [OF assms, of "l @ [c]" r 1] assms
    by (simp add: shell_buffer_pos_increment_def editing_def add.commute)
qed

lemma right_end_editing:
  assumes "editing W p l [] k"
  shows "shell_buffer_pos_increment k = Some k"
proof -
  obtain rest where b: "k_buffer k = l @ [] @ 0 # rest" "0 \<notin> set (l @ [])"
    using editing_buffer [OF assms] by blast
  have "strlen (k_buffer k) 0 = Some (length l)"
    using strlen_str_at [OF buffer_str [OF b(2), of rest]] b(1) by simp
  then show ?thesis using assms by (simp add: shell_buffer_pos_increment_def editing_def)
qed

interpretation ed: line_editor key_insert key_backspace shell_buffer_pos_decrement shell_buffer_pos_increment
  "editing W p" char_key "1999 - p" for W p
proof
  fix l r k c
  show "editing W p l r k \<Longrightarrow> \<not> length l + length r < 255 \<Longrightarrow> key_insert c k = Some k" by (rule key_insert_full)
  show "editing W p l r k \<Longrightarrow> char_key c \<Longrightarrow> length l + length r < 255 \<Longrightarrow> length l + length r < 1999 - p \<Longrightarrow>
    \<exists>k'. key_insert c k = Some k' \<and> editing W p (l @ [c]) r k'" by (rule key_insert_editing) simp_all
  show "editing W p [] r k \<Longrightarrow> key_backspace k = Some k" "editing W p [] r k \<Longrightarrow> shell_buffer_pos_decrement k = Some k"
    by (simp_all add: editing_def key_backspace_def shell_buffer_pos_decrement_def)
qed (intro key_backspace_editing left_editing right_editing right_end_editing; assumption)+

section \<open>Recalling commands\<close>

text \<open>Erasing the whole line from the screen, cell by cell.\<close>

lemma erase_line:
  assumes "shows_line W p l [] t"
  shows "\<exists>t'. for_upto 0 (length l) (\<lambda>x. terminal_backspace) t = Some t' \<and> shows_line W p [] [] t'"
proof -
  let ?I = "\<lambda>j t. shows_line W p (take (length l - j) l) [] t"
  have "\<exists>t'. for_upto 0 (length l) (\<lambda>x. terminal_backspace) t = Some t' \<and> ?I (length l) t'"
  proof (rule for_upto_inv [where I = ?I])
    fix j t assume j: "j < length l" and t: "?I j t"
    have "length l - j = Suc (length l - Suc j)" using j by simp
    then have "take (length l - j) l = take (length l - Suc j) l @ [l ! (length l - Suc j)]"
      using j by (metis Suc_diff_Suc diff_less_Suc lessI less_imp_diff_less nat_neq_iff not_less_eq take_Suc_conv_app_nth)
    then show "\<exists>t'. terminal_backspace t = Some t' \<and> ?I (Suc j) t'" using shows_line_backspace t by metis
  qed (use assms in simp_all)
  then show ?thesis by simp
qed

lemma on_term_loop:
  "for_upto i n (\<lambda>x. f) (k_term k) = Some t \<Longrightarrow> for_upto i n (\<lambda>x. on_term f) k = Some (k\<lparr>k_term := t\<rparr>)"
proof (induction "n - i" arbitrary: i k)
  case 0
  then show ?case by simp
next
  case (Suc m)
  then have i: "i < n" by simp
  then obtain t1 where t1: "f (k_term k) = Some t1" "for_upto (Suc i) n (\<lambda>x. f) t1 = Some t"
    using Suc.prems by (auto simp: for_upto_step bind_eq_Some_conv)
  have "for_upto (Suc i) n (\<lambda>x. on_term f) (k\<lparr>k_term := t1\<rparr>) = Some (k\<lparr>k_term := t1\<rparr>\<lparr>k_term := t\<rparr>)"
    using Suc.hyps t1(2) i by (intro Suc.hyps(1)) simp_all
  then show ?case using t1(1) i by (simp add: for_upto_step on_term_def)
qed

text \<open>The keys Up and Down: the history moves as the command log does, and its line is edited instead.\<close>

lemma shell_history_editing:
  assumes e: "editing W p l r k"
    and new: "v = (if a = 1 then log_prev (l @ r) (history_view (k_hist k)) else log_next (history_view (k_hist k)))"
    and fits: "\<forall>c \<in> set (log_line v). plain c" "p + length (log_line v) < 2000"
  shows "\<exists>k'. shell_history a k = Some k' \<and> editing W p (log_line v) [] k' \<and> history_view (k_hist k') = v"
proof -
  obtain rest where b: "k_buffer k = (l @ r) @ 0 # rest" "0 \<notin> set (l @ r)" "length (l @ r) + length rest = 255"
    using editing_buffer [OF e] by (metis append_assoc length_append)
  have k: "kernel_ok k" "shows_line W p l r (k_term k)" "k_pos k = int (length l)" using e by (simp_all add: editing_def)
  have str: "str_at (k_buffer k) 0 (l @ r)" unfolding b(1) by (rule buffer_str [OF b(2)])
  have len: "strlen (k_buffer k) 0 = Some (length (l @ r))" by (rule strlen_str_at [OF str])
  obtain t1 where t1: "terminal_move_cursor (int (length (l @ r)) - k_pos k) (k_term k) = Some t1" "shows_line W p (l @ r) [] t1"
    using shows_line_move [OF k(2), of "l @ r" "[]" "int (length (l @ r)) - k_pos k"] k(3) by auto
  have hok: "history_ok (k_hist k)" using k(1) by (simp add: kernel_ok_def)
  obtain h' s where h': "(if a = 1 then history_prev (k_hist k) (Some (k_buffer k, 0)) else history_next (k_hist k)) = Some (h', s)"
    "history_ok h'" "history_view h' = v"
    using history_prev_refines [OF hok str] history_next_refines [OF hok] new by (cases "a = 1") auto
  obtain cur where cur: "history_getcurrentcommand h' = Some cur" "str_at cur 0 (log_line v)" "length cur = 256"
    using history_current [OF h'(2)] h'(3) by blast
  obtain t2 where t2: "for_upto 0 (length (l @ r)) (\<lambda>x. terminal_backspace) t1 = Some t2" "shows_line W p [] [] t2"
    using erase_line [OF t1(2)] by blast
  have loop: "for_upto 0 (length (l @ r)) (\<lambda>x. on_term terminal_backspace) (k\<lparr>k_term := t1, k_hist := h'\<rparr>) =
      Some (k\<lparr>k_hist := h', k_term := t2\<rparr>)"
    using on_term_loop [of 0 "length (l @ r)" terminal_backspace "k\<lparr>k_term := t1, k_hist := h'\<rparr>" t2] t2(1) by simp
  have n: "length (log_line v) \<le> 255" using str_at_length [OF cur(2)] cur(3) by simp
  let ?b = "overwrite (k_buffer k) 0 (log_line v @ [0])"
  have bl: "length (k_buffer k) = 256" using b by simp
  have cp: "strlcpy (k_buffer k) 0 cur 0 BUFFER_SIZE = Some ?b"
    using strlcpy_str_at [OF cur(2), of BUFFER_SIZE 0 "k_buffer k"] bl n by (simp add: BUFFER_SIZE_def)
  have z: "0 \<notin> set (log_line v)" by (rule str_at_nonzero [OF cur(2)])
  have sb: "str_at ?b 0 (log_line v)" using z n bl by (intro str_at_overwrite) simp_all
  obtain t3 where t3: "puts terminal_putchar (log_line v) t2 = Some t3" "shows_line W p (log_line v) [] t3"
    using shows_line_print [OF t2(2) fits(1)] fits(2) by auto
  let ?k = "k\<lparr>k_hist := h', k_buffer := ?b, k_pos := int (length (log_line v)), k_term := t3\<rparr>"
  have "shell_history a k = Some ?k"
    unfolding shell_history_def using len t1(1) h'(1) loop cur(1) cp strlen_str_at [OF sb] t3(1)
      terminal_writestring_puts [OF sb, of t2]
    by (cases "a = 1") (simp_all add: on_term_def)
  moreover have "editing W p (log_line v) [] ?k"
  proof (rule editing_intro [OF _ _ t3(2)])
    show "kernel_ok (k\<lparr>k_hist := h'\<rparr>)" using k(1) h'(2) by (simp add: kernel_ok_def)
    show "?k = k\<lparr>k_hist := h'\<rparr>\<lparr>k_term := t3, k_buffer := log_line v @ [] @ 0 # drop (Suc (length (log_line v))) (k_buffer k),
        k_pos := int (length (log_line v))\<rparr>" by (simp add: overwrite_def)
    show "length (log_line v) + length [] + length (drop (Suc (length (log_line v))) (k_buffer k)) = 255"
      using n bl by simp
  qed (use z in simp)
  ultimately show ?thesis using h'(3) by (intro exI [of _ ?k]) simp
qed

section \<open>Properties\<close>

text \<open>The empty line of the example kernel, at the start of its screen, after \<open>ls\<close> went into the history.\<close>

definition recall_kernel :: kernel where
  "recall_kernel = example_kernel\<lparr>k_hist := the (history_push history_zero (Some ([108, 115, 0], 0)))\<rparr>"

lemma example_editing: "editing (terminal_buffer boot_terminal) 0 [] [] example_kernel"
  using example_kernel_ok boot_terminal_ok
  by (simp add: editing_def shows_line_def example_kernel_def cells_def blank_def boot_terminal_def cstring_def)

lemma recall_kernel_facts:
  "editing (terminal_buffer boot_terminal) 0 [] [] recall_kernel"
  "log_line (log_prev [] (history_view (k_hist recall_kernel))) = [108, 115]"
proof -
  have "str_at [108, 115, 0] 0 [108, 115]" by simp
  from hist.push_law [OF history_zero_ok this] obtain h where
    h: "history_push history_zero (Some ([108, 115, 0], 0)) = Some h" "history_ok h"
      "history_view h = log_push [108, 115] (history_view history_zero)" by blast
  show "editing (terminal_buffer boot_terminal) 0 [] [] recall_kernel"
    using example_editing h(1,2) by (simp add: recall_kernel_def editing_def kernel_ok_def)
  show "log_line (log_prev [] (history_view (k_hist recall_kernel))) = [108, 115]"
    using h(1,3) by (simp add: recall_kernel_def history_zero_view log_push_def kept_def log_prev_def log_line_def)
qed

text \<open>C24: the keys Up and Down, in a line being edited, move in the history as in the abstract command log;
  the recalled line replaces the edited one in the buffer and on the screen, with the cursor at its end. It is assumed that
  the recalled line consists of plain characters and that it ends before the last cell of the screen, counted from the cell p where the
  edited line starts (p + length < 2000): when the prompt stands on the last row, that is the rest of this row, and a longer line, which would
  scroll the screen, is not covered.\<close>

theorem history_recall:
  assumes "editing W p l r k"
    and "v = (if a = 1 then log_prev (l @ r) (history_view (k_hist k)) else log_next (history_view (k_hist k)))"
    and "\<forall>c \<in> set (log_line v). plain c" "p + length (log_line v) < 2000"
  shows "\<exists>k'. shell_history a k = Some k' \<and> editing W p (log_line v) [] k' \<and> history_view (k_hist k') = v"
  using assms by (rule shell_history_editing)

theorem history_recall_witness:
  "\<exists>k'. shell_history 1 recall_kernel = Some k' \<and> editing (terminal_buffer boot_terminal) 0 [108, 115] [] k'"
proof -
  have "\<forall>c \<in> set (log_line (log_prev ([] @ []) (history_view (k_hist recall_kernel)))). plain c"
    "0 + length (log_line (log_prev ([] @ []) (history_view (k_hist recall_kernel)))) < 2000"
    using recall_kernel_facts(2) by (simp_all add: plain_def)
  from history_recall [OF recall_kernel_facts(1) _ this, of 1] recall_kernel_facts(2) show ?thesis by auto
qed

end
