(* ===== verification/Keyboard_Spec.thy ===== *)
theory Keyboard_Spec
  imports Keyboard Line_Editor
begin

text \<open>
  The keyboard's decoder over sequences of scan codes, and what typing does to the line that is edited.
\<close>

section \<open>The decoder is a function\<close>

lemma decodes_total: "\<exists>e kb'. decodes kb sc e kb'"
proof -
  let ?k = "undefined\<lparr>k_bus := \<lparr>script = (\<lambda>_ _. sc), clock = 0, writes = []\<rparr>\<rparr> :: kernel"
  have "port_in 0x60 (k_bus ?k) = (sc, snd (port_in 0x60 (k_bus ?k)))" by (simp add: port_in_def)
  from keyboard_callback_decodes [OF this] show ?thesis by blast
qed

section \<open>Sequences of scan codes\<close>

inductive decodes_all :: "keyboard \<Rightarrow> byte list \<Rightarrow> key_event list \<Rightarrow> keyboard \<Rightarrow> bool" where
  none: "decodes_all kb [] [] kb"
| more: "decodes_all kb scs es kb1 \<Longrightarrow> decodes kb1 sc e kb2 \<Longrightarrow> decodes_all kb (scs @ [sc]) (es @ [e]) kb2"

text \<open>The keys held down according to the make and break codes seen so far.\<close>

definition held :: "byte set \<Rightarrow> byte set \<Rightarrow> byte list \<Rightarrow> bool \<Rightarrow> bool" where
  "held makes breaks scs h = foldl (\<lambda>h sc. if sc \<in> makes then True else if sc \<in> breaks then False else h) h scs"

lemma held_snoc: "held M B (scs @ [sc]) h = (if sc \<in> M then True else if sc \<in> B then False else held M B scs h)"
  by (simp add: held_def)

lemma decodes_flags:
  assumes "decodes kb sc e kb'"
  shows "shift_pressed kb' = (if sc \<in> {0x2A, 0x36} then True else if sc \<in> {0xAA, 0xB6} then False else shift_pressed kb)"
    "ctrl_pressed kb' = (if sc \<in> {0x1D} then True else if sc \<in> {0x9D} then False else ctrl_pressed kb)"
    "keyboard.extended kb' \<longleftrightarrow> sc = 0xE0"
  using assms by (induction rule: decodes.induct) auto

lemma decodes_all_flags:
  assumes "decodes_all kb scs es kb'"
  shows "shift_pressed kb' = held {0x2A, 0x36} {0xAA, 0xB6} scs (shift_pressed kb) \<and>
    ctrl_pressed kb' = held {0x1D} {0x9D} scs (ctrl_pressed kb) \<and>
    (scs \<noteq> [] \<longrightarrow> (keyboard.extended kb' \<longleftrightarrow> last scs = 0xE0)) \<and> length es = length scs"
  using assms
proof (induction rule: decodes_all.induct)
  case none
  then show ?case by (simp add: held_def)
next
  case (more kb scs es kb1 sc e kb2)
  then show ?case using decodes_flags [OF more.hyps(2)] by (simp add: held_snoc)
qed

section \<open>The characters of the keys\<close>

text \<open>Every byte of the tables is 0, a line feed or a character the line editor accepts.\<close>

lemma table_bytes:
  assumes "c \<in> set scancode_to_ascii \<union> set scancode_to_ascii_shift"
  shows "c = 0 \<or> c = 10 \<or> char_key c"
  using assms unfolding scancode_to_ascii_def scancode_to_ascii_shift_def
  by (simp add: lit_def char_key_def plain_def) (elim disjE; simp)

text \<open>The codes of the keys that are not characters have no entry.\<close>

lemma table_control:
  "(sc :: byte) \<in> {0x2A, 0x36, 0x1D, 0x0E, 0x0F} \<Longrightarrow> scancode_to_ascii ! unat sc = 0 \<and> scancode_to_ascii_shift ! unat sc = 0"
  by (elim insertE emptyE) (simp_all add: scancode_to_ascii_def scancode_to_ascii_shift_def lit_def)

text \<open>Every printable character is in one of the tables.\<close>

lemma printable_bytes: "\<forall>n \<in> set [32..<127]. (of_nat n :: byte) \<in> set scancode_to_ascii \<union> set scancode_to_ascii_shift"
  unfolding scancode_to_ascii_def scancode_to_ascii_shift_def by (simp add: lit_def upt_rec)

section \<open>Typing\<close>

lemma port_in_bus: "port_in port b = (v, b') \<Longrightarrow> uart_live b \<Longrightarrow> uart_live b'"
  by (auto simp: port_in_def uart_live_def)

lemma editing_bus: "editing W p l r k \<Longrightarrow> uart_live b \<Longrightarrow> editing W p l r (k\<lparr>k_bus := b\<rparr>)"
  by (simp add: editing_def kernel_ok_def)

lemma char_key_insert: "char_key c \<Longrightarrow> shell_handle_key c k = runs (key_insert c k)"
  by (simp add: shell_handle_key_def char_key_def plain_def)

text \<open>Every printable character has a key, and pressing it inserts the character at the cursor.\<close>

lemma type_printable:
  assumes "32 \<le> n" "n < 127"
  shows "\<exists>sc sh. \<forall>W p l r k kb b. editing W p l r k \<longrightarrow> length l + length r < min 255 (1999 - p) \<longrightarrow>
    port_in 0x60 (k_bus k) = (sc, b) \<longrightarrow> \<not> keyboard.extended kb \<longrightarrow> \<not> ctrl_pressed kb \<longrightarrow> shift_pressed kb = sh \<longrightarrow>
    (\<exists>k'. keyboard_callback kb k = Some (kb, Running k') \<and> editing W p (l @ [of_nat n]) r k')"
proof -
  let ?c = "of_nat n :: byte" and ?t = "\<lambda>sh. if sh then scancode_to_ascii_shift else scancode_to_ascii"
  have "?c \<in> set (?t False) \<union> set (?t True)" 
  proof -
    have "n \<in> set [32..<127]" using assms by (simp only: set_upt atLeastLessThan_iff)
    from bspec [OF printable_bytes this] show ?thesis by (simp only: if_True if_False)
  qed
  then obtain sh where "?c \<in> set (?t sh)" by blast
  then obtain i where i: "i < 128" "?t sh ! i = ?c" using tables_length by (auto simp: in_set_conv_nth split: if_splits)
  let ?sc = "of_nat i :: byte"
  have u: "unat ?sc = i" using i(1) by (simp add: unat_of_nat take_bit_nat_eq_self)
  have "unat ?c = n" using assms by (simp add: unat_of_nat take_bit_nat_eq_self)
  then have c: "?c \<noteq> 0" "?c \<noteq> 10" using assms by auto
  have ck: "char_key ?c" using table_bytes [of ?c] \<open>?c \<in> set (?t sh)\<close> c by (auto split: if_splits)
  have m: "?sc < 0x80" using i(1) u by (simp add: word_less_nat_alt)
  have m': "?sc \<notin> {0x2A, 0x36, 0x1D, 0x0E, 0x0F}" using table_control [of ?sc] u i(2) c(1) by (cases sh) auto
  have step: "decodes kb ?sc (Char ?c) kb" if "\<not> keyboard.extended kb" "\<not> ctrl_pressed kb" "shift_pressed kb = sh" for kb
  proof -
    have kb: "kb\<lparr>extended := False\<rparr> = kb" using that(1) by (cases kb) simp
    show ?thesis using decodes.make [OF m m', of kb ?c] that u i(2) c(1) unfolding kb by simp
  qed
  show ?thesis
  proof (intro exI [of _ ?sc] exI [of _ sh] allI impI)
    fix W p l r and k :: kernel and kb :: keyboard and b
    assume e: "editing W p l r k" "length l + length r < min 255 (1999 - p)" "port_in 0x60 (k_bus k) = (?sc, b)"
      and kb: "\<not> keyboard.extended kb" "\<not> ctrl_pressed kb" "shift_pressed kb = sh"
    have "uart_live b" using port_in_bus [OF e(3)] e(1) by (simp add: editing_def kernel_ok_def)
    from key_insert_editing [OF editing_bus [OF e(1) this] ck e(2)] obtain k' where
      k': "key_insert ?c (k\<lparr>k_bus := b\<rparr>) = Some k'" "editing W p (l @ [?c]) r k'" by blast
    obtain ev kb' where d: "decodes kb ?sc ev kb'" "keyboard_callback kb k = leaving kb' (key_action ev (k\<lparr>k_bus := b\<rparr>))"
      using keyboard_callback_decodes [OF e(3)] by blast
    have "ev = Char ?c" "kb' = kb" using decodes_fun [OF d(1) step [OF kb]] by simp_all
    then have "keyboard_callback kb k = Some (kb, Running k')"
      using d(2) k'(1) by (simp add: char_key_insert [OF ck] runs_def leaving_def)
    then show "\<exists>k'. keyboard_callback kb k = Some (kb, Running k') \<and> editing W p (l @ [?c]) r k'" using k'(2) by blast
  qed
qed

section \<open>Properties\<close>

text \<open>C25: the keyboard's interrupt handler is the decoder: for every scan code it reads and every state there is exactly
  one step of the transition relation, and the handler makes it and performs its event on the shell.\<close>

theorem keyboard_decoder_correct:
  assumes "port_in 0x60 (k_bus k) = (sc, b)"
  shows "\<exists>e kb'. decodes kb sc e kb' \<and> (\<forall>e2 kb2. decodes kb sc e2 kb2 \<longrightarrow> e2 = e \<and> kb2 = kb') \<and>
    keyboard_callback kb k = leaving kb' (key_action e (k\<lparr>k_bus := b\<rparr>))"
  using keyboard_callback_decodes [OF assms] decodes_fun by blast

theorem keyboard_decoder_correct_witness:
  "\<exists>b. keyboard_callback keyboard_zero (example_kernel\<lparr>k_bus := \<lparr>script = (\<lambda>_ _. 0x2A), clock = 0, writes = []\<rparr>\<rparr>) =
     Some (keyboard_zero\<lparr>shift_pressed := True\<rparr>, Running (example_kernel\<lparr>k_bus := b\<rparr>))"
proof -
  let ?b = "\<lparr>script = (\<lambda>_ _. 0x2A), clock = 0, writes = []\<rparr> :: bus"
  let ?k = "example_kernel\<lparr>k_bus := ?b\<rparr>"
  have "port_in 0x60 (k_bus ?k) = (0x2A, ?b\<lparr>clock := 1\<rparr>)" by (simp add: port_in_def)
  from keyboard_decoder_correct [OF this, of keyboard_zero] obtain e kb' where
    e: "\<forall>e2 kb2. decodes keyboard_zero 0x2A e2 kb2 \<longrightarrow> e2 = e \<and> kb2 = kb'"
      "keyboard_callback keyboard_zero ?k = leaving kb' (key_action e (?k\<lparr>k_bus := ?b\<lparr>clock := 1\<rparr>\<rparr>))" by blast
  have "decodes keyboard_zero 0x2A Nothing (keyboard_zero\<lparr>extended := False, shift_pressed := True\<rparr>)"
    by (rule decodes.shift_down) simp
  then have "e = Nothing" "kb' = keyboard_zero\<lparr>shift_pressed := True\<rparr>" using e(1) by (auto simp: keyboard_zero_def)
  then show ?thesis using e(2) by (intro exI [of _ "?b\<lparr>clock := 1\<rparr>"]) (simp add: leaving_def)
qed

text \<open>After any sequence of scan codes the shift and control flags say whether the last make or break code of
  such a key was a make code, and the prefix flag whether the last code was the prefix.\<close>

theorem keyboard_modifiers:
  assumes "decodes_all kb scs es kb'"
  shows "shift_pressed kb' = held {0x2A, 0x36} {0xAA, 0xB6} scs (shift_pressed kb) \<and>
    ctrl_pressed kb' = held {0x1D} {0x9D} scs (ctrl_pressed kb) \<and>
    (scs \<noteq> [] \<longrightarrow> (keyboard.extended kb' \<longleftrightarrow> last scs = 0xE0)) \<and> length es = length scs"
  using assms by (rule decodes_all_flags)

theorem keyboard_modifiers_witness:
  "\<exists>kb'. decodes_all keyboard_zero ([] @ [0x2A] @ [0xE0]) ([] @ [Nothing] @ [Nothing]) kb' \<and> shift_pressed kb' \<and> keyboard.extended kb'"
proof -
  let ?k1 = "keyboard_zero\<lparr>extended := False, shift_pressed := True\<rparr>"
  have "decodes_all keyboard_zero [] [] keyboard_zero" by (rule decodes_all.none)
  moreover have "decodes keyboard_zero 0x2A Nothing ?k1" by (rule decodes.shift_down) simp
  ultimately have 1: "decodes_all keyboard_zero ([] @ [0x2A]) ([] @ [Nothing]) ?k1" by (rule decodes_all.more)
  have "decodes ?k1 0xE0 Nothing (?k1\<lparr>extended := True\<rparr>)" by (rule decodes.prefix_code)
  from decodes_all.more [OF 1 this] have 2: "decodes_all keyboard_zero ([] @ [0x2A] @ [0xE0]) ([] @ [Nothing] @ [Nothing]) (?k1\<lparr>extended := True\<rparr>)"
    by simp
  from keyboard_modifiers [OF 2] have "shift_pressed (?k1\<lparr>extended := True\<rparr>)" "keyboard.extended (?k1\<lparr>extended := True\<rparr>)"
    by (simp_all add: held_def)
  then show ?thesis using 2 by blast
qed

text \<open>Every printable character has a key: there is a scan code that, with shift held or not, makes the handler
  insert exactly that character at the cursor of any line that has room for it.\<close>

theorem printable_keys:
  assumes "32 \<le> n" "n < 127"
  shows "\<exists>sc sh. \<forall>W p l r k kb b. editing W p l r k \<longrightarrow> length l + length r < min 255 (1999 - p) \<longrightarrow>
    port_in 0x60 (k_bus k) = (sc, b) \<longrightarrow> \<not> keyboard.extended kb \<longrightarrow> \<not> ctrl_pressed kb \<longrightarrow> shift_pressed kb = sh \<longrightarrow>
    (\<exists>k'. keyboard_callback kb k = Some (kb, Running k') \<and> editing W p (l @ [of_nat n]) r k')"
  using assms by (rule type_printable)

theorem printable_keys_witness:
  "\<exists>sc sh k'. keyboard_callback \<lparr>shift_pressed = sh, ctrl_pressed = False, extended = False\<rparr>
      (example_kernel\<lparr>k_bus := \<lparr>script = (\<lambda>_ q. if q = 0x60 then sc else 0x20), clock = 0, writes = []\<rparr>\<rparr>) =
      Some (\<lparr>shift_pressed = sh, ctrl_pressed = False, extended = False\<rparr>, Running k') \<and>
    editing (terminal_buffer boot_terminal) 0 [65] [] k'"
proof -
  have "32 \<le> (65 :: nat)" "(65 :: nat) < 127" by simp_all
  from printable_keys [OF this] obtain sc sh where
    t: "\<And>W p l r k kb b. editing W p l r k \<Longrightarrow> length l + length r < min 255 (1999 - p) \<Longrightarrow>
    port_in 0x60 (k_bus k) = (sc, b) \<Longrightarrow> \<not> keyboard.extended kb \<Longrightarrow> \<not> ctrl_pressed kb \<Longrightarrow> shift_pressed kb = sh \<Longrightarrow>
    (\<exists>k'. keyboard_callback kb k = Some (kb, Running k') \<and> editing W p (l @ [of_nat 65]) r k')" by blast
  let ?b = "\<lparr>script = (\<lambda>_ q. if q = 0x60 then sc else 0x20), clock = 0, writes = []\<rparr> :: bus"
  have "uart_live ?b" by (auto simp: uart_live_def SERIAL_PORT_def)
  then have "editing (terminal_buffer boot_terminal) 0 [] [] (example_kernel\<lparr>k_bus := ?b\<rparr>)" by (rule editing_bus [OF example_editing])
  from t [OF this, of "?b\<lparr>clock := 1\<rparr>" "\<lparr>shift_pressed = sh, ctrl_pressed = False, extended = False\<rparr>"] show ?thesis
    by (auto simp: port_in_def)
qed

end
