(* ===== verification/Cpu.thy ===== *)
theory Cpu
  imports Keyboard_Spec
begin

text \<open>
  Segment descriptors (src/cpu/gdt.c), interrupt gates (src/cpu/idt.c) and the dispatch of hardware
  interrupts (src/cpu/irq.c). The addresses of the assembly stubs, of the tables and of the task
  segment are the linker's, parameters here; loading the tables into the processor is left out.
\<close>

section \<open>Segment descriptors\<close>

definition SEG_DESCTYPE :: "u16 \<Rightarrow> u16" where "SEG_DESCTYPE x = push_bit 4 x"
definition SEG_PRES :: "u16 \<Rightarrow> u16" where "SEG_PRES x = push_bit 7 x"
definition SEG_SAVL :: "u16 \<Rightarrow> u16" where "SEG_SAVL x = push_bit 12 x"
definition SEG_LONG :: "u16 \<Rightarrow> u16" where "SEG_LONG x = push_bit 13 x"
definition SEG_SIZE :: "u16 \<Rightarrow> u16" where "SEG_SIZE x = push_bit 14 x"
definition SEG_GRAN :: "u16 \<Rightarrow> u16" where "SEG_GRAN x = push_bit 15 x"
definition SEG_PRIV :: "u16 \<Rightarrow> u16" where "SEG_PRIV x = push_bit 5 (x AND 0x03)"

definition SEG_DATA_RDWR :: u16 where "SEG_DATA_RDWR = 0x02"
definition SEG_CODE_EXRD :: u16 where "SEG_CODE_EXRD = 0x0A"

definition GDT_CODE_PL0 :: u16 where
  "GDT_CODE_PL0 = SEG_DESCTYPE 1 OR SEG_PRES 1 OR SEG_SAVL 0 OR
     SEG_LONG 0 OR SEG_SIZE 1 OR SEG_GRAN 1 OR SEG_PRIV 0 OR SEG_CODE_EXRD"

definition GDT_DATA_PL0 :: u16 where
  "GDT_DATA_PL0 = SEG_DESCTYPE 1 OR SEG_PRES 1 OR SEG_SAVL 0 OR
     SEG_LONG 0 OR SEG_SIZE 1 OR SEG_GRAN 1 OR SEG_PRIV 0 OR SEG_DATA_RDWR"

definition GDT_CODE_PL3 :: u16 where
  "GDT_CODE_PL3 = SEG_DESCTYPE 1 OR SEG_PRES 1 OR SEG_SAVL 0 OR
     SEG_LONG 0 OR SEG_SIZE 1 OR SEG_GRAN 1 OR SEG_PRIV 3 OR SEG_CODE_EXRD"

definition GDT_DATA_PL3 :: u16 where
  "GDT_DATA_PL3 = SEG_DESCTYPE 1 OR SEG_PRES 1 OR SEG_SAVL 0 OR
     SEG_LONG 0 OR SEG_SIZE 1 OR SEG_GRAN 1 OR SEG_PRIV 3 OR SEG_DATA_RDWR"

definition create_descriptor :: "u32 \<Rightarrow> u32 \<Rightarrow> u16 \<Rightarrow> u64" where
  "create_descriptor base limit flag =
     (let descriptor = ucast limit AND 0x000F0000;
          descriptor = descriptor OR (ucast (push_bit 8 (ucast flag :: u32)) AND 0x00F0FF00);
          descriptor = descriptor OR ucast (push_bit 16 (drop_bit 16 base AND 0xFF));
          descriptor = descriptor OR ucast (base AND 0xFF000000);
          descriptor = push_bit 32 descriptor;
          descriptor = descriptor OR ucast (push_bit 16 base);
          descriptor = descriptor OR ucast (limit AND 0x0000FFFF)
      in descriptor)"

record tss_entry =
  prev_tss :: u32
  esp0 :: u32
  ss0 :: u32
  esp1 :: u32
  ss1 :: u32
  esp2 :: u32
  ss2 :: u32
  tss_cr3 :: u32
  tss_regs :: "u32 list" \<comment> \<open>eip, eflags, eax, ecx, edx, ebx, esp, ebp, esi, edi, es, cs, ss, ds, fs, gs, ldt\<close>
  trap :: u16
  iomap_base :: u16

definition tss_zero :: tss_entry where
  "tss_zero = \<lparr>prev_tss = 0, esp0 = 0, ss0 = 0, esp1 = 0, ss1 = 0, esp2 = 0, ss2 = 0, tss_cr3 = 0,
     tss_regs = replicate 17 0, trap = 0, iomap_base = 0\<rparr>"

record gdt_state =
  gdt :: "u64 list"
  gdt_limit :: u16
  gdt_base :: u32
  tss :: tss_entry

text \<open>\<open>sizeof (struct tss_entry)\<close> is 104, \<open>sizeof (gdt)\<close> is 48.\<close>

definition gdt_init :: "u32 \<Rightarrow> u32 \<Rightarrow> bus \<Rightarrow> (gdt_state \<times> bus) option" where
  "gdt_init addr_gdt addr_tss b = do {
     let t = tss_zero\<lparr>ss0 := 0x10, esp0 := 0x90000\<rparr>;
     let tss_limit = 104 - 1;
     b \<leftarrow> KINFO ''[GDT] Initialized succesfully'' b;
     Some (\<lparr>gdt = [create_descriptor 0 0 0,
               create_descriptor 0 0x000FFFFF GDT_CODE_PL0,
               create_descriptor 0 0x000FFFFF GDT_DATA_PL0,
               create_descriptor 0 0x000FFFFF GDT_CODE_PL3,
               create_descriptor 0 0x000FFFFF GDT_DATA_PL3,
               create_descriptor addr_tss tss_limit 0x89],
       gdt_limit = 48 - 1, gdt_base = addr_gdt, tss = t\<rparr>, b) }"

text \<open>The fields of a descriptor as the processor reads them.\<close>

definition descriptor_base :: "u64 \<Rightarrow> u32" where
  "descriptor_base d = ucast (take_bit 24 (drop_bit 16 d)) OR push_bit 24 (ucast (drop_bit 56 d))"

definition descriptor_limit :: "u64 \<Rightarrow> u32" where
  "descriptor_limit d = ucast (take_bit 16 d) OR push_bit 16 (ucast (take_bit 4 (drop_bit 48 d)))"

definition descriptor_flags :: "u64 \<Rightarrow> u16" where
  "descriptor_flags d = ucast (drop_bit 40 d) AND 0xF0FF"

text \<open>The bits of a descriptor: bits 16 to 23 of the base land on bits 48 to 55, among the limit and the flags.\<close>

lemma low_mask: "(0xFF :: 'a :: len word) = mask 8" "(0xFFFF :: 'a word) = mask 16" "(0xF :: 'a word) = mask 4"
  by (simp_all add: mask_eq_exp_minus_1)

lemma masks64:
  "(0x000F0000 :: u64) = push_bit 16 (mask 4)" "(0x00F0FF00 :: u64) = push_bit 20 (mask 4) OR push_bit 8 (mask 8)"
  "(0xFF000000 :: u32) = push_bit 24 (mask 8)" "(0xF0FF :: u16) = push_bit 12 (mask 4) OR mask 8"
  by (simp_all add: mask_eq_exp_minus_1)

lemma descriptor_parts:
  "bit (ucast (limit :: u32) AND 0x000F0000 :: u64) m \<longleftrightarrow> 16 \<le> m \<and> m < 20 \<and> bit limit m"
  "bit (ucast (push_bit 8 (ucast (flag :: u16) :: u32)) AND 0x00F0FF00 :: u64) m \<longleftrightarrow>
     (8 \<le> m \<and> m < 16 \<or> 20 \<le> m \<and> m < 24) \<and> bit flag (m - 8)"
  "bit (ucast (push_bit 16 (drop_bit 16 (base :: u32) AND 0xFF)) :: u64) m \<longleftrightarrow> 16 \<le> m \<and> m < 24 \<and> bit base m"
  "bit (ucast (base AND 0xFF000000) :: u64) m \<longleftrightarrow> 24 \<le> m \<and> m < 32 \<and> bit base m"
  "bit (ucast (push_bit 16 base) :: u64) m \<longleftrightarrow> 16 \<le> m \<and> m < 32 \<and> bit base (m - 16)"
  "bit (ucast (limit AND 0x0000FFFF) :: u64) m \<longleftrightarrow> m < 16 \<and> bit limit m"
  unfolding masks64 low_mask by (auto simp: bit_simps dest: bit_imp_le_length)

lemma high_half: "n < 64 \<Longrightarrow> bit ((push_bit 32 x OR y) OR z :: u64) n \<longleftrightarrow> 32 \<le> n \<and> bit x (n - 32) \<or> bit y n \<or> bit z n"
  by (auto simp: bit_simps)

lemma descriptor_bits:
  assumes "n < 64"
  shows "bit (create_descriptor base limit flag) n \<longleftrightarrow>
    (if n < 16 then bit limit n
     else if n < 32 then bit base (n - 16)
     else if n < 40 then False
     else if n < 48 then bit flag (n - 40)
     else if n < 52 then bit limit (n - 32) \<or> bit base (n - 32)
     else if n < 56 then bit flag (n - 40) \<or> bit base (n - 32)
     else bit base (n - 32))"
proof -
  let ?u = "(((ucast limit AND 0x000F0000) OR (ucast (push_bit 8 (ucast flag :: u32)) AND 0x00F0FF00)) OR
      ucast (push_bit 16 (drop_bit 16 base AND 0xFF))) OR ucast (base AND 0xFF000000) :: u64"
  have "bit (create_descriptor base limit flag) n \<longleftrightarrow> 32 \<le> n \<and> bit ?u (n - 32) \<or>
      bit (ucast (push_bit 16 base) :: u64) n \<or> bit (ucast (limit AND 0x0000FFFF) :: u64) n"
    unfolding create_descriptor_def Let_def by (rule high_half [OF assms])
  then have d: "bit (create_descriptor base limit flag) n \<longleftrightarrow> 32 \<le> n \<and> bit ?u (n - 32) \<or>
      16 \<le> n \<and> n < 32 \<and> bit base (n - 16) \<or> n < 16 \<and> bit limit n"
    unfolding descriptor_parts .
  show ?thesis
  proof (cases "n < 32")
    case True
    then show ?thesis unfolding d by auto
  next
    case False
    then obtain m where m: "n = 32 + m" "m < 32" using assms by (metis add_less_cancel_left le_iff_add not_le numeral_Bit0)
    have "bit ?u m \<longleftrightarrow> 16 \<le> m \<and> m < 20 \<and> bit limit m \<or> (8 \<le> m \<and> m < 16 \<or> 20 \<le> m \<and> m < 24) \<and> bit flag (m - 8) \<or>
        16 \<le> m \<and> m < 24 \<and> bit base m \<or> 24 \<le> m \<and> m < 32 \<and> bit base m"
      unfolding bit_or_iff descriptor_parts(1-4) by (simp only: disj_assoc)
    moreover have "32 + m - 40 = m - 8" "32 + m - 32 = m" by simp_all
    ultimately have e: "bit (create_descriptor base limit flag) (32 + m) \<longleftrightarrow>
        16 \<le> m \<and> m < 20 \<and> bit limit m \<or> (8 \<le> m \<and> m < 16 \<or> 20 \<le> m \<and> m < 24) \<and> bit flag (m - 8) \<or>
        16 \<le> m \<and> m < 24 \<and> bit base m \<or> 24 \<le> m \<and> m < 32 \<and> bit base m"
      using d unfolding m(1) by simp
    consider "m < 8" | "8 \<le> m" "m < 16" | "16 \<le> m" "m < 20" | "20 \<le> m" "m < 24" | "24 \<le> m" using m(2) by linarith
    then show ?thesis unfolding m(1) e using m(2) by cases simp_all
  qed
qed

text \<open>What the processor reads back: the base without its bits 16 to 23.\<close>

lemma descriptor_base_lost: "descriptor_base (create_descriptor base limit flag) = base AND 0xFF00FFFF"
proof (rule bit_word_eqI)
  fix n assume "n < LENGTH(32)"
  then have n: "n < 32" by simp
  have m: "(0xFF00FFFF :: u32) = push_bit 24 (mask 8) OR mask 16" by (simp add: mask_eq_exp_minus_1)
  have "bit (descriptor_base d) n \<longleftrightarrow> (if n < 24 then bit d (n + 16) else bit d (n + 32))" for d
    using n by (auto simp: descriptor_base_def bit_simps ac_simps dest: bit_imp_le_length)
  moreover have "bit (base AND 0xFF00FFFF) n \<longleftrightarrow> bit base n \<and> (n < 16 \<or> 24 \<le> n)"
    unfolding m using n by (auto simp: bit_simps)
  ultimately show "bit (descriptor_base (create_descriptor base limit flag)) n \<longleftrightarrow> bit (base AND 0xFF00FFFF) n"
    using n descriptor_bits [of "n + 16" base limit flag] descriptor_bits [of "n + 32" base limit flag] by auto
qed

lemma descriptor_fields:
  assumes "\<forall>i. 16 \<le> i \<longrightarrow> i < 24 \<longrightarrow> \<not> bit base i" and "limit < 0x100000"
  shows "descriptor_limit (create_descriptor base limit flag) = limit"
    and "descriptor_flags (create_descriptor base limit flag) = flag AND 0xF0FF"
proof -
  let ?d = "create_descriptor base limit flag"
  have "unat limit < 2 ^ 20" using assms(2) by (simp add: word_less_nat_alt)
  then have "take_bit 20 (unat limit) = unat limit" by (rule take_bit_nat_eq_self)
  then have l: "\<not> bit limit n" if "20 \<le> n" for n
    using that bit_take_bit_iff [of 20 "unat limit" n] by (simp add: bit_unsigned_iff)
  show "descriptor_limit ?d = limit"
  proof (rule bit_word_eqI)
    fix n assume "n < LENGTH(32)"
    then have n: "n < 32" by simp
    have "bit (descriptor_limit d) n \<longleftrightarrow> (if n < 16 then bit d n else n < 20 \<and> bit d (n + 32))" for d
      using n by (auto simp: descriptor_limit_def bit_simps ac_simps)
    then show "bit (descriptor_limit ?d) n \<longleftrightarrow> bit limit n"
      using n descriptor_bits [of n base limit flag] descriptor_bits [of "n + 32" base limit flag] assms(1) l [of n] by auto
  qed
  show "descriptor_flags ?d = flag AND 0xF0FF"
  proof (rule bit_word_eqI)
    fix n assume "n < LENGTH(16)"
    then have n: "n < 16" by simp
    have "bit (descriptor_flags d) n \<longleftrightarrow> (n < 8 \<or> 12 \<le> n) \<and> bit d (n + 40)" for d
      unfolding descriptor_flags_def masks64 low_mask using n by (auto simp: bit_simps ac_simps)
    moreover have "bit (flag AND 0xF0FF) n \<longleftrightarrow> (n < 8 \<or> 12 \<le> n) \<and> bit flag n"
      unfolding masks64 low_mask using n by (auto simp: bit_simps)
    ultimately show "bit (descriptor_flags ?d) n \<longleftrightarrow> bit (flag AND 0xF0FF) n"
      using n descriptor_bits [of "n + 40" base limit flag] assms(1) by auto
  qed
qed

lemma KINFO_sent:
  assumes "uart_live b" "CHR 0x00 \<notin> set msg"
  shows "\<exists>b'. KINFO msg b = Some b' \<and> sent b (lit ''[INFO] '' @ lit msg @ [10, 13]) b'"
proof -
  have "0 \<notin> set (lit msg)" using assms(2) by (rule lit_nonzero)
  then have "str_at (lit msg @ [0]) 0 (lit msg)" by (rule str_at_lit)
  moreover have "str_at (lit ''INFO'' @ [0]) 0 (lit ''INFO'')" by (rule str_at_lit) (simp add: lit_def)
  moreover have "lit ''['' @ lit ''INFO'' @ lit ''] '' @ x = lit ''[INFO] '' @ x" for x by (simp add: lit_def)
  ultimately show ?thesis using klog_sent [OF assms(1)] unfolding KINFO_def by metis
qed

section \<open>The interrupt table\<close>

record idt_entry =
  base_low :: u16
  selector :: u16
  always0 :: byte
  gate_flags :: byte
  base_high :: u16

definition idt_entry_zero :: idt_entry where
  "idt_entry_zero = \<lparr>base_low = 0, selector = 0, always0 = 0, gate_flags = 0, base_high = 0\<rparr>"

definition IDT_ENTRY_COUNT :: nat where "IDT_ENTRY_COUNT = 256"

definition idt_set_gate :: "byte \<Rightarrow> u32 \<Rightarrow> u16 \<Rightarrow> byte \<Rightarrow> idt_entry list \<Rightarrow> idt_entry list option" where
  "idt_set_gate num base sel fl idt =
     wr idt (unat num) \<lparr>base_low = ucast (base AND 0xFFFF), selector = sel, always0 = 0, gate_flags = fl,
       base_high = ucast (drop_bit 16 base AND 0xFFFF)\<rparr>"

text \<open>
  \<open>isr i\<close> and \<open>irq i\<close> are the addresses of the stubs of src/cpu/isr_stubs.asm. The 48 calls for
  the stubs stand in the source one by one, the result is the table and the pointer that \<open>idt_flush\<close> loads.
\<close>

record idt_state =
  idt :: "idt_entry list"
  idtp_limit :: u16
  idtp_base :: u32

definition idt_init :: "(nat \<Rightarrow> u32) \<Rightarrow> (nat \<Rightarrow> u32) \<Rightarrow> u32 \<Rightarrow> bus \<Rightarrow> (idt_state \<times> bus) option" where
  "idt_init isr irq addr_idt b = do {
     t \<leftarrow> for_upto 0 IDT_ENTRY_COUNT (\<lambda>i. idt_set_gate (of_nat i) 0 0 0) (replicate IDT_ENTRY_COUNT idt_entry_zero);
     t \<leftarrow> for_upto 0 32 (\<lambda>i. idt_set_gate (of_nat i) (isr i) 0x08 0x8E) t;
     t \<leftarrow> for_upto 32 48 (\<lambda>i. idt_set_gate (of_nat i) (irq (i - 32)) 0x08 0x8E) t;
     b \<leftarrow> KINFO ''[IDT] Gates configured and loaded'' b;
     Some (\<lparr>idt = t, idtp_limit = 256 * 8 - 1, idtp_base = addr_idt\<rparr>, b) }"

definition gate_target :: "idt_entry \<Rightarrow> u32" where
  "gate_target e = push_bit 16 (ucast (base_high e)) OR ucast (base_low e)"

lemma gate_target_split:
  "push_bit 16 (ucast (ucast (drop_bit 16 a AND 0xFFFF) :: u16)) OR ucast (ucast (a AND 0xFFFF) :: u16) = (a :: u32)"
proof (rule bit_word_eqI)
  fix n assume "n < LENGTH(32)"
  then show "bit (push_bit 16 (ucast (ucast (drop_bit 16 a AND 0xFFFF) :: u16)) OR ucast (ucast (a AND 0xFFFF) :: u16) :: u32) n = bit a n"
    unfolding low_mask by (auto simp: bit_simps)
qed

text \<open>Filling a range of gates.\<close>

definition gate :: "u32 \<Rightarrow> u16 \<Rightarrow> byte \<Rightarrow> idt_entry" where
  "gate base sel fl = \<lparr>base_low = ucast (base AND 0xFFFF), selector = sel, always0 = 0, gate_flags = fl,
     base_high = ucast (drop_bit 16 base AND 0xFFFF)\<rparr>"

lemma gate_fields: "gate_target (gate base sel fl) = base" "selector (gate base sel fl) = sel"
    "gate_flags (gate base sel fl) = fl" "always0 (gate base sel fl) = 0"
  by (simp_all add: gate_target_def gate_def gate_target_split)

lemma fill_gates:
  assumes "a \<le> n" "n \<le> 256" "length t = 256"
  shows "\<exists>t'. for_upto a n (\<lambda>i. idt_set_gate (of_nat i) (f i) sel fl) t = Some t' \<and> length t' = 256 \<and>
    (\<forall>i < 256. t' ! i = (if a \<le> i \<and> i < n then gate (f i) sel fl else t ! i))"
proof -
  let ?I = "\<lambda>j t'. length t' = 256 \<and> (\<forall>i < 256. t' ! i = (if a \<le> i \<and> i < j then gate (f i) sel fl else t ! i))"
  show ?thesis
  proof (rule for_upto_inv [where I = ?I])
    fix j t' assume j: "a \<le> j" "j < n" "?I j t'"
    have u: "unat (of_nat j :: byte) = j" using j(2) assms(2) by (simp add: unat_of_nat take_bit_nat_eq_self)
    then have "idt_set_gate (of_nat j) (f j) sel fl t' = Some (t'[j := gate (f j) sel fl])"
      using j assms(2) by (simp add: idt_set_gate_def gate_def)
    then show "\<exists>s'. idt_set_gate (of_nat j) (f j) sel fl t' = Some s' \<and> ?I (Suc j) s'"
      using j by (intro exI [of _ "t'[j := gate (f j) sel fl]"]) (auto simp: nth_list_update less_Suc_eq)
  qed (use assms in auto)
qed

lemma idt_init_spec:
  assumes "uart_live b"
  shows "\<exists>s b'. idt_init isr irq addr_idt b = Some (s, b') \<and> uart_live b' \<and> length (idt s) = 256 \<and>
    idtp_limit s = 2047 \<and> idtp_base s = addr_idt \<and>
    (\<forall>i < 256. idt s ! i = (if i < 32 then gate (isr i) 0x08 0x8E
       else if i < 48 then gate (irq (i - 32)) 0x08 0x8E else gate 0 0 0))"
proof -
  obtain t1 where t1: "for_upto 0 256 (\<lambda>i. idt_set_gate (of_nat i) ((\<lambda>_. 0) i) 0 0) (replicate 256 idt_entry_zero) = Some t1"
    "length t1 = 256" "\<forall>i < 256. t1 ! i = gate 0 0 0"
    using fill_gates [of 0 256 "replicate 256 idt_entry_zero" "\<lambda>_. 0" 0 0] by auto
  obtain t2 where t2: "for_upto 0 32 (\<lambda>i. idt_set_gate (of_nat i) (isr i) 0x08 0x8E) t1 = Some t2"
    "length t2 = 256" "\<forall>i < 256. t2 ! i = (if i < 32 then gate (isr i) 0x08 0x8E else t1 ! i)"
    using fill_gates [of 0 32 t1 isr "0x08" "0x8E"] t1(2) by auto
  obtain t3 where t3: "for_upto 32 48 (\<lambda>i. idt_set_gate (of_nat i) (irq (i - 32)) 0x08 0x8E) t2 = Some t3"
    "length t3 = 256" "\<forall>i < 256. t3 ! i = (if 32 \<le> i \<and> i < 48 then gate (irq (i - 32)) 0x08 0x8E else t2 ! i)"
    using fill_gates [of 32 48 t2 "\<lambda>i. irq (i - 32)" "0x08" "0x8E"] t2(2) by auto
  obtain b' where b': "KINFO ''[IDT] Gates configured and loaded'' b = Some b'" "uart_live b'"
    using KINFO_sent [OF assms, of "''[IDT] Gates configured and loaded''"] sent_live [OF _ assms] by auto
  show ?thesis using t1 t2 t3 b' by (intro exI [of _ "\<lparr>idt = t3, idtp_limit = 2047, idtp_base = addr_idt\<rparr>"] exI [of _ b'])
    (auto simp: idt_init_def IDT_ENTRY_COUNT_def)
qed

section \<open>Hardware interrupts\<close>

text \<open>
  The table of handlers holds the three that the code registers; a null pointer is \<open>None\<close>. The serial
  port's handler is the one of the builds with \<open>AURI_TEST_MODE\<close>.
\<close>

datatype irq_callback = Timer_Callback | Keyboard_Callback | Serial_Callback

definition serial_callback :: "kernel \<Rightarrow> outcome option" where
  "serial_callback k = (case port_in (SERIAL_PORT + 5) (k_bus k) of (status, b) \<Rightarrow>
     if status AND 1 \<noteq> 0 then
       (case port_in SERIAL_PORT b of (c, b) \<Rightarrow> shell_handle_key c (k\<lparr>k_bus := b\<rparr>))
     else Some (Running (k\<lparr>k_bus := b\<rparr>)))"

record machine =
  m_kernel :: kernel
  m_keyboard :: keyboard
  irq_handlers :: "irq_callback option list"
  m_gdt :: gdt_state
  m_idt :: idt_state

datatype machine_outcome = Alive machine | Stopped machine

definition irq_register_handler :: "int \<Rightarrow> irq_callback \<Rightarrow> machine \<Rightarrow> machine option" where
  "irq_register_handler irq handler m = do {
     hs \<leftarrow> wri (irq_handlers m) irq (Some handler);
     Some (m\<lparr>irq_handlers := hs\<rparr>) }"

definition call_handler :: "irq_callback \<Rightarrow> machine \<Rightarrow> machine_outcome option" where
  "call_handler h m = (case h of
     Timer_Callback \<Rightarrow>
       Some (Alive (m\<lparr>m_kernel := (m_kernel m)\<lparr>k_timer := timer_callback (k_timer (m_kernel m))\<rparr>\<rparr>))
   | Keyboard_Callback \<Rightarrow> do {
       (kb, r) \<leftarrow> keyboard_callback (m_keyboard m) (m_kernel m);
       Some (case r of
         Running k \<Rightarrow> Alive (m\<lparr>m_kernel := k, m_keyboard := kb\<rparr>)
       | Halted k \<Rightarrow> Stopped (m\<lparr>m_kernel := k, m_keyboard := kb\<rparr>)) }
   | Serial_Callback \<Rightarrow> do {
       r \<leftarrow> serial_callback (m_kernel m);
       Some (case r of
         Running k \<Rightarrow> Alive (m\<lparr>m_kernel := k\<rparr>)
       | Halted k \<Rightarrow> Stopped (m\<lparr>m_kernel := k\<rparr>)) })"

definition irq_handler :: "u32 \<Rightarrow> machine \<Rightarrow> machine_outcome option" where
  "irq_handler int_no m = do {
     let b = k_bus (m_kernel m);
     let b = (if int_no \<ge> 40 then port_out 0xA0 0x20 b else b);
     let b = port_out 0x20 0x20 b;
     let m = m\<lparr>m_kernel := (m_kernel m)\<lparr>k_bus := b\<rparr>\<rparr>;
     h \<leftarrow> rd (irq_handlers m) (unat (int_no - 32));
     case h of None \<Rightarrow> Some (Alive m) | Some h \<Rightarrow> call_handler h m }"

text \<open>\<open>serial_init\<close> of a build with \<open>AURI_TEST_MODE\<close>: it also listens.\<close>

definition serial_init_test :: "machine \<Rightarrow> machine option" where
  "serial_init_test m = do {
     k \<leftarrow> on_bus (\<lambda>b. Some (port_out (SERIAL_PORT + 1) 0x01 (serial_init b))) (m_kernel m);
     m \<leftarrow> irq_register_handler 4 Serial_Callback (m\<lparr>m_kernel := k\<rparr>);
     k \<leftarrow> on_bus (\<lambda>b. Some (pic_unmask_irq 4 b)) (m_kernel m);
     Some (m\<lparr>m_kernel := k\<rparr>) }"

definition keyboard_init :: "machine \<Rightarrow> machine option" where
  "keyboard_init m = do {
     m \<leftarrow> irq_register_handler 1 Keyboard_Callback m;
     k \<leftarrow> on_bus (\<lambda>b. Some (pic_unmask_irq 1 b)) (m_kernel m);
     k \<leftarrow> on_bus (KINFO ''[KBD] PS/2 Keyboard driver active'') k;
     Some (m\<lparr>m_kernel := k\<rparr>) }"

text \<open>The ports written to end an interrupt: the slave's too for the lines 8 to 15.\<close>

definition eoi :: "nat \<Rightarrow> (u16 \<times> byte) list" where
  "eoi irq = (if 8 \<le> irq then [(0xA0, 0x20)] else []) @ [(0x20, 0x20)]"

definition after_eoi :: "nat \<Rightarrow> bus \<Rightarrow> bus" where
  "after_eoi irq b = b\<lparr>writes := writes b @ eoi irq\<rparr>"

lemma irq_handler_eq:
  assumes "irq < 16" "length (irq_handlers m) = 16"
  shows "irq_handler (of_nat (32 + irq)) m =
    (let m' = m\<lparr>m_kernel := (m_kernel m)\<lparr>k_bus := after_eoi irq (k_bus (m_kernel m))\<rparr>\<rparr>
     in case irq_handlers m ! irq of None \<Rightarrow> Some (Alive m') | Some h \<Rightarrow> call_handler h m')"
proof -
  have "unat (of_nat (32 + irq) :: u32) = 32 + irq" using assms(1) by (simp only: unat_of_nat) (simp add: take_bit_nat_eq_self)
  then have 1: "(of_nat (32 + irq) :: u32) \<ge> 40 \<longleftrightarrow> 8 \<le> irq" by (simp add: word_le_nat_alt)
  have "unat (of_nat irq :: u32) = irq" using assms(1) by (simp only: unat_of_nat) (simp add: take_bit_nat_eq_self)
  then have 2: "unat ((of_nat (32 + irq) :: u32) - 32) = irq" by simp
  have 3: "port_out 0x20 0x20 (if (of_nat (32 + irq) :: u32) \<ge> 40 then port_out 0xA0 0x20 b else b) = after_eoi irq b" for b
    unfolding 1 by (simp add: port_out_def after_eoi_def eoi_def)
  show ?thesis unfolding irq_handler_def Let_def 3 2 using assms by simp
qed

section \<open>Properties\<close>

text \<open>C28: the processor reads back from a segment descriptor the limit, the flags and the base it was made from, when the
  limit has 20 bits and the bits 16 to 23 of the base are zero.\<close>

theorem descriptor_roundtrip:
  assumes "base AND 0x00FF0000 = 0" and "limit < 0x100000"
  shows "descriptor_limit (create_descriptor base limit flag) = limit \<and>
    descriptor_flags (create_descriptor base limit flag) = flag AND 0xF0FF \<and>
    descriptor_base (create_descriptor base limit flag) = base"
proof -
  have m: "(0x00FF0000 :: u32) = push_bit 16 (mask 8)" "(0xFF00FFFF :: u32) = push_bit 24 (mask 8) OR mask 16"
    by (simp_all add: mask_eq_exp_minus_1)
  have z: "\<forall>i. 16 \<le> i \<longrightarrow> i < 24 \<longrightarrow> \<not> bit base i"
  proof (intro allI impI)
    fix i :: nat assume i: "16 \<le> i" "i < 24"
    have "\<not> bit (base AND 0x00FF0000) i" using assms(1) by simp
    then show "\<not> bit base i" unfolding m using i by (auto simp: bit_simps)
  qed
  have "base AND 0xFF00FFFF = base"
  proof (rule bit_word_eqI)
    fix n assume "n < LENGTH(32)"
    then show "bit (base AND 0xFF00FFFF) n = bit base n" unfolding m using z [rule_format, of n] by (cases "n < 24"; cases "16 \<le> n") (auto simp: bit_simps)
  qed
  then show ?thesis using descriptor_fields [OF z assms(2)] descriptor_base_lost [of base limit flag] by simp
qed

theorem descriptor_roundtrip_witness:
  "descriptor_limit (create_descriptor 0 0xFFFFF GDT_CODE_PL3) = 0xFFFFF \<and> descriptor_base (create_descriptor 0 0xFFFFF GDT_CODE_PL3) = 0"
  using descriptor_roundtrip [of 0 "0xFFFFF" GDT_CODE_PL3] by simp

text \<open>A descriptor loses the bits 16 to 23 of its base, whatever the base, limit and flags: the processor reads the base
  without them.\<close>

theorem descriptor_base_truncated:
  "descriptor_base (create_descriptor base limit flag) = base AND 0xFF00FFFF"
  by (rule descriptor_base_lost)

end
