(* ===== verification/Shell_Exec.thy ===== *)
theory Shell_Exec
  imports Line_Editor
begin

text \<open>
  The Enter key from the line to the prompt: the line goes to the history, its first word selects the
  command, the command gets the words, and an empty line follows.
\<close>

section \<open>Dispatch by name\<close>

lemma on_name_spec:
  "str_at b p w \<Longrightarrow> CHR 0x00 \<notin> set s \<Longrightarrow> on_name b p s run other = (if w = lit s then run else other)"
  by (simp add: on_name_def streq_spec)

text \<open>The commands' names, with what they run.\<close>

definition command_table :: "nat list \<Rightarrow> kernel \<Rightarrow> (string \<times> outcome option) list" where
  "command_table args k =
     [(''help'', runs (help_command k)), (''clear'', runs (on_term terminal_clear k)), (''fetch'', runs (fetch k)),
      (''crash'', crash k), (''reboot'', reboot k), (''exit'', poweroff k), (''uptime'', runs (uptime args k)),
      (''echo'', runs (echo args k)), (''memdump'', runs (memdump args k)), (''mia'', mia k),
      (''mmap'', runs (on_bus (mmu_view_mappings (k_mm k)) k)), (''peek'', peek args k), (''poke'', poke args k),
      (''memtest'', memtest k), (''setprompt'', runs (setprompt args k))]"

definition unknown_text :: "byte list \<Rightarrow> byte list" where
  "unknown_text w = lit ''command not found: '' @ w @ [10]"

lemma command_names: "map fst (command_table args k) = [''help'', ''clear'', ''fetch'', ''crash'', ''reboot'', ''exit'',
    ''uptime'', ''echo'', ''memdump'', ''mia'', ''mmap'', ''peek'', ''poke'', ''memtest'', ''setprompt'']"
  by (simp add: command_table_def)

text \<open>Every completed name is a command's name and the other way round.\<close>

lemma completion_names: "set command_list = set (map fst (command_table args k))"
  unfolding command_names command_list_def by (simp only: list.set insert_commute)

lemma lit_inj: "lit s = lit t \<longleftrightarrow> s = t"
proof -
  have "inj (of_char :: char \<Rightarrow> byte)"
  proof (rule injI)
    fix c d :: char assume a: "(of_char c :: byte) = of_char d"
    have "(of_nat (of_char c) :: byte) = of_nat (of_char d)" using a by (simp only: of_nat_of_char)
    then have "unat (of_nat (of_char c) :: byte) = unat (of_nat (of_char d) :: byte)" by simp
    moreover have "(of_char c :: nat) < 256" "(of_char d :: nat) < 256" by (rule nat_of_char_less_256)+
    ultimately have "(of_char c :: nat) = of_char d" by (simp add: unat_of_nat take_bit_eq_mod)
    then show "c = d" by simp
  qed
  then show ?thesis by (simp add: lit_def inj_map_eq_map)
qed

lemma dispatch_chain:
  assumes "str_at b p w"
  shows "\<forall>s \<in> set (map fst tab). CHR 0x00 \<notin> set s \<Longrightarrow>
    foldr (\<lambda>(s, run) other. on_name b p s run other) tab other =
    (case map_of (map (\<lambda>(s, r). (lit s, r)) tab) w of Some r \<Rightarrow> r | None \<Rightarrow> other)"
  by (induction tab) (auto simp: on_name_spec [OF assms])

lemma shell_dispatch_spec:
  assumes "argv (k_buffer k) args (w # ws)"
  shows "shell_dispatch args k = (case map_of (map (\<lambda>(s, r). (lit s, r)) (command_table args k)) w of
     Some r \<Rightarrow> r | None \<Rightarrow> runs (emits (unknown_text w) k))"
proof -
  obtain p ps where args: "args = p # ps" "str_at (k_buffer k) p w"
    using assms by (auto simp: argv_def list_all2_Cons2)
  have u: "do { k \<leftarrow> prints ''command not found: '' k; k \<leftarrow> on_term (terminal_writestring (k_buffer k) p) k; runs (putc 10 k) } =
      runs (emits (unknown_text w) k)"
  proof -
    have "do { k \<leftarrow> prints ''command not found: '' k; k \<leftarrow> on_term (terminal_writestring (k_buffer k) p) k; putc 10 k } =
        emits (unknown_text w) k"
    proof (cases "emits (lit ''command not found: '') k")
      case None
      then show ?thesis by (simp add: prints_lit unknown_text_def emits_append del: lit_simps)
    next
      case (Some k1)
      then have "k_buffer k1 = k_buffer k" using emits_fields by blast
      moreover have "on_term (terminal_writestring (k_buffer k) p) k1 = emits w k1" by (intro writestring_emits [OF args(2)])
      ultimately show ?thesis using Some by (simp add: prints_lit unknown_text_def emits_append putc_emits del: lit_simps)
    qed
    then show ?thesis by (auto simp: runs_def split: bind_splits)
  qed
  have "shell_dispatch args k =
      foldr (\<lambda>(s, run) other. on_name (k_buffer k) p s run other) (command_table args k) (runs (emits (unknown_text w) k))"
    unfolding u [symmetric] using args(1) by (simp add: shell_dispatch_def command_table_def Let_def)
  also have "\<forall>s \<in> set (map fst (command_table args k)). CHR 0x00 \<notin> set s"
    unfolding command_names by simp
  note dispatch_chain [OF args(2) this]
  finally show ?thesis .
qed

section \<open>Enter\<close>

text \<open>The state a command starts in: the line in the history, the buffer cut into words.\<close>

definition command_state :: "byte list \<Rightarrow> nat list \<Rightarrow> kernel \<Rightarrow> kernel \<Rightarrow> bool" where
  "command_state cs args k k1 \<longleftrightarrow> kernel_ok (k1\<lparr>k_pos := 0\<rparr>) \<and> argv (k_buffer k1) args (line_words cs) \<and>
     history_view (k_hist k1) = log_push cs (history_view (k_hist k)) \<and>
     k1 = k\<lparr>k_term := k_term k1, k_hist := k_hist k1, k_buffer := k_buffer k1\<rparr> \<and>
     puts terminal_putchar [10] (k_term k) = Some (k_term k1)"

definition new_line :: "kernel \<Rightarrow> outcome option" where
  "new_line k = do { b \<leftarrow> wr (k_buffer k) 0 0; runs (shell_render_prompt (k\<lparr>k_buffer := b, k_pos := 0\<rparr>)) }"

lemma key_enter_run:
  assumes ok: "kernel_ok k"
  shows "\<exists>k1 args. command_state (cstring (k_buffer k)) args k k1 \<and>
    key_enter k = cont (if args = [] then Some (Running k1) else shell_dispatch args k1) new_line"
proof -
  let ?cs = "cstring (k_buffer k)"
  have l: "is_line (k_buffer k)" "history_ok (k_hist k)" using ok by (simp_all add: kernel_ok_def)
  have str: "str_at (k_buffer k) 0 ?cs" by (rule is_line_str_at [OF l(1)])
  obtain k0 where k0: "putc 10 k = Some k0" "kernel_ok k0" "same_but_term k k0" using putc_ok [OF ok] by blast
  note f = same_but_term_simps [OF k0(3)]
  have t: "terminal_putchar 10 (k_term k) = Some (k_term k0)" "k0 = k\<lparr>k_term := k_term k0\<rparr>"
    using k0(1) by (auto simp: putc_def on_term_def split: bind_splits)
  obtain h where h: "history_push (k_hist k) (Some (k_buffer k, 0)) = Some h" "history_ok h"
    "history_view h = log_push ?cs (history_view (k_hist k))"
    using history_push_refines [OF l(2) str] by blast
  obtain b args where b: "shell_parse (k_buffer k) = Some (b, args)" "argv b args (line_words ?cs)"
    "length b = length (k_buffer k)" "0 \<in> set b"
    using shell_parse_spec [OF str] by blast
  let ?k1 = "k0\<lparr>k_hist := h, k_buffer := b\<rparr>"
  have "shell_execute k0 = (if args = [] then Some (Running ?k1) else shell_dispatch args ?k1)"
    using h(1) b(1) f by (simp add: shell_execute_def)
  then have "key_enter k = cont (if args = [] then Some (Running ?k1) else shell_dispatch args ?k1) new_line"
    using k0(1) unfolding key_enter_def new_line_def by simp
  moreover have "is_line b" using b(3,4) l(1) by (simp add: is_line_def)
  then have "command_state ?cs args k ?k1"
    using k0(2) t f h(2,3) b(2) unfolding command_state_def by (simp add: kernel_ok_def)
  ultimately show ?thesis by blast
qed

text \<open>After a command that leaves the machine running, an empty line with the prompt.\<close>

lemma new_line_run:
  assumes "kernel_ok (k\<lparr>k_pos := 0\<rparr>)"
  shows "\<exists>k' t. new_line k = Some (Running k') \<and> kernel_ok k' \<and> cstring (k_buffer k') = [] \<and> k_pos k' = 0 \<and>
    puts terminal_putchar (prompt_text (cstring (k_user k)) (cstring (k_os k))) (k_term k) = Some t \<and>
    k' = k\<lparr>k_buffer := (k_buffer k)[0 := 0], k_pos := 0, k_term := t\<rparr>"
proof -
  have len: "length (k_buffer k) = 256" using assms by (simp add: kernel_ok_def is_line_def)
  let ?b = "(k_buffer k)[0 := 0]" and ?cs = "prompt_text (cstring (k_user k)) (cstring (k_os k))"
  obtain y ys where b: "k_buffer k = y # ys" using len by (cases "k_buffer k") auto
  have bl: "is_line ?b" "cstring ?b = []" using len unfolding b by (simp_all add: is_line_def cstring_def)
  have ok: "kernel_ok (k\<lparr>k_buffer := ?b, k_pos := 0\<rparr>)" using assms bl by (simp add: kernel_ok_def)
  obtain k' where k': "emits ?cs (k\<lparr>k_buffer := ?b, k_pos := 0\<rparr>) = Some k'" "kernel_ok k'" using emits_ok [OF ok] by blast
  then have "new_line k = Some (Running k')"
    using shell_render_prompt_emits [OF ok] len by (simp add: new_line_def runs_def)
  moreover obtain t where "puts terminal_putchar ?cs (k_term k) = Some t" "k' = k\<lparr>k_buffer := ?b, k_pos := 0, k_term := t\<rparr>"
    using k'(1) by (auto simp: emits_def on_term_def split: bind_splits)
  ultimately show ?thesis using k'(2) bl(2) by (intro exI [of _ k'] exI [of _ t]) simp
qed

section \<open>What is printed\<close>

text \<open>What Enter prints for the words of a line that starts with \<open>echo\<close> or with no command.\<close>

definition line_output :: "byte list list \<Rightarrow> byte list" where
  "line_output ws = (case ws of [] \<Rightarrow> [] | w # args \<Rightarrow> if w = lit ''echo'' then echo_text args else unknown_text w)"

lemma runs_emits:
  assumes "runs (emits cs k) = x" "kernel_ok (k\<lparr>k_pos := 0\<rparr>)"
  obtains t where "x = Some (Running (k\<lparr>k_term := t\<rparr>))" "puts terminal_putchar cs (k_term k) = Some t" "term_ok t"
proof -
  have "term_ok (k_term k)" using assms(2) by (simp add: kernel_ok_def)
  then obtain t where t: "puts terminal_putchar cs (k_term k) = Some t" "term_ok t" using vga.puts_ok by blast
  have "x = Some (Running (k\<lparr>k_term := t\<rparr>))" using assms(1) emits_puts [OF t(1)] by (simp add: runs_def)
  then show ?thesis using that t by blast
qed

lemma dispatch_prints:
  assumes argv: "argv (k_buffer k) args ws"
    and first: "\<forall>w args. ws = w # args \<longrightarrow> w = lit ''echo'' \<or> w \<notin> lit ` set command_list"
  shows "(if args = [] then Some (Running k) else shell_dispatch args k) = runs (emits (line_output ws) k)"
proof (cases ws)
  case Nil
  then show ?thesis using argv by (simp add: argv_def line_output_def runs_def)
next
  case (Cons w args')
  have ne: "args \<noteq> []" using argv Cons by (auto simp: argv_def)
  show ?thesis
  proof (cases "w = lit ''echo''")
    case True
    then show ?thesis using shell_dispatch_spec [OF argv [unfolded Cons]] echo_emits [OF argv ne] ne
      by (simp add: command_table_def lit_inj Cons line_output_def del: lit_simps)
  next
    case False
    then have "w \<notin> lit ` set command_list" using first Cons by blast
    then have "w \<notin> fst ` set (map (\<lambda>(s, r). (lit s, r)) (command_table args k))"
      unfolding completion_names [of args k] by (auto simp: image_iff)
    then have "map_of (map (\<lambda>(s, r). (lit s, r)) (command_table args k)) w = None" by (rule iffD2 [OF map_of_eq_None_iff])
    then show ?thesis using shell_dispatch_spec [OF argv [unfolded Cons]] False ne by (simp add: Cons line_output_def)
  qed
qed

section \<open>Properties\<close>

text \<open>C22: Enter on a line that is empty, starts with echo or starts with no command's name: the line goes to the
  history, the screen gets a line feed, the output of the words (what echo prints, or that the command was not found)
  and the prompt, and the shell has an empty line.\<close>

theorem enter_runs_line:
  assumes ok: "kernel_ok k" and ws: "ws = line_words (cstring (k_buffer k))"
    and first: "\<forall>w args. ws = w # args \<longrightarrow> w = lit ''echo'' \<or> w \<notin> lit ` set command_list"
  shows "\<exists>k'. shell_handle_key 10 k = Some (Running k') \<and> kernel_ok k' \<and> cstring (k_buffer k') = [] \<and> k_pos k' = 0 \<and>
    history_view (k_hist k') = log_push (cstring (k_buffer k)) (history_view (k_hist k)) \<and>
    puts terminal_putchar ([10] @ line_output ws @ prompt_text (cstring (k_user k)) (cstring (k_os k))) (k_term k) = Some (k_term k')"
proof -
  obtain k1 args where s: "command_state (cstring (k_buffer k)) args k k1"
    and run: "key_enter k = cont (if args = [] then Some (Running k1) else shell_dispatch args k1) new_line"
    using key_enter_run [OF ok] by blast
  note k1 = s [unfolded command_state_def]
  have argv: "argv (k_buffer k1) args ws" using k1 ws by blast
  have frame: "k_user k1 = k_user k" "k_os k1 = k_os k"
    using k1 by (metis kernel.select_convs(5,6) kernel.surjective kernel.update_convs(1,2,3))+
  obtain t where t: "(if args = [] then Some (Running k1) else shell_dispatch args k1) = Some (Running (k1\<lparr>k_term := t\<rparr>))"
    "puts terminal_putchar (line_output ws) (k_term k1) = Some t" "term_ok t"
    using runs_emits [OF dispatch_prints [OF argv first, symmetric]] k1 by blast
  let ?k2 = "k1\<lparr>k_term := t\<rparr>"
  have "kernel_ok (?k2\<lparr>k_pos := 0\<rparr>)" using k1 t(3) by (simp add: kernel_ok_def)
  from new_line_run [OF this] obtain k' t' where k': "new_line ?k2 = Some (Running k')" "kernel_ok k'" "cstring (k_buffer k') = []"
    "k_pos k' = 0" "puts terminal_putchar (prompt_text (cstring (k_user ?k2)) (cstring (k_os ?k2))) (k_term ?k2) = Some t'"
    "k' = ?k2\<lparr>k_buffer := (k_buffer ?k2)[0 := 0], k_pos := 0, k_term := t'\<rparr>" by blast
  have "shell_handle_key 10 k = Some (Running k')" using run t(1) k'(1) by (simp add: shell_handle_key_def cont_def)
  moreover have "puts terminal_putchar ([10] @ line_output ws @ prompt_text (cstring (k_user k)) (cstring (k_os k))) (k_term k) = Some t'"
    using k1 t(2) k'(5) frame by (simp only: puts_append) simp
  moreover have "k_term k' = t'" "k_hist k' = k_hist k1" unfolding k'(6) by simp_all
  ultimately show ?thesis using k'(2,3,4) k1 by auto
qed

theorem enter_runs_line_witness:
  "\<exists>k'. shell_handle_key 10 (example_kernel\<lparr>k_buffer := lit ''echo hi'' @ replicate 249 0\<rparr>) = Some (Running k') \<and>
     commands (history_view (k_hist k')) = [lit ''echo hi''] \<and>
     puts terminal_putchar ([10] @ lit ''hi '' @ [10] @ prompt_text (lit ''root'') (lit ''auri-os'')) boot_terminal = Some (k_term k')"
proof -
  let ?k = "example_kernel\<lparr>k_buffer := lit ''echo hi'' @ replicate 249 0\<rparr>"
  have c: "cstring (k_buffer ?k) = lit ''echo hi''" by (simp add: cstring_def lit_def)
  have ok: "kernel_ok ?k" using example_kernel_ok by (simp add: kernel_ok_def is_line_def example_kernel_def lit_def)
  have ws: "[lit ''echo'', lit ''hi''] = line_words (cstring (k_buffer ?k))"
    unfolding c by (simp add: line_words_def lit_def lstrip_def rstrip_def words.simps MAX_CMD_ARGS_def is_blank_def)
  have "\<forall>w args. [lit ''echo'', lit ''hi''] = w # args \<longrightarrow> w = lit ''echo'' \<or> w \<notin> lit ` set command_list" by simp
  from enter_runs_line [OF ok ws this] obtain k' where k': "shell_handle_key 10 ?k = Some (Running k')"
    "history_view (k_hist k') = log_push (lit ''echo hi'') (history_view history_zero)"
    "puts terminal_putchar ([10] @ line_output [lit ''echo'', lit ''hi''] @ prompt_text (cstring (k_user ?k)) (cstring (k_os ?k))) boot_terminal = Some (k_term k')"
    unfolding c by (auto simp: example_kernel_def)
  have "line_output [lit ''echo'', lit ''hi''] = lit ''hi '' @ [10]" by (simp add: line_output_def echo_text_def lit_def)
  moreover have "cstring (k_user ?k) = lit ''root''" "cstring (k_os ?k) = lit ''auri-os''"
    by (simp_all add: example_kernel_def cstring_def lit_def)
  moreover have "commands (history_view (k_hist k')) = [lit ''echo hi'']"
    using k'(2) by (simp add: history_zero_view log_push_def kept_def lit_def)
  ultimately show ?thesis using k'(1,3) by (intro exI [of _ k']) simp
qed

end
