(* ===== verification/Boot.thy ===== *)
theory Boot
  imports Cpu Shell_Exec
begin

text \<open>
  src/kernel/kernel.c: the memory map of the boot loader, the order of the start-up, the logo. Memory as
  the boot loader left it is a function from addresses to bytes; the addresses the linker assigns are the
  record \<open>linker\<close>. Time passes in \<open>sleep\<close>, which takes interrupts from a list.
\<close>

section \<open>The boot loader's tables\<close>

record multiboot_info =
  mb_flags :: u32
  mem_lower :: u32
  mem_upper :: u32
  boot_device :: u32
  cmdline :: u32
  mods_count :: u32
  mods_addr :: u32
  syms :: "u32 list"
  mmap_length :: u32
  mmap_addr :: u32
  drives_length :: u32
  drives_addr :: u32
  config_table :: u32
  boot_loader_name :: u32
  apm_table :: u32
  vbe_control_info :: u32
  vbe_mode_info :: u32
  vbe_mode :: u16
  vbe_interface_seg :: u16
  vbe_interface_off :: u16
  vbe_interface_len :: u16
  framebuffer_addr :: u64
  framebuffer_pitch :: u32
  framebuffer_width :: u32
  framebuffer_height :: u32
  framebuffer_bpp :: byte
  framebuffer_type :: byte

definition MULTIBOOT_MEMORY_AVAILABLE :: u32 where "MULTIBOOT_MEMORY_AVAILABLE = 1"
definition MULTIBOOT_BOOTLOADER_MAGIC :: u32 where "MULTIBOOT_BOOTLOADER_MAGIC = 0x2BADB002"

record multiboot_memory_map =
  mmap_size :: u32
  base_addr_low :: u32
  base_addr_high :: u32
  length_low :: u32
  length_high :: u32
  mmap_type :: u32

type_synonym physical = "u32 \<Rightarrow> byte"

definition read32 :: "physical \<Rightarrow> u32 \<Rightarrow> u32" where
  "read32 mem a = ucast (mem a) OR push_bit 8 (ucast (mem (a + 1))) OR
     push_bit 16 (ucast (mem (a + 2))) OR push_bit 24 (ucast (mem (a + 3)))"

definition memory_map_at :: "physical \<Rightarrow> u32 \<Rightarrow> multiboot_memory_map" where
  "memory_map_at mem a = \<lparr>mmap_size = read32 mem a, base_addr_low = read32 mem (a + 4),
     base_addr_high = read32 mem (a + 8), length_low = read32 mem (a + 12),
     length_high = read32 mem (a + 16), mmap_type = read32 mem (a + 20)\<rparr>"

text \<open>The two walks over the map, which do not end when an entry's size takes them nowhere.\<close>

partial_function (option) max_ram_loop :: "physical \<Rightarrow> u32 \<Rightarrow> u32 \<Rightarrow> u32 \<Rightarrow> u32 option" where
  "max_ram_loop mem map_end temp_mmap max_ram_addr =
     (if temp_mmap < map_end then
        let e = memory_map_at mem temp_mmap;
            zone_end = base_addr_low e + length_low e;
            max_ram_addr = (if zone_end > max_ram_addr then zone_end else max_ram_addr)
        in max_ram_loop mem map_end (temp_mmap + mmap_size e + 4) max_ram_addr
      else Some max_ram_addr)"

partial_function (option) free_zones_loop :: "physical \<Rightarrow> u32 \<Rightarrow> u32 \<Rightarrow> pmm \<Rightarrow> pmm option" where
  "free_zones_loop mem map_end mmap p =
     (if mmap < map_end then
        let e = memory_map_at mem mmap in
        case (if mmap_type e = MULTIBOOT_MEMORY_AVAILABLE
              then pmm_mark_region_free (base_addr_low e) (length_low e) p else Some p) of
          None \<Rightarrow> None
        | Some p \<Rightarrow> free_zones_loop mem map_end (mmap + mmap_size e + 4) p
      else Some p)"

definition init_pmm :: "u32 \<Rightarrow> physical \<Rightarrow> multiboot_info \<Rightarrow> pmm option" where
  "init_pmm kernel_end_addr mem mb = do {
     let map_end = mmap_addr mb + mmap_length mb;
     max_ram_addr \<leftarrow> max_ram_loop mem map_end (mmap_addr mb) 0;
     let p = pmm_init max_ram_addr kernel_end_addr;
     p \<leftarrow> free_zones_loop mem map_end (mmap_addr mb) p;
     let bitmap_size = max_ram_addr div 4096 div 8;
     p \<leftarrow> pmm_mark_region_used 0x100000 ((kernel_end_addr - 0x100000) + bitmap_size) p;
     p \<leftarrow> pmm_mark_region_used 0x0 4096 p;
     pmm_mark_region_used 0x80000 0x10000 p }"

definition init_mem :: "u32 \<Rightarrow> physical \<Rightarrow> multiboot_info \<Rightarrow> kernel \<Rightarrow> kernel option" where
  "init_mem kernel_end_addr mem mb k =
     (if mb_flags mb AND push_bit 6 1 \<noteq> 0 then do {
        p \<leftarrow> init_pmm kernel_end_addr mem mb;
        on_bus (KINFO ''[PMM] Physical Memory Manager initialized by Zig.'') (set_mm ((k_mm k)\<lparr>phys := p\<rparr>) k) }
      else on_bus (KPANIC ''No memory map provided by bootloader!'') k)"

section \<open>The logo\<close>

text \<open>The kernel and the interrupts still to come.\<close>

type_synonym timed = "kernel \<times> nat list"

definition on_kernel :: "(kernel \<Rightarrow> kernel option) \<Rightarrow> timed \<Rightarrow> timed option" where
  "on_kernel f s = (case s of (k, irqs) \<Rightarrow> do { k \<leftarrow> f k; Some (k, irqs) })"

definition nap :: "u32 \<Rightarrow> timed \<Rightarrow> timed option" where
  "nap ms s = (case s of (k, irqs) \<Rightarrow> do {
     (t, irqs) \<leftarrow> sleep ms irqs (k_timer k);
     Some (k\<lparr>k_timer := t\<rparr>, irqs) })"

definition ANSI_CSI :: string where "ANSI_CSI = [CHR 0x1B, CHR ''['']"
definition BG_COLOR_BLUE :: string where "BG_COLOR_BLUE = sgr ''44''"

definition set_cursor_ansi :: "int \<Rightarrow> int \<Rightarrow> kernel \<Rightarrow> kernel option" where
  "set_cursor_ansi x y k = do {
     k \<leftarrow> prints ANSI_CSI k;
     b \<leftarrow> itoa y (replicate 16 0);
     k \<leftarrow> on_term (terminal_writestring b 0) k;
     k \<leftarrow> prints '';'' k;
     b \<leftarrow> itoa x b;
     k \<leftarrow> on_term (terminal_writestring b 0) k;
     prints ''H'' k }"

definition logo :: "string list" where
  "logo = [''                                      .**.'',
     ''                                     .=###.'',
     ''                                    .==.##%'',
     ''                                   .===.###'',
     ''                                  .=====###.'',
     ''                                 .======.###'',
     ''                                .======..###.'',
     ''                               .===.     ###.'',
     ''                                         .***'']"

definition target_text :: string where
  "target_text = '' Auri-Os - Kernel v0.2.2 ''"

text \<open>A character falls from the top of the screen to its place.\<close>

definition fall :: "nat \<Rightarrow> nat \<Rightarrow> char \<Rightarrow> timed \<Rightarrow> timed option" where
  "fall target_x target_y c =
     for_upto 1 (target_y + 1) (\<lambda>y s. do {
       s \<leftarrow> (if y > 1 then do {
               s \<leftarrow> on_kernel (set_cursor_ansi (int target_x) (int y - 1)) s;
               on_kernel (putc 32) s } else Some s);
       s \<leftarrow> on_kernel (set_cursor_ansi (int target_x) (int y)) s;
       s \<leftarrow> on_kernel (putc (chb c)) s;
       nap 2 s })"

definition title_char :: "nat \<Rightarrow> nat \<Rightarrow> kernel \<Rightarrow> kernel option" where
  "title_char frame i k =
     (if frame > i then putc (chb (target_text ! i)) k
      else let chaos = get_tick (k_timer k) + of_nat (i * 17) + of_nat (frame * 31)
           in putc (ucast (33 + chaos mod 94)) k)"

definition animate_logo :: "timed \<Rightarrow> timed option" where
  "animate_logo s = do {
     s \<leftarrow> on_kernel (on_term terminal_clear) s;
     s \<leftarrow> on_kernel (prints COLOR_CYAN_BRIGHT) s;
     s \<leftarrow> for_upto 0 48 (\<lambda>col. for_upto 0 9 (\<lambda>r s.
            let row = 8 - r in
            if col < length (logo ! row) \<and> logo ! row ! col \<noteq> CHR '' ''
            then fall (col + 1) (6 + row) (logo ! row ! col) s else Some s)) s;
     s \<leftarrow> on_kernel (prints (COLOR_WHITE_BRIGHT @ BG_COLOR_BLUE)) s;
     s \<leftarrow> for_upto 0 30 (\<lambda>frame s. do {
            s \<leftarrow> on_kernel (set_cursor_ansi 28 17) s;
            s \<leftarrow> for_upto 0 (length target_text) (\<lambda>i. on_kernel (title_char frame i)) s;
            nap 40 s }) s;
     s \<leftarrow> on_kernel (set_cursor_ansi 28 17) s;
     s \<leftarrow> on_kernel (prints target_text) s;
     s \<leftarrow> on_kernel (prints COLOR_RESET) s;
     s \<leftarrow> on_kernel (set_cursor_ansi 1 20) s;
     nap 1000 s }"

section \<open>Start-up\<close>

record linker =
  kernel_end :: u32
  gdt_addr :: u32
  tss_addr :: u32
  idt_addr :: u32
  isr_stubs :: "nat \<Rightarrow> u32"
  irq_stubs :: "nat \<Rightarrow> u32"

text \<open>Descriptor tables, interrupt controller, screen and timer, up to \<open>sti\<close>.\<close>

definition boot_devices :: "linker \<Rightarrow> machine \<Rightarrow> machine option" where
  "boot_devices ld m = do {
     k \<leftarrow> on_bus (KINFO ''[KRN] Starting AuriOS boot sequence...'') (m_kernel m);
     (g, b) \<leftarrow> gdt_init (gdt_addr ld) (tss_addr ld) (k_bus k);
     b \<leftarrow> pic_remap b;
     (i, b) \<leftarrow> idt_init (isr_stubs ld) (irq_stubs ld) (idt_addr ld) b;
     let (in1, b) = port_in 0x3D5 b;
     let (in2, b) = port_in 0x3D5 b;
     t \<leftarrow> terminal_initialize in1 in2 (k_term k);
     m \<leftarrow> irq_register_handler 0 Timer_Callback m;
     (tm, b) \<leftarrow> timer_init 1000 (k_timer k) b;
     Some (m\<lparr>m_kernel := k\<lparr>k_term := t, k_timer := tm, k_bus := b\<rparr>, m_gdt := g, m_idt := i\<rparr>) }"

text \<open>Physical memory and paging.\<close>

definition boot_paging :: "linker \<Rightarrow> physical \<Rightarrow> multiboot_info \<Rightarrow> kernel \<Rightarrow> kernel option" where
  "boot_paging ld mem mb k = do {
     k \<leftarrow> init_mem (kernel_end ld) mem mb k;
     k \<leftarrow> on_bus (pmm_dump_bitmap 128 (phys (k_mm k))) k;
     mm \<leftarrow> mmu_init (k_mm k);
     let mm = mmu_enable mm;
     let k = set_mm mm k;
     if mmu_is_paging_enabled mm = 1 then on_bus (KINFO ''[MMU] Matrix activated: Paging is physically ON!'') k
     else on_bus (KPANIC ''[MMU] Paging failed to enable!'') k }"

definition boot_screen :: "timed \<Rightarrow> timed option" where
  "boot_screen s = do {
     s \<leftarrow> on_kernel (prints (''AuriOS Kernel v0.2.2'' @ nl)) s;
     s \<leftarrow> nap 100 s;
     s \<leftarrow> on_kernel (prints (''GDT initialized successfully'' @ nl)) s;
     s \<leftarrow> nap 50 s;
     s \<leftarrow> on_kernel (prints (''PIC remapped'' @ nl)) s;
     s \<leftarrow> nap 30 s;
     s \<leftarrow> on_kernel (prints (''IDT initialized with ISR handlers'' @ nl)) s;
     s \<leftarrow> nap 60 s;
     s \<leftarrow> on_kernel (\<lambda>k. do { h \<leftarrow> memory_init (k_heap k); Some (k\<lparr>k_heap := h\<rparr>) }) s;
     s \<leftarrow> on_kernel (prints (''Memory initialized'' @ nl)) s;
     s \<leftarrow> nap 120 s;
     s \<leftarrow> on_kernel (prints (''System ready.'' @ nl @ nl)) s;
     s \<leftarrow> nap 1000 s;
     s \<leftarrow> on_kernel (on_term terminal_clear) s;
     s \<leftarrow> animate_logo s;
     nap 2000 s }"

text \<open>The state in which \<open>kernel_main\<close> waits for interrupts, or returns when the magic number is wrong.\<close>

definition kernel_main :: "linker \<Rightarrow> physical \<Rightarrow> u32 \<Rightarrow> multiboot_info \<Rightarrow> machine \<Rightarrow> nat list \<Rightarrow> (machine \<times> nat list) option" where
  "kernel_main ld mem magic mb m irqs = do {
     k \<leftarrow> on_bus (\<lambda>b. Some (serial_init b)) (m_kernel m);
     if magic \<noteq> MULTIBOOT_BOOTLOADER_MAGIC then do {
       k \<leftarrow> on_bus (KPANIC ''Invalid Multiboot magic number'') k;
       Some (m\<lparr>m_kernel := k\<rparr>, irqs) }
     else do {
       m \<leftarrow> boot_devices ld (m\<lparr>m_kernel := k\<rparr>);
       k \<leftarrow> boot_paging ld mem mb (m_kernel m);
       (k, irqs) \<leftarrow> boot_screen (k, irqs);
       m \<leftarrow> keyboard_init (m\<lparr>m_kernel := k\<rparr>);
       k \<leftarrow> on_term terminal_clear (m_kernel m);
       k \<leftarrow> shell_init k;
       k \<leftarrow> on_bus (KINFO ''[KRN] Boot sequence complete. System ready.'') k;
       Some (m\<lparr>m_kernel := k\<rparr>, irqs) } }"

end
