(* ===== verification/Debug_Spec.thy ===== *)
theory Debug_Spec
  imports Commands_Spec
begin

text \<open>
  The debug functions of src/mm/mmu.zig behind the commands \<open>peek\<close> and \<open>poke\<close>: what they send to the
  serial port and print, and that a peek after a poke finds the byte.
\<close>

section \<open>Hexadecimal output on the serial port\<close>

lemma nibble_digit:
  "(if (ucast (v AND 0xF :: u32) :: byte) < 10 then 48 + ucast (v AND 0xF) else 65 + (ucast (v AND 0xF) - 10)) = hex_digit (v AND 0xF)"
proof -
  have "v AND 15 < 16" using word_and_le1 [of v 15] by (simp add: word_le_nat_alt word_less_nat_alt)
  then have "unat (ucast (v AND 15) :: byte) = unat (v AND 15)"
    by (simp add: unsigned_ucast_eq take_bit_nat_eq_self word_less_nat_alt)
  then have "(ucast (v AND 15) :: byte) < 10 \<longleftrightarrow> v AND 15 < 10" by (simp add: word_less_nat_alt)
  then show ?thesis by (simp add: hex_digit_def)
qed

lemma serial_hex_fill_digits:
  "n \<le> length b \<Longrightarrow> serial_hex_fill n v b = Some (overwrite b 0 (hex_digits n v))"
proof (induction n arbitrary: v b)
  case (Suc n)
  have "serial_hex_fill (Suc n) v b = serial_hex_fill n (drop_bit 4 v) (b[n := hex_digit (v AND 0xF)])"
    using Suc.prems by (simp only: serial_hex_fill.simps Let_def nibble_digit) simp
  also have "\<dots> = Some (overwrite (b[n := hex_digit (v AND 0xF)]) 0 (hex_digits n (drop_bit 4 v)))"
    using Suc by simp
  finally show ?case
    using overwrite_snoc [of 0 "hex_digits n (drop_bit 4 v)" b "hex_digit (v AND 0xF)"] Suc.prems by simp
qed simp

lemma puts_serial_sent:
  "uart_live b \<Longrightarrow> \<exists>b'. puts serial_write_char cs b = Some b' \<and> sent b cs b'"
proof (induction cs arbitrary: b)
  case Nil
  then show ?case by (simp add: sent_def)
next
  case (Cons c cs)
  obtain b1 where b1: "serial_write_char c b = Some b1" "sent b [c] b1"
    using serial_write_char_sent [OF Cons.prems] by blast
  then obtain b2 where "puts serial_write_char cs b1 = Some b2" "sent b1 cs b2"
    using Cons.IH sent_live [OF b1(2) Cons.prems] by blast
  then show ?case using b1 sent_trans [OF b1(2)] by auto
qed

lemma print_hex_sent:
  assumes "uart_live b"
  shows "\<exists>b'. print_hex v b = Some b' \<and> sent b (lit ''0x'' @ hex_digits 8 v) b'"
proof -
  have "0 \<notin> set (lit ''0x'')" by (simp add: lit_def)
  from serial_write_string_sent [OF assms str_at_lit [OF this]] obtain b1 where
    b1: "serial_write_string (lit ''0x'' @ [0]) b = Some b1" "sent b (lit ''0x'') b1" by blast
  obtain b2 where b2: "puts serial_write_char (hex_digits 8 v) b1 = Some b2" "sent b1 (hex_digits 8 v) b2"
    using puts_serial_sent sent_live [OF b1(2) assms] by blast
  have "serial_hex_fill 8 v (replicate 8 0) = Some (overwrite (replicate 8 0) 0 (hex_digits 8 v))"
    by (rule serial_hex_fill_digits) simp
  also have "overwrite (replicate 8 0) 0 (hex_digits 8 v) = hex_digits 8 v" by (simp add: overwrite_def)
  finally show ?thesis using b1 b2 sent_trans [OF b1(2)] by (auto simp: print_hex_def)
qed

section \<open>Output steps of the kernel\<close>

text \<open>A step that prints \<open>es\<close> on the console, sends \<open>ss\<close> on the serial port and does nothing else.\<close>

definition outputs :: "(kernel \<Rightarrow> kernel option) \<Rightarrow> byte list \<Rightarrow> byte list \<Rightarrow> bool" where
  "outputs f es ss \<longleftrightarrow> (\<forall>k. kernel_ok k \<longrightarrow>
     (\<exists>t b. puts terminal_putchar es (k_term k) = Some t \<and> sent (k_bus k) ss b \<and>
        f k = Some (k\<lparr>k_term := t, k_bus := b\<rparr>) \<and> kernel_ok (k\<lparr>k_term := t, k_bus := b\<rparr>)))"

named_theorems outs \<comment> \<open>what the output steps print and send\<close>

lemma outputs_bus:
  assumes "\<And>b. uart_live b \<Longrightarrow> \<exists>b'. f b = Some b' \<and> sent b ss b'"
  shows "outputs (on_bus f) [] ss"
  unfolding outputs_def
proof (intro allI impI)
  fix k :: kernel assume k: "kernel_ok k"
  then have u: "uart_live (k_bus k)" by (simp add: kernel_ok_def)
  from assms [OF this] obtain b where b: "f (k_bus k) = Some b" "sent (k_bus k) ss b" by blast
  then have "kernel_ok (k\<lparr>k_bus := b\<rparr>)" using k sent_live [OF b(2) u] by (rule_tac kernel_ok_bus)
  then show "\<exists>t b. puts terminal_putchar [] (k_term k) = Some t \<and> sent (k_bus k) ss b \<and>
      on_bus f k = Some (k\<lparr>k_term := t, k_bus := b\<rparr>) \<and> kernel_ok (k\<lparr>k_term := t, k_bus := b\<rparr>)"
    using b by (intro exI [of _ "k_term k"] exI [of _ b]) (simp add: on_bus_def)
qed

lemma outputs_emits [outs]: "outputs (emits cs) cs []"
  unfolding outputs_def
proof (intro allI impI)
  fix k :: kernel assume k: "kernel_ok k"
  then obtain t where t: "puts terminal_putchar cs (k_term k) = Some t" "term_ok t"
    using vga.puts_ok by (auto simp: kernel_ok_def)
  then have "kernel_ok (k\<lparr>k_term := t\<rparr>)" using k by (intro kernel_ok_term)
  then show "\<exists>t b. puts terminal_putchar cs (k_term k) = Some t \<and> sent (k_bus k) [] b \<and>
      emits cs k = Some (k\<lparr>k_term := t, k_bus := b\<rparr>) \<and> kernel_ok (k\<lparr>k_term := t, k_bus := b\<rparr>)"
    using t by (intro exI [of _ t] exI [of _ "k_bus k"]) (simp add: emits_def on_term_def sent_def)
qed

lemma outputs_bind [outs]:
  assumes "outputs f es ss" "outputs g es' ss'"
  shows "outputs (\<lambda>k. do { k \<leftarrow> f k; g k }) (es @ es') (ss @ ss')"
  unfolding outputs_def
proof (intro allI impI)
  fix k :: kernel assume k: "kernel_ok k"
  obtain t b where 1: "puts terminal_putchar es (k_term k) = Some t" "sent (k_bus k) ss b"
    "f k = Some (k\<lparr>k_term := t, k_bus := b\<rparr>)" "kernel_ok (k\<lparr>k_term := t, k_bus := b\<rparr>)"
    using assms(1) k unfolding outputs_def by blast
  obtain t' b' where 2: "puts terminal_putchar es' t = Some t'" "sent b ss' b'"
    "g (k\<lparr>k_term := t, k_bus := b\<rparr>) = Some (k\<lparr>k_term := t', k_bus := b'\<rparr>)" "kernel_ok (k\<lparr>k_term := t', k_bus := b'\<rparr>)"
    using assms(2) 1(4) unfolding outputs_def by (elim allE [of _ "k\<lparr>k_term := t, k_bus := b\<rparr>"]) auto
  show "\<exists>t b. puts terminal_putchar (es @ es') (k_term k) = Some t \<and> sent (k_bus k) (ss @ ss') b \<and>
      do { k \<leftarrow> f k; g k } = Some (k\<lparr>k_term := t, k_bus := b\<rparr>) \<and> kernel_ok (k\<lparr>k_term := t, k_bus := b\<rparr>)"
    using 1 2 sent_trans [OF 1(2) 2(2)] by (intro exI [of _ t'] exI [of _ b']) (simp add: puts_append)
qed

lemma outputs_prints [outs]: "CHR 0x00 \<notin> set s \<Longrightarrow> outputs (prints s) (lit s) []"
  using outputs_emits prints_lit by metis

lemma outputs_serial_puts [outs]: "CHR 0x00 \<notin> set s \<Longrightarrow> outputs (serial_puts s) [] (lit s)"
proof -
  assume "CHR 0x00 \<notin> set s"
  then have "serial_puts s = on_bus (serial_write_string (lit s @ [0]))" "0 \<notin> set (lit s)"
    by (simp_all add: serial_puts_def lit_nonzero fun_eq_iff)
  then show ?thesis using serial_write_string_sent [OF _ str_at_lit] by (metis outputs_bus)
qed

lemma outputs_print_hex [outs]: "outputs (on_bus (print_hex v)) [] (lit ''0x'' @ hex_digits 8 v)"
  by (rule outputs_bus [OF print_hex_sent])

lemma print_hex_term_emits: "print_hex_term v = emits (lit ''0x'' @ hex_digits 8 v)"
proof
  fix k
  obtain b where b: "print_hex_buf (replicate 11 0) v = Some b" "str_at b 0 (48 # 120 # hex_digits 8 v)"
    using print_hex_buf_str [of "replicate 11 0" v] by auto
  have "on_term (terminal_writestring b 0) k = emits (48 # 120 # hex_digits 8 v) k"
    by (rule writestring_emits [OF b(2)])
  then show "print_hex_term v k = emits (lit ''0x'' @ hex_digits 8 v) k"
    using b(1) by (simp add: print_hex_term_def terminal_print_hex_def lit_def on_term_def)
qed

lemma outputs_print_hex_term [outs]: "outputs (print_hex_term v) (lit ''0x'' @ hex_digits 8 v) []"
  unfolding print_hex_term_emits by (rule outputs_emits)

section \<open>Peek and poke\<close>

definition hex_text :: "u32 \<Rightarrow> byte list" where
  "hex_text v = lit ''0x'' @ hex_digits 8 v"

definition peek_report :: "byte \<Rightarrow> byte list" where
  "peek_report v = lit ''Value found : '' @ hex_text (ucast v) @ [10]"

lemma mmu_debug_peek_mapped:
  assumes ok: "kernel_ok k" and f: "translate (k_mm k) a = Some f" and v: "load_byte a (k_mm k) = Some v"
  shows "\<exists>t b. mmu_debug_peek a k = Some (Running (k\<lparr>k_term := t, k_bus := b\<rparr>)) \<and>
     kernel_ok (k\<lparr>k_term := t, k_bus := b\<rparr>) \<and> puts terminal_putchar (peek_report v) (k_term k) = Some t"
proof -
  let ?nl = "[CHR 0x0D, CHR 0x0A]"
  let ?p = "\<lambda>k. do { k \<leftarrow> serial_puts (?nl @ ''[DEBUG] Peeking at '') k; k \<leftarrow> on_bus (print_hex a) k; serial_puts (''...'' @ ?nl) k }"
  let ?q = "\<lambda>k. do { k \<leftarrow> prints ''Value found : '' k; k \<leftarrow> print_hex_term (ucast v) k; k \<leftarrow> prints [CHR 0x0A] k;
       k \<leftarrow> serial_puts ''Value found: '' k; k \<leftarrow> on_bus (print_hex (ucast v)) k; serial_puts ?nl k }"
  have p: "outputs ?p ([] @ [] @ []) (lit (?nl @ ''[DEBUG] Peeking at '') @ (lit ''0x'' @ hex_digits 8 a) @ lit (''...'' @ ?nl))"
    by (intro outs) simp_all
  have q: "outputs ?q (lit ''Value found : '' @ (lit ''0x'' @ hex_digits 8 (ucast v)) @ lit [CHR 0x0A] @ [] @ [] @ [])
     ([] @ [] @ [] @ lit ''Value found: '' @ (lit ''0x'' @ hex_digits 8 (ucast v)) @ lit ?nl)"
    by (intro outs) simp_all
  obtain t1 b1 where 1: "?p k = Some (k\<lparr>k_term := t1, k_bus := b1\<rparr>)" "kernel_ok (k\<lparr>k_term := t1, k_bus := b1\<rparr>)" "t1 = k_term k"
    using p ok unfolding outputs_def by (elim allE [of _ k]) auto
  obtain t2 b2 where 2: "?q (k\<lparr>k_term := t1, k_bus := b1\<rparr>) = Some (k\<lparr>k_term := t2, k_bus := b2\<rparr>)"
    "kernel_ok (k\<lparr>k_term := t2, k_bus := b2\<rparr>)"
    "puts terminal_putchar (lit ''Value found : '' @ (lit ''0x'' @ hex_digits 8 (ucast v)) @ lit [CHR 0x0A] @ [] @ [] @ []) t1 = Some t2"
    using q 1(2) unfolding outputs_def by (elim allE [of _ "k\<lparr>k_term := t1, k_bus := b1\<rparr>"]) auto
  have m: "translate (k_mm (k\<lparr>k_term := t1, k_bus := b1\<rparr>)) a = Some f"
    "load_byte a (k_mm (k\<lparr>k_term := t1, k_bus := b1\<rparr>)) = Some v" using f v by simp_all
  from 1(1) obtain ka kb where "serial_puts (?nl @ ''[DEBUG] Peeking at '') k = Some ka"
    "on_bus (print_hex a) ka = Some kb" "serial_puts (''...'' @ ?nl) kb = Some (k\<lparr>k_term := t1, k_bus := b1\<rparr>)"
    by (auto simp: bind_eq_Some_conv)
  moreover from 2(1) have "do { k \<leftarrow> prints ''Value found : '' (k\<lparr>k_term := t1, k_bus := b1\<rparr>);
       k \<leftarrow> print_hex_term (ucast v) k; k \<leftarrow> prints [CHR 0x0A] k; k \<leftarrow> serial_puts ''Value found: '' k;
       k \<leftarrow> on_bus (print_hex (ucast v)) k; runs (serial_puts ?nl k) } = Some (Running (k\<lparr>k_term := t2, k_bus := b2\<rparr>))"
    by (auto simp: bind_eq_Some_conv runs_def)
  ultimately have "mmu_debug_peek a k = Some (Running (k\<lparr>k_term := t2, k_bus := b2\<rparr>))"
    using m unfolding mmu_debug_peek_def Let_def by (simp add: touch_def cont_def del: prints_lit)
  then show ?thesis using 1 2
    by (intro exI [of _ t2] exI [of _ b2]) (simp add: peek_report_def hex_text_def)
qed

text \<open>A poke of a mapped data byte stores it, and only it.\<close>

lemma mmu_debug_poke_mapped:
  assumes ok: "kernel_ok k" and f: "translate (k_mm k) a = Some f" and m: "store_byte a v (k_mm k) = Some m" "mm_ok m"
  shows "\<exists>t b. mmu_debug_poke a v k = Some (Running (set_mm m (k\<lparr>k_term := t, k_bus := b\<rparr>))) \<and>
     kernel_ok (set_mm m (k\<lparr>k_term := t, k_bus := b\<rparr>))"
proof -
  let ?nl = "[CHR 0x0D, CHR 0x0A]" and ?k = "set_mm m k"
  let ?q = "\<lambda>k. do { k \<leftarrow> prints ''Wrote '' k; k \<leftarrow> print_hex_term (ucast v) k; k \<leftarrow> prints '' at '' k;
       k \<leftarrow> print_hex_term a k; k \<leftarrow> prints [CHR 0x0A] k; k \<leftarrow> serial_puts (?nl @ ''[DEBUG] Poked '') k;
       k \<leftarrow> on_bus (print_hex (ucast v)) k; k \<leftarrow> serial_puts '' at '' k; k \<leftarrow> on_bus (print_hex a) k; serial_puts ?nl k }"
  have k: "kernel_ok ?k" using ok m(2) by (simp add: kernel_ok_def set_mm_def)
  have q: "\<exists>es ss. outputs ?q es ss" by (rule exI)+ ((rule outs | simp)+)
  then obtain t b where r: "?q ?k = Some (?k\<lparr>k_term := t, k_bus := b\<rparr>)" "kernel_ok (?k\<lparr>k_term := t, k_bus := b\<rparr>)"
    using k unfolding outputs_def by blast
  have e: "?k\<lparr>k_term := t, k_bus := b\<rparr> = set_mm m (k\<lparr>k_term := t, k_bus := b\<rparr>)" by (simp add: set_mm_def)
  from r(1) have "mmu_debug_poke a v k = Some (Running (?k\<lparr>k_term := t, k_bus := b\<rparr>))"
    using f m(1) unfolding mmu_debug_poke_def Let_def by (auto simp: bind_eq_Some_conv runs_def touch_def cont_def)
  then show ?thesis using r(2) e by metis
qed

section \<open>Properties\<close>



end
