(* ===== verification/Boot_Spec.thy ===== *)
theory Boot_Spec
  imports Boot Debug_Spec
begin

text \<open>
  The start-up: which physical pages are free after the memory map is read, and that \<open>kernel_main\<close>
  reaches its idle loop, with the heap, the handlers and the prompt in place, after enough timer interrupts.
\<close>

section \<open>The memory map\<close>

text \<open>The entries the walk visits.\<close>

inductive walks :: "physical \<Rightarrow> u32 \<Rightarrow> u32 \<Rightarrow> multiboot_memory_map list \<Rightarrow> bool" where
  map_end: "\<not> a < e \<Longrightarrow> walks mem e a []"
| map_entry: "a < e \<Longrightarrow> memory_map_at mem a = x \<Longrightarrow> walks mem e (a + mmap_size x + 4) xs \<Longrightarrow> walks mem e a (x # xs)"

inductive_simps walks_simps: "walks mem e a []" "walks mem e a (x # xs)"

definition zone_end :: "multiboot_memory_map \<Rightarrow> u32" where
  "zone_end x = base_addr_low x + length_low x"

definition max_ram :: "multiboot_memory_map list \<Rightarrow> u32 \<Rightarrow> u32" where
  "max_ram xs m = foldl (\<lambda>m x. max m (zone_end x)) m xs"

lemma max_ram_walk: "walks mem e a xs \<Longrightarrow> max_ram_loop mem e a m = Some (max_ram xs m)"
proof (induction arbitrary: m rule: walks.induct)
  case (map_end a e mem)
  then show ?case by (subst max_ram_loop.simps) (simp add: max_ram_def)
next
  case (map_entry a e mem x xs)
  have "max_ram (x # xs) m = max_ram xs (if zone_end x > m then zone_end x else m)"
  proof -
    have "max m (zone_end x) = (if zone_end x > m then zone_end x else m)" by (auto simp: max_def)
    then show ?thesis by (simp add: max_ram_def)
  qed
  then show ?case using map_entry by (subst max_ram_loop.simps) (simp add: Let_def zone_end_def)
qed

definition available :: "multiboot_memory_map \<Rightarrow> bool" where
  "available x \<longleftrightarrow> mmap_type x = MULTIBOOT_MEMORY_AVAILABLE"

definition available_pages :: "multiboot_memory_map list \<Rightarrow> nat set" where
  "available_pages xs = (\<Union>x \<in> set (filter available xs). region_pages (base_addr_low x) (length_low x))"

text \<open>
  The pages that lie in an available zone with every byte, by the 64-bit base and length of the entry. They are the ones
  the walk frees if each zone starts at a page boundary and has zeros in the upper halves; it frees a page of which
  a zone holds the end only as well.
\<close>

definition zone_base :: "multiboot_memory_map \<Rightarrow> nat" where
  "zone_base x = unat (base_addr_high x) * 2 ^ 32 + unat (base_addr_low x)"

definition zone_size :: "multiboot_memory_map \<Rightarrow> nat" where
  "zone_size x = unat (length_high x) * 2 ^ 32 + unat (length_low x)"

definition whole_pages :: "multiboot_memory_map list \<Rightarrow> nat set" where
  "whole_pages xs = {p. \<exists>x \<in> set xs. available x \<and> zone_base x \<le> p * 4096 \<and> p * 4096 + 4096 \<le> zone_base x + zone_size x}"

definition aligned_zones :: "multiboot_memory_map list \<Rightarrow> bool" where
  "aligned_zones xs \<longleftrightarrow> (\<forall>x \<in> set xs. available x \<longrightarrow>
     base_addr_high x = 0 \<and> length_high x = 0 \<and> 4096 dvd unat (base_addr_low x))"

lemma aligned_available:
  assumes "aligned_zones xs"
  shows "available_pages xs = whole_pages xs"
proof -
  have page: "b div 4096 \<le> p \<and> p < e div 4096 \<longleftrightarrow> b \<le> p * 4096 \<and> p * 4096 + 4096 \<le> e" if "4096 dvd b" for b e p :: nat
  proof -
    from that obtain k where k: "b = 4096 * k" by (rule dvdE)
    have "p < e div 4096 \<longleftrightarrow> Suc p * 4096 \<le> e" using less_eq_div_iff_mult_less_eq [of 4096 "Suc p" e] by (simp add: Suc_le_eq)
    then show ?thesis by (simp add: k add.commute)
  qed
  have "p \<in> region_pages (base_addr_low x) (length_low x) \<longleftrightarrow>
      zone_base x \<le> p * 4096 \<and> p * 4096 + 4096 \<le> zone_base x + zone_size x" if x: "x \<in> set xs" "available x" for x p
  proof -
    have z: "zone_base x = unat (base_addr_low x)" "zone_size x = unat (length_low x)" "4096 dvd unat (base_addr_low x)"
      using assms x by (auto simp: aligned_zones_def zone_base_def zone_size_def)
    show ?thesis unfolding z region_pages_def atLeastLessThan_iff by (rule page [OF z(3)])
  qed
  then show ?thesis unfolding available_pages_def whole_pages_def by auto
qed

lemma partial_page_freed:
  assumes "x \<in> set xs" "available x" "\<not> 4096 dvd unat (base_addr_low x)"
    and "unat (base_addr_low x) div 4096 < (unat (base_addr_low x) + unat (length_low x)) div 4096"
  shows "unat (base_addr_low x) div 4096 \<in> available_pages xs" "unat (base_addr_low x) div 4096 * 4096 < zone_base x"
proof -
  show "unat (base_addr_low x) div 4096 \<in> available_pages xs"
    using assms by (auto simp: available_pages_def region_pages_def)
  have "b div 4096 * 4096 < b" if "\<not> 4096 dvd b" for b :: nat
    using that div_mult_mod_eq [of b 4096] by (metis dvd_triv_right div_times_less_eq_dividend le_neq_implies_less)
  then show "unat (base_addr_low x) div 4096 * 4096 < zone_base x" using assms(3) by (simp add: zone_base_def trans_less_add2)
qed

text \<open>An entry that the frame allocator can mark: below 4 GB and within its bitmap.\<close>

definition fits_map :: "nat \<Rightarrow> multiboot_memory_map \<Rightarrow> bool" where
  "fits_map pages x \<longleftrightarrow> unat (base_addr_low x) + unat (length_low x) < 2 ^ 32 \<and>
     (unat (base_addr_low x) + unat (length_low x)) div 4096 \<le> pages"

lemma available_pages_Cons:
  "available_pages (x # xs) = (if available x then region_pages (base_addr_low x) (length_low x) else {}) \<union> available_pages xs"
  by (simp add: available_pages_def)

lemma mark_at:
  "pmm_mark_region_free b n p = Some p' \<Longrightarrow> bitmap_at p' = bitmap_at p"
  "pmm_mark_region_used b n p = Some p' \<Longrightarrow> bitmap_at p' = bitmap_at p"
  by (auto simp: pmm_mark_region_free_def pmm_mark_region_used_def bind_eq_Some_conv)

lemma free_zones_walk:
  "walks mem e a xs \<Longrightarrow> \<forall>x \<in> set xs. available x \<longrightarrow> fits_map (8 * length (bitmap p)) x \<Longrightarrow>
   \<exists>p'. free_zones_loop mem e a p = Some p' \<and> length (bitmap p') = length (bitmap p) \<and> bitmap_at p' = bitmap_at p \<and>
     free_pages p' = free_pages p \<union> available_pages xs"
proof (induction arbitrary: p rule: walks.induct)
  case (map_end a e mem)
  then show ?case by (subst free_zones_loop.simps) (simp add: available_pages_def)
next
  case (map_entry a e mem x xs)
  obtain p1 where p1: "(if available x then pmm_mark_region_free (base_addr_low x) (length_low x) p else Some p) = Some p1"
    "length (bitmap p1) = length (bitmap p)" "bitmap_at p1 = bitmap_at p"
    "free_pages p1 = free_pages p \<union> (if available x then region_pages (base_addr_low x) (length_low x) else {})"
  proof (cases "available x")
    case True
    then have "fits_map (8 * length (bitmap p)) x" using map_entry.prems by simp
    then show ?thesis using mark_region(1) [of "base_addr_low x" "length_low x" p] True that mark_at(1)
      unfolding fits_map_def by (metis (full_types))
  qed (use that in simp)
  then obtain p' where p': "free_zones_loop mem e (a + mmap_size x + 4) p1 = Some p'"
    "length (bitmap p') = length (bitmap p1)" "bitmap_at p' = bitmap_at p1" "free_pages p' = free_pages p1 \<union> available_pages xs"
    using map_entry.IH [of p1] map_entry.prems by auto
  have "free_zones_loop mem e a p = Some p'" using map_entry.hyps p1(1) p'(1)
    by (subst free_zones_loop.simps) (simp add: Let_def available_def)
  then show ?case using p1 p' by (auto simp: available_pages_Cons)
qed

text \<open>What the kernel reserves: page 0, the pages of the boot stack, and the whole pages of the kernel and its bitmap.\<close>

definition reserved_pages :: "u32 \<Rightarrow> nat \<Rightarrow> nat set" where
  "reserved_pages kend bitmap_size = {0} \<union> {0x80..<0x90} \<union> {0x100..<(unat kend + bitmap_size) div 4096}"

definition bitmap_bytes :: "multiboot_memory_map list \<Rightarrow> nat" where
  "bitmap_bytes xs = unat (max_ram xs 0) div 4096 div 8"

definition good_map :: "u32 \<Rightarrow> multiboot_memory_map list \<Rightarrow> bool" where
  "good_map kend xs \<longleftrightarrow> (\<forall>x \<in> set xs. available x \<longrightarrow> fits_map (8 * bitmap_bytes xs) x) \<and>
     0x90 \<le> 8 * bitmap_bytes xs \<and> 0x100000 \<le> unat kend \<and> unat kend + bitmap_bytes xs < 2 ^ 32 \<and>
     (unat kend + bitmap_bytes xs) div 4096 \<le> 8 * bitmap_bytes xs"

lemma init_pmm_spec:
  assumes w: "walks mem (mmap_addr mb + mmap_length mb) (mmap_addr mb) xs" and g: "good_map kend xs"
  shows "\<exists>p. init_pmm kend mem mb = Some p \<and> pmm_ok p \<and> bitmap_at p = kend \<and> length (bitmap p) = bitmap_bytes xs \<and>
    free_pages p = available_pages xs - reserved_pages kend (bitmap_bytes xs)"
proof -
  let ?n = "bitmap_bytes xs" and ?max = "max_ram xs 0"
  let ?p0 = "pmm_init ?max kend"
  have len0: "length (bitmap ?p0) = ?n" by (simp add: pmm_init_def bitmap_bytes_def PAGE_SIZE_def Let_def)
  obtain p1 where p1: "free_zones_loop mem (mmap_addr mb + mmap_length mb) (mmap_addr mb) ?p0 = Some p1"
    "length (bitmap p1) = ?n" "bitmap_at p1 = bitmap_at ?p0" "free_pages p1 = available_pages xs"
    using free_zones_walk [OF w, of ?p0] g len0 pmm_init_ok(2) by (auto simp: good_map_def)
  let ?size = "(kend - 0x100000) + ?max div 4096 div 8"
  have bs: "unat (?max div 4096 div 8) = ?n" by (simp add: bitmap_bytes_def unat_div_distrib)
  have k: "unat (kend - 0x100000) = unat kend - 0x100000" "0x100000 \<le> unat kend" "unat kend + ?n < 2 ^ 32"
    using g by (simp_all add: good_map_def unat_sub word_le_nat_alt)
  have "unat (kend - 0x100000) + unat (?max div 4096 div 8) < 2 ^ LENGTH(32)" unfolding bs k(1) using k(2,3) by simp
  then have sz: "0x100000 + unat ?size = unat kend + ?n"
    using k unfolding unat_plus_simple [symmetric] by (simp add: unat_add_lem [THEN iffD1] bs)
  then have end1: "unat (0x100000 :: u32) + unat ?size < 2 ^ 32" "(unat (0x100000 :: u32) + unat ?size) div 4096 \<le> 8 * length (bitmap p1)"
    using g p1(2) by (simp_all add: good_map_def)
  have r1: "region_pages 0x100000 ?size = {0x100..<(unat kend + ?n) div 4096}" using sz by (simp add: region_pages_def)
  obtain p2 where p2: "pmm_mark_region_used 0x100000 ?size p1 = Some p2" "length (bitmap p2) = ?n"
    "free_pages p2 = free_pages p1 - {0x100..<(unat kend + ?n) div 4096}"
    using mark_region(2) [OF end1] p1(2) unfolding r1 by auto
  have n: "0x90 \<le> 8 * ?n" using g by (simp add: good_map_def)
  have "unat (0 :: u32) + unat (4096 :: u32) < 2 ^ 32" "(unat (0 :: u32) + unat (4096 :: u32)) div 4096 \<le> 8 * length (bitmap p2)"
    using n p2(2) by simp_all
  from mark_region(2) [OF this] p2(2) obtain p3 where p3: "pmm_mark_region_used 0 4096 p2 = Some p3" "length (bitmap p3) = ?n"
    "free_pages p3 = free_pages p2 - {0}" by (auto simp: region_pages_def lessThan_Suc atLeast0LessThan)
  have "unat (0x80000 :: u32) + unat (0x10000 :: u32) < 2 ^ 32"
    "(unat (0x80000 :: u32) + unat (0x10000 :: u32)) div 4096 \<le> 8 * length (bitmap p3)"
    using n p3(2) by simp_all
  from mark_region(2) [OF this] p3(2) obtain p4 where p4: "pmm_mark_region_used 0x80000 0x10000 p3 = Some p4" "length (bitmap p4) = ?n"
    "free_pages p4 = free_pages p3 - {0x80..<0x90}" by (auto simp: region_pages_def)
  have at: "bitmap_at p4 = kend"
    using mark_at(2) [OF p2(1)] mark_at(2) [OF p3(1)] mark_at(2) [OF p4(1)] p1(3) by (simp add: pmm_init_def Let_def)
  have "init_pmm kend mem mb = Some p4"
    using max_ram_walk [OF w, of 0] p1(1) p2(1) p3(1) p4(1) by (simp add: init_pmm_def Let_def)
  moreover have "pmm_ok p4" using pmm_init_ok(1) [of ?max kend] len0 p4(2) by (simp add: pmm_ok_def)
  ultimately show ?thesis using at p1(4) p2(3) p3(3) p4(2,3) by (auto simp: reserved_pages_def)
qed

section \<open>Steps that leave the serial port ready\<close>

definition live_step :: "(bus \<Rightarrow> bus option) \<Rightarrow> bool" where
  "live_step f \<longleftrightarrow> (\<forall>b. uart_live b \<longrightarrow> (\<exists>b'. f b = Some b' \<and> uart_live b'))"

named_theorems lives \<comment> \<open>bus operations that return and leave the transmitter live\<close>

lemma live_sent: "(\<And>b. uart_live b \<Longrightarrow> \<exists>b'. f b = Some b' \<and> sent b cs b') \<Longrightarrow> live_step f"
  unfolding live_step_def using sent_live by blast

lemma live_KINFO [lives]: "CHR 0x00 \<notin> set s \<Longrightarrow> live_step (KINFO s)"
  by (rule live_sent [OF KINFO_sent])

lemma live_write [lives]: "0 \<in> set s \<Longrightarrow> live_step (serial_write_string s)"
  using str_at_ex [of 0 s] serial_write_string_sent sent_live unfolding live_step_def by (metis drop_0)

lemma live_char [lives]: "live_step (serial_write_char c)"
  by (rule live_sent [OF serial_write_char_sent])

lemma live_hex [lives]: "live_step (print_hex v)"
  by (rule live_sent [OF print_hex_sent])

lemma live_bind [lives]: "live_step f \<Longrightarrow> live_step g \<Longrightarrow> live_step (\<lambda>b. do { b \<leftarrow> f b; g b })"
  unfolding live_step_def by fastforce

lemma live_Some [lives]: "live_step Some"
  by (simp add: live_step_def)

lemma live_if [lives]: "(c \<Longrightarrow> live_step f) \<Longrightarrow> (\<not> c \<Longrightarrow> live_step g) \<Longrightarrow> live_step (\<lambda>b. if c then f b else g b)"
  by (cases c) simp_all

lemma live_loop [lives]: "(\<And>i. i < n \<Longrightarrow> live_step (f i)) \<Longrightarrow> live_step (for_upto 0 n f)"
  unfolding live_step_def
proof (intro allI impI)
  fix b assume f: "\<And>i. i < n \<Longrightarrow> \<forall>b. uart_live b \<longrightarrow> (\<exists>b'. f i b = Some b' \<and> uart_live b')" and b: "uart_live b"
  show "\<exists>b'. for_upto 0 n f b = Some b' \<and> uart_live b'"
    by (rule for_upto_inv [where I = "\<lambda>_. uart_live"]) (use f b in auto)
qed

lemma live_port: "uart_live (port_out p v b) = uart_live b" "uart_live (snd (port_in p b)) = uart_live b"
  "uart_live (io_wait b) = uart_live b"
  by (simp_all add: uart_live_def port_out_def port_in_def io_wait_def)

lemma live_ports: "uart_live (port_outs ws b) = uart_live b"
  by (induction ws arbitrary: b) (simp_all add: live_port)

text \<open>The bitmap's dump.\<close>

lemma live_dump: "live_step (pmm_dump_bitmap n p)"
proof -
  let ?L = "length (bitmap p)"
  have byte: "live_step (\<lambda>b. do { byte \<leftarrow> rd (bitmap p) i;
       b \<leftarrow> for_upto 0 8 (\<lambda>j b. serial_write_char (if byte AND push_bit j 1 \<noteq> 0 then 35 else 46) b) b;
       serial_write_char 32 b })" if "i < min (unat n) ?L" for i
  proof -
    have "i < ?L" using that by simp
    then have "rd (bitmap p) i = Some (bitmap p ! i)" by simp
    moreover have "live_step (\<lambda>b. do {
       b \<leftarrow> for_upto 0 8 (\<lambda>j b. serial_write_char (if bitmap p ! i AND push_bit j 1 \<noteq> 0 then 35 else 46) b) b;
       serial_write_char 32 b })" by (intro lives)
    ultimately show ?thesis by simp
  qed
  show ?thesis unfolding pmm_dump_bitmap_def by (intro lives byte) simp_all
qed

section \<open>Steps that take time\<close>

definition kept_by_screen :: "kernel \<Rightarrow> kernel \<Rightarrow> bool" where
  "kept_by_screen k k' \<longleftrightarrow> k' = k\<lparr>k_term := k_term k', k_timer := k_timer k'\<rparr>"

definition steps :: "nat \<Rightarrow> (timed \<Rightarrow> timed option) \<Rightarrow> bool" where
  "steps n f \<longleftrightarrow> (\<forall>k irqs. kernel_ok k \<longrightarrow> frequency (k_timer k) = 1000 \<longrightarrow>
     (\<exists>k'. f (k, replicate n 0 @ irqs) = Some (k', irqs) \<and> kernel_ok k' \<and> frequency (k_timer k') = 1000 \<and>
        kept_by_screen k k'))"

text \<open>The step returns once a number of timer interrupts, the same for all kernels, has arrived.\<close>

definition returns :: "(timed \<Rightarrow> timed option) \<Rightarrow> bool" where
  "returns f \<longleftrightarrow> (\<exists>n. steps n f)"

named_theorems rets \<comment> \<open>steps of the start-up that return\<close>

lemma kept_by_screen_trans: "kept_by_screen k k1 \<Longrightarrow> kept_by_screen k1 k2 \<Longrightarrow> kept_by_screen k k2"
  unfolding kept_by_screen_def by (cases k; cases k1; cases k2) simp

lemma steps_bind:
  assumes f: "steps n f" and g: "steps m g"
  shows "steps (n + m) (\<lambda>s. do { s \<leftarrow> f s; g s })"
  unfolding steps_def
proof (intro allI impI)
  fix k :: kernel and irqs assume k: "kernel_ok k" "frequency (k_timer k) = 1000"
  obtain k1 where 1: "f (k, replicate n 0 @ replicate m 0 @ irqs) = Some (k1, replicate m 0 @ irqs)" "kernel_ok k1"
    "frequency (k_timer k1) = 1000" "kept_by_screen k k1" using f k unfolding steps_def by blast
  obtain k2 where "g (k1, replicate m 0 @ irqs) = Some (k2, irqs)" "kernel_ok k2"
    "frequency (k_timer k2) = 1000" "kept_by_screen k1 k2" using g 1(2,3) unfolding steps_def by blast
  then show "\<exists>k'. do { s \<leftarrow> f (k, replicate (n + m) 0 @ irqs); g s } = Some (k', irqs) \<and> kernel_ok k' \<and>
      frequency (k_timer k') = 1000 \<and> kept_by_screen k k'"
    using 1 kept_by_screen_trans by (auto simp: replicate_add)
qed

lemma returns_bind [rets]: "returns f \<Longrightarrow> returns g \<Longrightarrow> returns (\<lambda>s. do { s \<leftarrow> f s; g s })"
  unfolding returns_def using steps_bind by blast

lemma returns_Some [rets]: "returns Some"
  unfolding returns_def by (rule exI [of _ 0]) (simp add: steps_def kept_by_screen_def)

lemma returns_if [rets]: "(c \<Longrightarrow> returns f) \<Longrightarrow> (\<not> c \<Longrightarrow> returns g) \<Longrightarrow> returns (\<lambda>s. if c then f s else g s)"
  by (cases c) simp_all

lemma returns_loop [rets]: "(\<And>i. a \<le> i \<Longrightarrow> i < n \<Longrightarrow> returns (f i)) \<Longrightarrow> returns (for_upto a n f)"
proof (induction "n - a" arbitrary: a)
  case 0
  then have "for_upto a n f = Some" by (simp add: fun_eq_iff)
  then show ?case by (simp add: returns_Some)
next
  case (Suc d)
  then have a: "a < n" by simp
  then have "for_upto a n f = (\<lambda>s. do { s \<leftarrow> f a s; for_upto (Suc a) n f s })" by (simp add: for_upto_step fun_eq_iff)
  moreover have "returns (for_upto (Suc a) n f)" using Suc by (intro Suc.hyps) simp_all
  ultimately show ?case using returns_bind [OF Suc.prems, of a] a by simp
qed

lemma returns_screen:
  assumes "\<And>k. kernel_ok k \<Longrightarrow> \<exists>k'. f k = Some k' \<and> kernel_ok k' \<and> same_but_term k k'"
  shows "returns (on_kernel f)"
  unfolding returns_def steps_def
proof (intro exI [of _ 0] allI impI)
  fix k :: kernel and irqs assume k: "kernel_ok k" "frequency (k_timer k) = 1000"
  obtain k' where k': "f k = Some k'" "kernel_ok k'" "same_but_term k k'" using assms k(1) by blast
  then obtain t where t: "k' = k\<lparr>k_term := t\<rparr>" by (auto simp: same_but_term_def)
  have "kept_by_screen k k'" unfolding kept_by_screen_def t by simp
  then show "\<exists>k'. on_kernel f (k, replicate 0 0 @ irqs) = Some (k', irqs) \<and> kernel_ok k' \<and> frequency (k_timer k') = 1000 \<and> kept_by_screen k k'"
    using k' k(2) t by (simp add: on_kernel_def)
qed

lemma sleep_whole:
  assumes "frequency t = 1000" "unat ms < 4294967"
  shows "sleep ms (replicate (unat ms) 0 @ irqs) t = Some (t\<lparr>tick := tick t + ms\<rparr>, irqs)"
proof -
  have "unat (1000 * ms) = 1000 * unat ms" using assms(2) by (simp add: unat_word_ariths)
  then have w: "unat (frequency t * ms div 1000) = unat ms" using assms(1) by (simp add: unat_div_distrib)
  have "timer_irqs (replicate (unat ms) 0) = unat ms" by (simp add: timer_irqs_def)
  then have "sleep_loop (tick t) (frequency t * ms div 1000) (replicate (unat ms) 0 @ irqs) t =
      Some (t\<lparr>tick := tick t + of_nat (unat ms)\<rparr>, irqs)"
    using w by (intro sleep_loop_spec) (cases "unat ms"; simp)+
  then show ?thesis by (simp add: sleep_def)
qed

lemma returns_nap [rets]: "unat ms < 4294967 \<Longrightarrow> returns (nap ms)"
  unfolding returns_def steps_def
proof (intro exI [of _ "unat ms"] allI impI)
  fix k :: kernel and irqs assume "unat ms < 4294967" "kernel_ok k" "frequency (k_timer k) = 1000"
  then show "\<exists>k'. nap ms (k, replicate (unat ms) 0 @ irqs) = Some (k', irqs) \<and> kernel_ok k' \<and>
      frequency (k_timer k') = 1000 \<and> kept_by_screen k k'"
    using sleep_whole [of "k_timer k" ms irqs] by (simp add: nap_def kernel_ok_def kept_by_screen_def)
qed

section \<open>The logo\<close>

lemma prints_returns [rets]: "CHR 0x00 \<notin> set s \<Longrightarrow> returns (on_kernel (prints s))"
  using returns_screen prints_ok lit_nonzero by metis

lemma putc_returns [rets]: "returns (on_kernel (putc c))"
  by (rule returns_screen) (rule putc_ok)

lemma clear_ok: "term_ok t \<Longrightarrow> \<exists>t'. terminal_clear t = Some t' \<and> term_ok t'"
  by (simp add: term_ok_def terminal_clear_eq)

lemma clear_returns [rets]: "returns (on_kernel (on_term terminal_clear))"
  by (rule returns_screen) (rule on_term_ok [OF _ clear_ok])

lemma title_returns [rets]: "i < length target_text \<Longrightarrow> returns (on_kernel (title_char frame i))"
  by (rule returns_screen) (simp add: title_char_def Let_def putc_ok)

lemma set_cursor_ansi_ok:
  assumes k: "kernel_ok k" and x: "0 \<le> x" "x < 1000" and y: "0 \<le> y" "y < 1000"
  shows "\<exists>k'. set_cursor_ansi x y k = Some k' \<and> kernel_ok k' \<and> same_but_term k k'"
proof -
  have range: "INT_MIN < n" "n \<le> INT_MAX" "length (dec_string n) < 16" if "0 \<le> n" "n < 1000" for n
    using that length_dec_string [of n] by (simp_all add: INT_MIN_def INT_MAX_def)
  obtain b1 where b1: "itoa y (replicate 16 0) = Some b1" "str_at b1 0 (dec_string y)" "length b1 = 16"
    using itoa_dec_string [OF range(1,2) [OF y], of "replicate 16 0"] range(3) [OF y] by auto
  obtain b2 where b2: "itoa x b1 = Some b2" "str_at b2 0 (dec_string x)"
    using itoa_dec_string [OF range(1,2) [OF x], of b1] range(3) [OF x] b1(3) by auto
  have "set_cursor_ansi x y = emits (lit ANSI_CSI @ dec_string y @ lit '';'' @ dec_string x @ lit ''H'')"
    using b1 b2 by (simp add: set_cursor_ansi_def prints_lit ANSI_CSI_def writestring_emits emits_append [symmetric] fun_eq_iff)
  then show ?thesis using emits_ok [OF k] by simp
qed

lemma set_cursor_returns [rets]: "0 \<le> x \<Longrightarrow> x < 1000 \<Longrightarrow> 0 \<le> y \<Longrightarrow> y < 1000 \<Longrightarrow> returns (on_kernel (set_cursor_ansi x y))"
  by (rule returns_screen) (rule set_cursor_ansi_ok)

lemma fall_returns [rets]: "x < 1000 \<Longrightarrow> y < 1000 \<Longrightarrow> returns (fall x y c)"
  unfolding fall_def by (intro rets) simp_all

lemma logo_returns [rets]: "returns animate_logo"
proof -
  have letter: "returns (\<lambda>s. let row = 8 - r in if col < length (logo ! row) \<and> logo ! row ! col \<noteq> CHR '' ''
      then fall (col + 1) (6 + row) (logo ! row ! col) s else Some s)" if "col < 48" for r col
    unfolding Let_def by (intro rets) (use that in simp_all)
  show ?thesis unfolding animate_logo_def
    by (intro rets letter) (simp_all add: COLOR_CYAN_BRIGHT_def COLOR_WHITE_BRIGHT_def BG_COLOR_BLUE_def COLOR_RESET_def sgr_def target_text_def)
qed

section \<open>The phases of the start-up\<close>

lemma boot_screen_returns:
  "\<exists>N. \<forall>k irqs. kernel_ok k \<longrightarrow> frequency (k_timer k) = 1000 \<longrightarrow> 32 \<le> card (free_pages (phys (k_mm k))) \<longrightarrow>
     0 \<notin> free_pages (phys (k_mm k)) \<longrightarrow>
     (\<exists>k'. boot_screen (k, replicate N 0 @ irqs) = Some (k', irqs) \<and> kernel_ok k' \<and> frequency (k_timer k') = 1000 \<and>
        k' = k\<lparr>k_term := k_term k', k_timer := k_timer k', k_heap := k_heap k'\<rparr> \<and>
        heap_rep (k_heap k') [(HEAP_VIRT_START, 65520, True)] \<and> shrinks (phys (k_mm k)) (phys (k_mm k')))"
proof -
  let ?f = "\<lambda>s. do {
     s \<leftarrow> on_kernel (prints (''AuriOS Kernel v0.2.2'' @ nl)) s;
     s \<leftarrow> nap 100 s;
     s \<leftarrow> on_kernel (prints (''GDT initialized successfully'' @ nl)) s;
     s \<leftarrow> nap 50 s;
     s \<leftarrow> on_kernel (prints (''PIC remapped'' @ nl)) s;
     s \<leftarrow> nap 30 s;
     s \<leftarrow> on_kernel (prints (''IDT initialized with ISR handlers'' @ nl)) s;
     nap 60 s }"
  let ?g = "\<lambda>s. do {
     s \<leftarrow> on_kernel (prints (''Memory initialized'' @ nl)) s;
     s \<leftarrow> nap 120 s;
     s \<leftarrow> on_kernel (prints (''System ready.'' @ nl @ nl)) s;
     s \<leftarrow> nap 1000 s;
     s \<leftarrow> on_kernel (on_term terminal_clear) s;
     s \<leftarrow> animate_logo s;
     nap 2000 s }"
  have "returns ?f" by (intro rets) simp_all
  then obtain n where n: "steps n ?f" by (auto simp: returns_def)
  have "returns ?g" by (intro rets) simp_all
  then obtain m where m: "steps m ?g" by (auto simp: returns_def)
  show ?thesis
  proof (intro exI [of _ "n + m"] allI impI)
    fix k :: kernel and irqs
    assume k: "kernel_ok k" "frequency (k_timer k) = 1000" "32 \<le> card (free_pages (phys (k_mm k)))"
      "0 \<notin> free_pages (phys (k_mm k))"
    obtain k1 where 1: "?f (k, replicate n 0 @ replicate m 0 @ irqs) = Some (k1, replicate m 0 @ irqs)" "kernel_ok k1"
      "frequency (k_timer k1) = 1000" "kept_by_screen k k1" using n k(1,2) unfolding steps_def by blast
    have hk: "k_heap k1 = k_heap k" using 1(4) unfolding kept_by_screen_def by (metis kernel.select_convs(8) kernel.surjective kernel.update_convs(1,7))
    obtain h where h: "memory_init (k_heap k1) = Some h" "heap_rep h [(HEAP_VIRT_START, 65520, True)]"
      using memory_init_rep [of "k_heap k1"] 1(2) k(3,4) hk by (auto simp: kernel_ok_def)
    let ?k2 = "k1\<lparr>k_heap := h\<rparr>"
    have k2: "kernel_ok ?k2" "frequency (k_timer ?k2) = 1000" using 1(2,3) h(2) by (simp_all add: kernel_ok_def heap_rep_def)
    obtain k3 where 3: "?g (?k2, replicate m 0 @ irqs) = Some (k3, irqs)" "kernel_ok k3"
      "frequency (k_timer k3) = 1000" "kept_by_screen ?k2 k3" using m k2 unfolding steps_def by blast
    have "boot_screen (k, replicate (n + m) 0 @ irqs) = Some (k3, irqs)"
      using 1(1) h(1) 3(1) unfolding boot_screen_def by (auto simp: replicate_add bind_eq_Some_conv on_kernel_def)
    moreover have "k3 = k\<lparr>k_term := k_term k3, k_timer := k_timer k3, k_heap := k_heap k3\<rparr> \<and> k_heap k3 = h"
      using 1(4) 3(4) unfolding kept_by_screen_def by (cases k; cases k1; cases k3) auto
    ultimately show "\<exists>k'. boot_screen (k, replicate (n + m) 0 @ irqs) = Some (k', irqs) \<and> kernel_ok k' \<and>
        frequency (k_timer k') = 1000 \<and> k' = k\<lparr>k_term := k_term k', k_timer := k_timer k', k_heap := k_heap k'\<rparr> \<and>
        heap_rep (k_heap k') [(HEAP_VIRT_START, 65520, True)] \<and> shrinks (phys (k_mm k)) (phys (k_mm k'))"
      using 3(2,3) h(2) memory_init_shrinks [OF h(1)] hk by auto
  qed
qed

text \<open>The state the loader puts in memory: zeros, the initial names, and hardware that takes characters.\<close>

definition loaded :: "kernel \<Rightarrow> bool" where
  "loaded k \<longleftrightarrow> length (terminal_buffer (k_term k)) = 2000 \<and> parser_ok (current_state (k_term k)) \<and>
     history_ok (k_hist k) \<and> is_line (k_buffer k) \<and> k_pos k = 0 \<and> is_name (k_user k) \<and> is_name (k_os k) \<and>
     uart_live (k_bus k)"

lemma pic_remap_live: "live_step pic_remap"
  unfolding live_step_def
proof (intro allI impI)
  fix b assume b: "uart_live b"
  have "\<exists>b1. pic_remap b = KINFO ''[PIC] IRQs remapped to 32-47'' b1 \<and> uart_live b1"
    unfolding pic_remap_def Let_def by (rule exI, rule conjI, rule refl) (simp add: live_port b)
  then show "\<exists>b'. pic_remap b = Some b' \<and> uart_live b'"
    using live_KINFO [of "''[PIC] IRQs remapped to 32-47''"] by (auto simp: live_step_def)
qed

lemma timer_init_live:
  assumes "uart_live b"
  shows "\<exists>b'. timer_init 1000 t b = Some (t\<lparr>frequency := 1000\<rparr>, b') \<and> uart_live b'"
proof -
  let ?b = "port_out 0x40 (ucast (drop_bit 8 (1193180 div 1000 :: u32) AND 0xFF)) (port_out 0x40 (ucast ((1193180 div 1000 :: u32) AND 0xFF)) (port_out 0x43 0x36 b))"
  have "uart_live (port_out 0x21 (fst (port_in 0x21 ?b) AND NOT 1) (snd (port_in 0x21 ?b)))"
    using assms by (simp only: live_port)
  then obtain b' where "KINFO ''[PIT] Programmable Interval Timer configured''
      (port_out 0x21 (fst (port_in 0x21 ?b) AND NOT 1) (snd (port_in 0x21 ?b))) = Some b'" "uart_live b'"
    using live_KINFO [of "''[PIT] Programmable Interval Timer configured''"] unfolding live_step_def by auto
  then show ?thesis by (simp add: timer_init_def Let_def port_in_def)
qed

lemma terminal_initialize_ok:
  assumes "length (terminal_buffer t) = 2000" "parser_ok (current_state t)"
  shows "\<exists>t'. terminal_initialize in1 in2 t = Some t' \<and> term_ok t'"
proof -
  let ?t1 = "t\<lparr>terminal_row := 0, terminal_column := 0, terminal_color := vga_entry_color VGA_COLOR_LIGHT_GREY VGA_COLOR_BLACK\<rparr>"
  have "length (terminal_buffer ?t1) = 2000" using assms(1) by simp
  from fill_screen [OF this] show ?thesis using assms(2)
    by (simp add: terminal_initialize_def term_ok_def terminal_update_cursor_eq terminal_enable_cursor_def outb_def Let_def)
qed

lemma gdt_init_live:
  assumes "uart_live b"
  shows "\<exists>g b'. gdt_init ga ta b = Some (g, b') \<and> uart_live b' \<and> length (gdt g) = 6"
  using live_KINFO [of "''[GDT] Initialized succesfully''"] assms unfolding live_step_def gdt_init_def
  by fastforce

lemma boot_devices_spec:
  assumes k: "loaded (m_kernel m)" and h: "length (irq_handlers m) = 16"
  shows "\<exists>m'. boot_devices ld m = Some m' \<and> irq_handlers m' = (irq_handlers m)[0 := Some Timer_Callback] \<and>
    m_keyboard m' = m_keyboard m \<and> loaded (m_kernel m') \<and> term_ok (k_term (m_kernel m')) \<and>
    frequency (k_timer (m_kernel m')) = 1000 \<and>
    (\<forall>i < 256. idt (m_idt m') ! i = (if i < 32 then gate (isr_stubs ld i) 0x08 0x8E
       else if i < 48 then gate (irq_stubs ld (i - 32)) 0x08 0x8E else gate 0 0 0)) \<and>
    k_heap (m_kernel m') = k_heap (m_kernel m) \<and> k_user (m_kernel m') = k_user (m_kernel m) \<and>
    k_os (m_kernel m') = k_os (m_kernel m) \<and> k_hist (m_kernel m') = k_hist (m_kernel m)"
proof -
  let ?k = "m_kernel m"
  have u: "uart_live (k_bus ?k)" using k by (simp add: loaded_def)
  obtain b1 where b1: "KINFO ''[KRN] Starting AuriOS boot sequence...'' (k_bus ?k) = Some b1" "uart_live b1"
    using live_KINFO [of "''[KRN] Starting AuriOS boot sequence...''"] u unfolding live_step_def by auto
  obtain g b2 where b2: "gdt_init (gdt_addr ld) (tss_addr ld) b1 = Some (g, b2)" "uart_live b2"
    using gdt_init_live [OF b1(2)] by blast
  obtain b3 where b3: "pic_remap b2 = Some b3" "uart_live b3" using pic_remap_live b2(2) unfolding live_step_def by blast
  obtain i b4 where b4: "idt_init (isr_stubs ld) (irq_stubs ld) (idt_addr ld) b3 = Some (i, b4)" "uart_live b4"
    "\<forall>n < 256. idt i ! n = (if n < 32 then gate (isr_stubs ld n) 0x08 0x8E
       else if n < 48 then gate (irq_stubs ld (n - 32)) 0x08 0x8E else gate 0 0 0)"
    using idt_init_spec [OF b3(2)] by blast
  obtain in1 b5 where b5: "port_in 0x3D5 b4 = (in1, b5)" by (cases "port_in 0x3D5 b4")
  obtain in2 b6 where b6: "port_in 0x3D5 b5 = (in2, b6)" by (cases "port_in 0x3D5 b5")
  have u6: "uart_live b6" using port_in_bus [OF b6 port_in_bus [OF b5 b4(2)]] .
  obtain t where t: "terminal_initialize in1 in2 (k_term ?k) = Some t" "term_ok t"
    using terminal_initialize_ok k unfolding loaded_def by blast
  obtain b7 where b7: "timer_init 1000 (k_timer ?k) b6 = Some ((k_timer ?k)\<lparr>frequency := 1000\<rparr>, b7)" "uart_live b7"
    using timer_init_live [OF u6] by blast
  let ?m = "m\<lparr>irq_handlers := (irq_handlers m)[0 := Some Timer_Callback],
     m_kernel := ?k\<lparr>k_bus := b1\<rparr>\<lparr>k_term := t, k_timer := (k_timer ?k)\<lparr>frequency := 1000\<rparr>, k_bus := b7\<rparr>, m_gdt := g, m_idt := i\<rparr>"
  have r: "irq_register_handler 0 Timer_Callback m = Some (m\<lparr>irq_handlers := (irq_handlers m)[0 := Some Timer_Callback]\<rparr>)"
    using h by (simp add: irq_register_handler_def wri_def)
  have "boot_devices ld m = Some ?m"
    unfolding boot_devices_def using b1(1) b2(1) b3(1) b4(1) b5 b6 t(1) b7(1) r by (simp add: on_bus_def)
  moreover have "loaded (m_kernel ?m)" using k t(2) b7(2) by (simp add: loaded_def term_ok_def)
  ultimately show ?thesis using t(2) b4(3) by (intro exI [of _ ?m]) simp
qed

text \<open>Enough memory: the map the boot loader left has a page for each structure of the start-up.\<close>

definition enough_memory :: "linker \<Rightarrow> physical \<Rightarrow> multiboot_info \<Rightarrow> multiboot_memory_map list \<Rightarrow> bool" where
  "enough_memory ld mem mb xs \<longleftrightarrow> mb_flags mb AND push_bit 6 1 \<noteq> 0 \<and>
     walks mem (mmap_addr mb + mmap_length mb) (mmap_addr mb) xs \<and> good_map (kernel_end ld) xs \<and>
     34 \<le> card (available_pages xs - reserved_pages (kernel_end ld) (bitmap_bytes xs))"

text \<open>
  What is left to the frame allocator, and when no page of the kernel's own memory is among it; that memory must end where the
  identity mapping ends, at 4 MB.
\<close>

definition left_free :: "linker \<Rightarrow> multiboot_memory_map list \<Rightarrow> pmm \<Rightarrow> bool" where
  "left_free ld xs p \<longleftrightarrow> bitmap_at p = kernel_end ld \<and> length (bitmap p) = bitmap_bytes xs \<and>
     free_pages p \<subseteq> available_pages xs - reserved_pages (kernel_end ld) (bitmap_bytes xs)"

lemma left_free_shrinks: "shrinks p p' \<Longrightarrow> left_free ld xs p \<Longrightarrow> left_free ld xs p'"
  unfolding shrinks_def left_free_def by auto

definition own_memory_held :: "linker \<Rightarrow> multiboot_memory_map list \<Rightarrow> bool" where
  "own_memory_held ld xs \<longleftrightarrow> 0xB8 \<notin> available_pages xs \<and> unat (kernel_end ld) + bitmap_bytes xs \<le> 0x400000 \<and>
     (4096 dvd unat (kernel_end ld) + bitmap_bytes xs \<or>
      (unat (kernel_end ld) + bitmap_bytes xs) div 4096 \<notin> available_pages xs)"

lemma left_free_apart:
  assumes l: "left_free ld xs p" and o: "own_memory_held ld xs"
  shows "apart p"
proof -
  let ?e = "unat (kernel_end ld) + bitmap_bytes xs"
  have "q \<notin> own_pages p" if q: "q \<in> available_pages xs" "q \<notin> reserved_pages (kernel_end ld) (bitmap_bytes xs)" for q
  proof
    assume "q \<in> own_pages p"
    moreover have "q \<notin> {0x80..<0x90}" "q \<noteq> 0xB8" "q \<notin> {0x100..<?e div 4096}"
      using q o by (auto simp: reserved_pages_def own_memory_held_def)
    ultimately have "?e div 4096 \<le> q" "q < (?e + 4095) div 4096"
      using l by (auto simp: own_pages_def left_free_def)
    moreover have "q = e div 4096 \<and> e mod 4096 \<noteq> 0" if "e div 4096 \<le> q" "q < (e + 4095) div 4096" for e
    proof -
      have "q * 4096 < e" "e < Suc q * 4096"
        using that(1) less_eq_div_iff_mult_less_eq [of 4096 "Suc q" "e + 4095"] that(2) div_less_iff_less_mult [of 4096 e "Suc q"]
        by (simp_all add: less_Suc_eq_le)
      then have d: "e div 4096 = q" by (intro div_nat_eqI) simp_all
      then show ?thesis using \<open>q * 4096 < e\<close> div_mult_mod_eq [of e 4096] by auto
    qed
    ultimately have "q = ?e div 4096" "?e mod 4096 \<noteq> 0" by blast+
    then show False using o q(1) by (auto simp: own_memory_held_def dvd_eq_mod_eq_0)
  qed
  then show ?thesis using l by (auto simp: apart_def left_free_def)
qed

lemma init_mem_spec:
  assumes m: "enough_memory ld mem mb xs" and u: "uart_live (k_bus k)"
  shows "\<exists>p b. init_mem (kernel_end ld) mem mb k = Some (set_mm ((k_mm k)\<lparr>phys := p\<rparr>) k\<lparr>k_bus := b\<rparr>) \<and> uart_live b \<and>
    pmm_ok p \<and> left_free ld xs p \<and> free_pages p = available_pages xs - reserved_pages (kernel_end ld) (bitmap_bytes xs)"
proof -
  obtain p where p: "init_pmm (kernel_end ld) mem mb = Some p" "pmm_ok p" "left_free ld xs p"
    "free_pages p = available_pages xs - reserved_pages (kernel_end ld) (bitmap_bytes xs)"
    using init_pmm_spec m unfolding enough_memory_def left_free_def by (metis order_refl)
  obtain b where "KINFO ''[PMM] Physical Memory Manager initialized by Zig.'' (k_bus k) = Some b" "uart_live b"
    using live_KINFO [of "''[PMM] Physical Memory Manager initialized by Zig.''"] u unfolding live_step_def by auto
  then show ?thesis using p m by (auto simp: init_mem_def enough_memory_def on_bus_def set_mm_def)
qed

lemma boot_paging_spec:
  assumes m: "enough_memory ld mem mb xs" and k: "loaded k" "term_ok (k_term k)"
    and f: "\<forall>f. length (frames (k_mm k) f) = 1024"
  shows "\<exists>k'. boot_paging ld mem mb k = Some k' \<and> kernel_ok k' \<and> k' = k\<lparr>k_heap := k_heap k', k_bus := k_bus k'\<rparr> \<and>
    left_free ld xs (phys (k_mm k')) \<and> 32 \<le> card (free_pages (phys (k_mm k')))"
proof -
  let ?F = "available_pages xs - reserved_pages (kernel_end ld) (bitmap_bytes xs)"
  have u: "uart_live (k_bus k)" using k(1) by (simp add: loaded_def)
  obtain p b1 where 1: "init_mem (kernel_end ld) mem mb k = Some (set_mm ((k_mm k)\<lparr>phys := p\<rparr>) k\<lparr>k_bus := b1\<rparr>)"
    "uart_live b1" "pmm_ok p" "free_pages p = ?F" and lf: "left_free ld xs p" using init_mem_spec [OF m u] by blast
  let ?k1 = "set_mm ((k_mm k)\<lparr>phys := p\<rparr>) k\<lparr>k_bus := b1\<rparr>" and ?mm = "(k_mm k)\<lparr>phys := p\<rparr>"
  obtain b2 where 2: "pmm_dump_bitmap 128 p b1 = Some b2" "uart_live b2" using live_dump 1(2) unfolding live_step_def by blast
  have "2 \<le> card (free_pages (phys ?mm))" "0 \<notin> free_pages (phys ?mm)"
    using 1(4) m by (simp_all add: enough_memory_def reserved_pages_def)
  then obtain mm q r where mm: "mmu_init ?mm = Some mm" "mm_ok (mmu_enable mm)" "paging (mmu_enable mm)"
    "q \<in> ?F" "r \<in> ?F" "q \<noteq> r" "free_pages (phys mm) = ?F - {q, r}"
    using mmu_init_spec [of ?mm] 1(3,4) f by auto
  obtain b3 where 3: "KINFO ''[MMU] Matrix activated: Paging is physically ON!'' b2 = Some b3" "uart_live b3"
    using live_KINFO [of "''[MMU] Matrix activated: Paging is physically ON!''"] 2(2) unfolding live_step_def by auto
  let ?k = "set_mm (mmu_enable mm) k\<lparr>k_bus := b3\<rparr>"
  have "boot_paging ld mem mb k = Some ?k"
    using 1(1) 2(1) mm(1,3) 3(1) by (simp add: boot_paging_def on_bus_def set_mm_def mmu_is_paging_enabled_def)
  moreover have "kernel_ok ?k" using k mm(2) 3(2) by (simp add: kernel_ok_def set_mm_def loaded_def)
  moreover have "phys (k_mm ?k) = phys mm" by (simp add: set_mm_def mmu_enable_def)
  moreover have "left_free ld xs (phys mm)" using left_free_shrinks [OF mmu_init_shrinks [OF mm(1)]] lf by simp
  moreover have "32 \<le> card (?F - {q, r})"
  proof -
    have "card (?F - {q, r}) = card ?F - card {q, r}" using mm(4,5) by (intro card_Diff_subset) auto
    moreover have "34 \<le> card ?F" using m by (simp add: enough_memory_def)
    ultimately show ?thesis using mm(6) by simp
  qed
  ultimately show ?thesis using mm(7) by (intro exI [of _ ?k]) (auto simp: set_mm_def)
qed

lemma keyboard_init_spec:
  assumes "length (irq_handlers m) = 16" "uart_live (k_bus (m_kernel m))"
  shows "\<exists>b. keyboard_init m = Some (m\<lparr>irq_handlers := (irq_handlers m)[1 := Some Keyboard_Callback],
    m_kernel := (m_kernel m)\<lparr>k_bus := b\<rparr>\<rparr>) \<and> uart_live b"
proof -
  have "uart_live (pic_unmask_irq 1 (k_bus (m_kernel m)))"
    using assms(2) by (simp add: pic_unmask_irq_def port_in_def live_port Let_def) (simp add: uart_live_def port_out_def)
  then obtain b where "KINFO ''[KBD] PS/2 Keyboard driver active'' (pic_unmask_irq 1 (k_bus (m_kernel m))) = Some b" "uart_live b"
    using live_KINFO [of "''[KBD] PS/2 Keyboard driver active''"] unfolding live_step_def by auto
  then show ?thesis using assms(1)
    by (intro exI [of _ b]) (simp add: keyboard_init_def irq_register_handler_def on_bus_def wri_def)
qed

lemma shell_init_spec:
  assumes "kernel_ok k"
  shows "\<exists>k'. shell_init k = Some k' \<and> kernel_ok k' \<and> cstring (k_buffer k') = [] \<and> k_pos k' = 0 \<and>
    k' = k\<lparr>k_term := k_term k', k_buffer := replicate 256 0, k_pos := 0\<rparr> \<and>
    puts terminal_putchar (prompt_text (cstring (k_user k)) (cstring (k_os k))) (k_term k) = Some (k_term k')"
proof -
  let ?k = "k\<lparr>k_buffer := replicate 256 0, k_pos := 0\<rparr>" and ?cs = "prompt_text (cstring (k_user k)) (cstring (k_os k))"
  have c: "cstring (replicate 256 0) = []" by (simp add: cstring_def)
  have ok: "kernel_ok ?k" using assms c by (simp add: kernel_ok_def is_line_def)
  obtain k' where k': "emits ?cs ?k = Some k'" "kernel_ok k'" using emits_ok [OF ok] by blast
  then obtain t where "puts terminal_putchar ?cs (k_term k) = Some t" "k' = ?k\<lparr>k_term := t\<rparr>"
    by (auto simp: emits_def on_term_def split: bind_splits)
  then show ?thesis using k' shell_render_prompt_emits [OF ok] c
    by (simp add: shell_init_def BUFFER_SIZE_def)
qed

text \<open>The state the start-up ends in.\<close>

definition booted :: "linker \<Rightarrow> machine \<Rightarrow> machine \<Rightarrow> bool" where
  "booted ld m m' \<longleftrightarrow> kernel_ok (m_kernel m') \<and> heap_rep (k_heap (m_kernel m')) [(HEAP_VIRT_START, 65520, True)] \<and>
    irq_handlers m' = (irq_handlers m)[0 := Some Timer_Callback, 1 := Some Keyboard_Callback] \<and>
    m_keyboard m' = m_keyboard m \<and> k_hist (m_kernel m') = k_hist (m_kernel m) \<and>
    cstring (k_buffer (m_kernel m')) = [] \<and> k_pos (m_kernel m') = 0 \<and>
    (\<forall>i < 256. idt (m_idt m') ! i = (if i < 32 then gate (isr_stubs ld i) 0x08 0x8E
       else if i < 48 then gate (irq_stubs ld (i - 32)) 0x08 0x8E else gate 0 0 0))"

lemma kernel_main_spec:
  assumes m: "loaded (m_kernel m)" "length (irq_handlers m) = 16" and mem: "enough_memory ld mem mb xs"
    and f: "\<forall>f. length (frames (k_mm (m_kernel m)) f) = 1024"
  shows "\<exists>N. \<forall>irqs. \<exists>m'. kernel_main ld mem MULTIBOOT_BOOTLOADER_MAGIC mb m (replicate N 0 @ irqs) = Some (m', irqs) \<and>
    booted ld m m' \<and> left_free ld xs (phys (k_mm (m_kernel m')))"
proof -
  obtain N where N: "\<forall>k irqs. kernel_ok k \<longrightarrow> frequency (k_timer k) = 1000 \<longrightarrow> 32 \<le> card (free_pages (phys (k_mm k))) \<longrightarrow>
     0 \<notin> free_pages (phys (k_mm k)) \<longrightarrow>
     (\<exists>k'. boot_screen (k, replicate N 0 @ irqs) = Some (k', irqs) \<and> kernel_ok k' \<and> frequency (k_timer k') = 1000 \<and>
        k' = k\<lparr>k_term := k_term k', k_timer := k_timer k', k_heap := k_heap k'\<rparr> \<and>
        heap_rep (k_heap k') [(HEAP_VIRT_START, 65520, True)] \<and> shrinks (phys (k_mm k)) (phys (k_mm k')))" using boot_screen_returns by blast
  let ?m0 = "m\<lparr>m_kernel := (m_kernel m)\<lparr>k_bus := serial_init (k_bus (m_kernel m))\<rparr>\<rparr>"
  have "loaded (m_kernel ?m0)" "length (irq_handlers ?m0) = 16"
    using m by (simp_all add: loaded_def serial_init_def live_ports del: port_outs.simps)
  from boot_devices_spec [OF this, of ld] obtain m1 where m1: "boot_devices ld ?m0 = Some m1"
    "irq_handlers m1 = (irq_handlers m)[0 := Some Timer_Callback]" "m_keyboard m1 = m_keyboard m" "loaded (m_kernel m1)"
    "term_ok (k_term (m_kernel m1))" "frequency (k_timer (m_kernel m1)) = 1000"
    "k_heap (m_kernel m1) = k_heap (m_kernel m)" "k_hist (m_kernel m1) = k_hist (m_kernel m)" and
    gates: "\<forall>i < 256. idt (m_idt m1) ! i = (if i < 32 then gate (isr_stubs ld i) 0x08 0x8E
       else if i < 48 then gate (irq_stubs ld (i - 32)) 0x08 0x8E else gate 0 0 0)" by auto
  have "\<forall>f. length (frames (k_mm (m_kernel m1)) f) = 1024" using f m1(7) by simp
  from boot_paging_spec [OF mem m1(4,5) this] obtain k2 where k2: "boot_paging ld mem mb (m_kernel m1) = Some k2" "kernel_ok k2"
    "k2 = (m_kernel m1)\<lparr>k_heap := k_heap k2, k_bus := k_bus k2\<rparr>" "32 \<le> card (free_pages (phys (k_mm k2)))"
    "left_free ld xs (phys (k_mm k2))" by blast
  then have z2: "0 \<notin> free_pages (phys (k_mm k2))" by (auto simp: left_free_def reserved_pages_def)
  have fr: "frequency (k_timer k2) = 1000" "k_hist k2 = k_hist (m_kernel m)"
    using m1(6,8) by (subst k2(3), simp)+
  show ?thesis
  proof (intro exI [of _ N] allI)
    fix irqs
    obtain k3 where k3: "boot_screen (k2, replicate N 0 @ irqs) = Some (k3, irqs)" "kernel_ok k3"
      "k3 = k2\<lparr>k_term := k_term k3, k_timer := k_timer k3, k_heap := k_heap k3\<rparr>"
      "heap_rep (k_heap k3) [(HEAP_VIRT_START, 65520, True)]" "shrinks (phys (k_mm k2)) (phys (k_mm k3))"
      using N k2(2,4) z2 fr by blast
    have l3: "left_free ld xs (phys (k_mm k3))" by (rule left_free_shrinks [OF k3(5) k2(5)])
    have h3: "k_hist k3 = k_hist (m_kernel m)" using fr(2) by (subst k3(3)) simp
    let ?m3 = "m1\<lparr>m_kernel := k3\<rparr>"
    have "length (irq_handlers ?m3) = 16" "uart_live (k_bus (m_kernel ?m3))"
      using m1(2) m(2) k3(2) by (simp_all add: kernel_ok_def)
    from keyboard_init_spec [OF this] obtain b where b: "keyboard_init ?m3 = Some (?m3\<lparr>irq_handlers := (irq_handlers m1)[1 := Some Keyboard_Callback],
      m_kernel := k3\<lparr>k_bus := b\<rparr>\<rparr>)" "uart_live b" by auto
    have k4: "kernel_ok (k3\<lparr>k_bus := b\<rparr>)" by (rule kernel_ok_bus [OF k3(2) b(2)])
    obtain k5 where k5: "on_term terminal_clear (k3\<lparr>k_bus := b\<rparr>) = Some k5" "kernel_ok k5" "same_but_term (k3\<lparr>k_bus := b\<rparr>) k5"
      using on_term_ok [OF k4, of terminal_clear] clear_ok by blast
    obtain k6 where k6: "shell_init k5 = Some k6" "kernel_ok k6" "cstring (k_buffer k6) = []" "k_pos k6 = 0"
      "k6 = k5\<lparr>k_term := k_term k6, k_buffer := replicate 256 0, k_pos := 0\<rparr>" using shell_init_spec [OF k5(2)] by blast
    have "k_heap k6 = k_heap k5" "k_hist k6 = k_hist k5" by (subst k6(5), simp)+
    then have h6: "k_heap k6 = k_heap k3" "k_hist k6 = k_hist k3" using same_but_term_simps [OF k5(3)] by simp_all
    obtain b7 where b7: "KINFO ''[KRN] Boot sequence complete. System ready.'' (k_bus k6) = Some b7" "uart_live b7"
      using live_KINFO [of "''[KRN] Boot sequence complete. System ready.''"] k6(2) unfolding live_step_def kernel_ok_def by auto
    let ?m' = "?m3\<lparr>irq_handlers := (irq_handlers m1)[1 := Some Keyboard_Callback], m_kernel := k6\<lparr>k_bus := b7\<rparr>\<rparr>"
    have "kernel_main ld mem MULTIBOOT_BOOTLOADER_MAGIC mb m (replicate N 0 @ irqs) = Some (?m', irqs)"
      unfolding kernel_main_def using m1(1) k2(1) k3(1) b(1) k5(1) k6(1) b7(1) by (simp add: on_bus_def)
    moreover have "kernel_ok (m_kernel ?m')" using kernel_ok_bus [OF k6(2) b7(2)] by simp
    ultimately show "\<exists>m'. kernel_main ld mem MULTIBOOT_BOOTLOADER_MAGIC mb m (replicate N 0 @ irqs) = Some (m', irqs) \<and>
      booted ld m m' \<and> left_free ld xs (phys (k_mm (m_kernel m')))" unfolding booted_def
      using k3(4) l3 h6 h3 m1(2,3) k6(3,4) gates by (intro exI [of _ ?m']) simp
  qed
qed

section \<open>Properties\<close>

text \<open>A machine with 8 MB: 640 KB and the memory above 1 MB are available, the kernel ends at 0x120000.\<close>

definition example_bytes :: "byte list" where
  "example_bytes = [20, 0, 0, 0,  0, 0, 0, 0,  0, 0, 0, 0,  0, 0, 0x0A, 0,  0, 0, 0, 0,  1, 0, 0, 0,
                    20, 0, 0, 0,  0, 0, 0x10, 0,  0, 0, 0, 0,  0, 0, 0x70, 0,  0, 0, 0, 0,  1, 0, 0, 0]"

definition example_memory :: physical where
  "example_memory a = (if 0x9000 \<le> a \<and> a < 0x9030 then example_bytes ! unat (a - 0x9000) else 0)"

definition example_info :: multiboot_info where
  "example_info = \<lparr>mb_flags = 0x40, mem_lower = 0, mem_upper = 0, boot_device = 0, cmdline = 0, mods_count = 0,
     mods_addr = 0, syms = [0, 0, 0, 0], mmap_length = 48, mmap_addr = 0x9000, drives_length = 0, drives_addr = 0,
     config_table = 0, boot_loader_name = 0, apm_table = 0, vbe_control_info = 0, vbe_mode_info = 0, vbe_mode = 0,
     vbe_interface_seg = 0, vbe_interface_off = 0, vbe_interface_len = 0, framebuffer_addr = 0, framebuffer_pitch = 0,
     framebuffer_width = 0, framebuffer_height = 0, framebuffer_bpp = 0, framebuffer_type = 0\<rparr>"

definition example_entries :: "multiboot_memory_map list" where
  "example_entries = [
     \<lparr>mmap_size = 20, base_addr_low = 0, base_addr_high = 0, length_low = 0xA0000, length_high = 0, mmap_type = 1\<rparr>,
     \<lparr>mmap_size = 20, base_addr_low = 0x100000, base_addr_high = 0, length_low = 0x700000, length_high = 0, mmap_type = 1\<rparr>]"

definition example_linker :: linker where
  "example_linker = \<lparr>kernel_end = 0x120000, gdt_addr = 0x11F000, tss_addr = 0x11F100, idt_addr = 0x11E000,
     isr_stubs = (\<lambda>i. 0x101000 + of_nat (16 * i)), irq_stubs = (\<lambda>i. 0x102000 + of_nat (16 * i))\<rparr>"

lemma example_walk: "walks example_memory (mmap_addr example_info + mmap_length example_info) (mmap_addr example_info) example_entries"
  unfolding example_entries_def walks_simps example_info_def
  by (simp add: memory_map_at_def read32_def example_memory_def example_bytes_def)

lemma example_bitmap: "bitmap_bytes example_entries = 256"
  by (simp add: bitmap_bytes_def max_ram_def example_entries_def zone_end_def max_def)

lemma example_pages: "available_pages example_entries = {0..<0xA0} \<union> {0x100..<0x800}"
  by (simp add: available_pages_def example_entries_def available_def MULTIBOOT_MEMORY_AVAILABLE_def region_pages_def)

lemma example_reserved: "reserved_pages 0x120000 256 = {0} \<union> {0x80..<0x90} \<union> {0x100..<0x120}"
  by (simp add: reserved_pages_def)

lemma example_aligned: "aligned_zones example_entries"
  by (simp add: aligned_zones_def example_entries_def)

lemma example_good: "good_map 0x120000 example_entries"
  unfolding good_map_def example_bitmap
  by (simp add: example_entries_def fits_map_def)

text \<open>C13: init_pmm walks the boot loader's memory map to its end and leaves free exactly the pages that lie with
  every byte in an available zone, by the zone's 64-bit base and length, without page 0, the boot stack's pages and the
  pages from 1 MB up to the end of the bitmap behind the kernel (the end rounded down). Assumed of the map: every available
  zone starts at a page boundary, has zeros in the upper halves of base and length, ends below 4 GB and inside the
  pages the bitmap covers (which are rounded down to a multiple of 8); and the kernel ends above 1 MB and below the end of the bitmap's pages.\<close>

theorem init_pmm_correct:
  assumes "walks mem (mmap_addr mb + mmap_length mb) (mmap_addr mb) xs" and "good_map kend xs" and "aligned_zones xs"
  shows "\<exists>p. init_pmm kend mem mb = Some p \<and> pmm_ok p \<and>
    free_pages p = whole_pages xs - reserved_pages kend (bitmap_bytes xs)"
  using init_pmm_spec [OF assms(1,2)] unfolding aligned_available [OF assms(3)] by blast

theorem init_pmm_correct_witness:
  "\<exists>p. init_pmm 0x120000 example_memory example_info = Some p \<and>
     free_pages p = {1..<0x80} \<union> {0x90..<0xA0} \<union> {0x120..<0x800}"
proof -
  have "({0..<0xA0} \<union> {0x100..<0x800}) - ({0} \<union> {0x80..<0x90} \<union> {0x100..<0x120}) =
      {1..<0x80} \<union> {0x90..<0xA0} \<union> {0x120..<0x800::nat}" by auto
  with init_pmm_correct [OF example_walk example_good example_aligned] show ?thesis
    unfolding aligned_available [OF example_aligned, symmetric] example_bitmap example_pages example_reserved by auto
qed

text \<open>C29: the bitmap is not protected: when the kernel and its bitmap do not end at a page boundary and the page of
  their last byte is available, that page is free after init_pmm, so the allocator can hand out the memory of
  its own bitmap.\<close>

theorem bitmap_page_free:
  assumes "walks mem (mmap_addr mb + mmap_length mb) (mmap_addr mb) xs" and "good_map kend xs"
    and "\<not> 4096 dvd unat kend + bitmap_bytes xs" and "(unat kend + bitmap_bytes xs - 1) div 4096 \<in> available_pages xs"
  shows "\<exists>p. init_pmm kend mem mb = Some p \<and> (unat kend + bitmap_bytes xs - 1) div 4096 \<in> free_pages p"
proof -
  let ?e = "unat kend + bitmap_bytes xs"
  have "?e mod 4096 \<noteq> 0" using assms(3) mod_0_imp_dvd [of ?e 4096] by blast
  moreover have "(n - 1) div 4096 = n div 4096" if "n mod 4096 \<noteq> 0" for n :: nat
  proof -
    have "n - 1 = (n mod 4096 - 1) + n div 4096 * 4096" using that div_mult_mod_eq [of n 4096] by linarith
    moreover have "((n mod 4096 - 1) + n div 4096 * 4096) div 4096 = n div 4096" by (simp add: less_imp_diff_less)
    ultimately show ?thesis by (simp only:)
  qed
  ultimately have e: "(?e - 1) div 4096 = ?e div 4096" by blast
  have "0x100000 \<le> ?e" using assms(2) by (simp add: good_map_def)
  then have "0x100000 div 4096 \<le> ?e div 4096" by (rule div_le_mono)
  then have "(?e - 1) div 4096 \<notin> reserved_pages kend (bitmap_bytes xs)" unfolding e by (simp add: reserved_pages_def)
  then show ?thesis using init_pmm_spec [OF assms(1,2)] assms(4) by auto
qed

theorem bitmap_page_free_witness:
  "\<exists>p. init_pmm 0x120000 example_memory example_info = Some p \<and> 0x120 \<in> free_pages p"
proof -
  have "\<not> 4096 dvd unat (0x120000 :: u32) + bitmap_bytes example_entries"
    "(unat (0x120000 :: u32) + bitmap_bytes example_entries - 1) div 4096 \<in> available_pages example_entries"
    unfolding example_bitmap example_pages by simp_all
  from bitmap_page_free [OF example_walk example_good this] show ?thesis unfolding example_bitmap by simp
qed


definition example_machine :: machine where
  "example_machine = \<lparr>m_kernel = example_kernel, m_keyboard = keyboard_zero, irq_handlers = replicate 16 None,
     m_gdt = \<lparr>gdt = replicate 6 0, gdt_limit = 0, gdt_base = 0, tss = tss_zero\<rparr>,
     m_idt = \<lparr>idt = replicate 256 idt_entry_zero, idtp_limit = 0, idtp_base = 0\<rparr>\<rparr>"

lemma example_machine_facts: "loaded (m_kernel example_machine)" "length (irq_handlers example_machine) = 16"
  "\<forall>f. length (frames (k_mm (m_kernel example_machine)) f) = 1024"
  "enough_memory example_linker example_memory example_info example_entries"
proof -
  have k: "kernel_ok example_kernel" by (rule example_kernel_ok)
  show "loaded (m_kernel example_machine)" using k
    by (simp add: loaded_def example_machine_def kernel_ok_def term_ok_def) (simp add: example_kernel_def)
  show "\<forall>f. length (frames (k_mm (m_kernel example_machine)) f) = 1024"
    using k by (simp add: example_machine_def kernel_ok_def mm_ok_def)
  have "{1..<0x80} \<subseteq> available_pages example_entries - reserved_pages 0x120000 256"
    unfolding example_pages example_reserved by auto
  moreover have "finite (available_pages example_entries - reserved_pages 0x120000 256)" unfolding example_pages by simp
  ultimately have "card {1..<0x80::nat} \<le> card (available_pages example_entries - reserved_pages 0x120000 256)"
    by (metis card_mono)
  then show "enough_memory example_linker example_memory example_info example_entries"
    using example_walk example_good by (simp add: enough_memory_def example_bitmap example_linker_def) (simp add: example_info_def)
qed (simp add: example_machine_def)


end
