(* ===== verification/Interrupts.thy ===== *)
theory Interrupts
  imports Boot_Spec
begin

text \<open>
  The machine between interrupts: what any interleaving of timer and keyboard interrupts does to the line
  that is edited, through irq.c, keyboard.c, shell.c and terminal.c.
\<close>

section \<open>Events and edits\<close>

text \<open>The key events that edit the line.\<close>

fun key_of :: "edit \<Rightarrow> key_event" where
  "key_of (Type c) = Char c" |
  "key_of Erase = Char 8" |
  "key_of Go_Left = Left" |
  "key_of Go_Right = Right"

primrec key_actions :: "key_event list \<Rightarrow> kernel \<Rightarrow> outcome option" where
  "key_actions [] k = Some (Running k)" |
  "key_actions (e # es) k = cont (key_action e k) (key_actions es)"

lemma edit_action:
  "\<forall>c. e = Type c \<longrightarrow> char_key c \<Longrightarrow> key_action (key_of e) k = runs (ed.do_edit e k)"
  using char_key_insert by (cases e) (simp, simp_all add: shell_handle_key_def)

lemma edits_actions:
  "\<forall>c. Type c \<in> set es \<longrightarrow> char_key c \<Longrightarrow> key_actions (map key_of es) k = runs (ed.do_edits es k)"
proof (induction es arbitrary: k)
  case Nil
  then show ?case by (simp add: runs_def)
next
  case (Cons e es)
  then have "key_action (key_of e) k = runs (ed.do_edit e k)" using edit_action by simp
  then show ?case using Cons by (cases "ed.do_edit e k") (auto simp: cont_def runs_def)
qed

text \<open>An edit touches the line, the cursor and the screen only.\<close>

lemma on_term_frame: "on_term f k = Some k' \<Longrightarrow> k_bus k' = k_bus k \<and> k_timer k' = k_timer k"
  by (auto simp: on_term_def split: bind_splits)

lemmas edit_code = key_insert_def key_backspace_def shell_buffer_pos_decrement_def shell_buffer_pos_increment_def
  write_tail_def putc_def

lemma edit_frame: "ed.do_edit e k = Some k' \<Longrightarrow> k_bus k' = k_bus k \<and> k_timer k' = k_timer k"
  by (cases e) (auto simp: edit_code Let_def bind_eq_Some_conv split: if_splits dest!: on_term_frame)

lemma edit_step:
  assumes "editing W p l r k" "\<forall>c. e = Type c \<longrightarrow> char_key c \<and> in_room (1999 - p) (l, r) 1"
  shows "\<exists>k'. ed.do_edit e k = Some k' \<and> editing W p (fst (edit_line e (l, r))) (snd (edit_line e (l, r))) k' \<and>
    k_bus k' = k_bus k \<and> k_timer k' = k_timer k"
  using ed.do_edit_law [OF assms] edit_frame by blast

section \<open>Sequences of interrupts\<close>

fun irq_run :: "nat list \<Rightarrow> machine \<Rightarrow> machine_outcome option" where
  "irq_run [] m = Some (Alive m)" |
  "irq_run (i # is) m = (case irq_handler (of_nat (32 + i)) m of
     Some (Alive m') \<Rightarrow> irq_run is m' | r \<Rightarrow> r)"

lemma irq_run_snoc: "irq_run is m = Some (Alive m') \<Longrightarrow> irq_run (is @ [i]) m = irq_handler (of_nat (32 + i)) m'"
  by (induction "is" m rule: irq_run.induct) (auto split: option.splits machine_outcome.splits)

text \<open>The controller is set up and the port delivers the scan codes in order.\<close>

definition listening :: "machine \<Rightarrow> bool" where
  "listening m \<longleftrightarrow> length (irq_handlers m) = 16 \<and> irq_handlers m ! 0 = Some Timer_Callback \<and>
     irq_handlers m ! 1 = Some Keyboard_Callback"

definition delivers :: "bus \<Rightarrow> byte list \<Rightarrow> bool" where
  "delivers b scs \<longleftrightarrow> (\<forall>i < length scs. script b (clock b + i) 0x60 = scs ! i)"

lemma timer_irq:
  assumes "listening m"
  shows "irq_handler (of_nat (32 + 0)) m = Some (Alive (m\<lparr>m_kernel := (m_kernel m)\<lparr>k_bus := after_eoi 0 (k_bus (m_kernel m)),
     k_timer := timer_callback (k_timer (m_kernel m))\<rparr>\<rparr>))"
  using assms by (subst irq_handler_eq) (simp_all add: listening_def call_handler_def Let_def)

text \<open>A keyboard interrupt performs the event its scan code means.\<close>

lemma keyboard_irq:
  assumes m: "listening m" and sc: "script (k_bus (m_kernel m)) (clock (k_bus (m_kernel m))) 0x60 = sc"
    and d: "decodes (m_keyboard m) sc e kb'"
    and k: "key_action e ((m_kernel m)\<lparr>k_bus := b\<rparr>) = Some (Running k')"
    and b: "b = (after_eoi 1 (k_bus (m_kernel m)))\<lparr>clock := clock (k_bus (m_kernel m)) + 1\<rparr>"
  shows "irq_handler (of_nat (32 + 1)) m = Some (Alive (m\<lparr>m_kernel := k', m_keyboard := kb'\<rparr>))"
proof -
  let ?k = "(m_kernel m)\<lparr>k_bus := after_eoi 1 (k_bus (m_kernel m))\<rparr>"
  have p: "port_in 0x60 (k_bus ?k) = (sc, b)" using sc b by (simp add: port_in_def after_eoi_def)
  obtain e1 kb1 where 1: "decodes (m_keyboard m) sc e1 kb1"
    "keyboard_callback (m_keyboard m) ?k = leaving kb1 (key_action e1 (?k\<lparr>k_bus := b\<rparr>))"
    using keyboard_callback_decodes [OF p] by blast
  have "e1 = e" "kb1 = kb'" using decodes_fun [OF 1(1) d] by simp_all
  then have "keyboard_callback (m_keyboard m) ?k = Some (kb', Running k')" using 1(2) k by (simp add: leaving_def)
  then show ?thesis using m by (subst irq_handler_eq) (simp_all add: listening_def call_handler_def Let_def)
qed

inductive_cases decodes_all_snoc: "decodes_all kb (scs @ [sc]) es kb'"
inductive_cases decodes_all_none: "decodes_all kb [] es kb'"

lemma decodes_all_last:
  assumes "decodes_all kb (scs @ [sc]) es kb'"
  obtains es0 e kb1 where "es = es0 @ [e]" "decodes_all kb scs es0 kb1" "decodes kb1 sc e kb'"
  using assms by (rule decodes_all_snoc) auto

text \<open>The edits the events stand for.\<close>

definition edits_of :: "key_event list \<Rightarrow> edit list \<Rightarrow> bool" where
  "edits_of evs es \<longleftrightarrow> filter (\<lambda>e. e \<noteq> Nothing) evs = map key_of es \<and> (\<forall>c. Type c \<in> set es \<longrightarrow> char_key c)"

lemma edits_of_snoc:
  assumes "edits_of (evs @ [e]) es"
  shows "e = Nothing \<and> edits_of evs es \<or>
    (\<exists>es0 d. es = es0 @ [d] \<and> e = key_of d \<and> edits_of evs es0 \<and> (\<forall>c. d = Type c \<longrightarrow> char_key c))"
proof (cases "e = Nothing")
  case False
  then have "filter (\<lambda>e. e \<noteq> Nothing) evs @ [e] = map key_of es" using assms by (simp add: edits_of_def)
  then obtain es0 d where "es = es0 @ [d]" "e = key_of d" "filter (\<lambda>e. e \<noteq> Nothing) evs = map key_of es0"
    by (cases es rule: rev_cases) auto
  then show ?thesis using assms by (auto simp: edits_of_def)
qed (use assms in \<open>simp add: edits_of_def\<close>)

lemma typed_append: "typed (es @ fs) = typed es + typed fs"
  by (simp add: typed_def)

lemma key_of_something: "key_of d \<noteq> Nothing"
  by (cases d) simp_all

text \<open>
  The state after some interrupts: \<open>n\<close> scan codes have been read and \<open>t\<close> ticks counted, the decoder is in the
  state \<open>kb\<close> and the line is \<open>l @ r\<close>.
\<close>

definition served :: "machine \<Rightarrow> u16 list \<Rightarrow> nat \<Rightarrow> nat \<Rightarrow> nat \<Rightarrow> keyboard \<Rightarrow> byte list \<times> byte list \<Rightarrow> machine \<Rightarrow> bool" where
  "served m W p n t kb x m' \<longleftrightarrow> listening m' \<and> m_keyboard m' = kb \<and> editing W p (fst x) (snd x) (m_kernel m') \<and>
     script (k_bus (m_kernel m')) = script (k_bus (m_kernel m)) \<and>
     clock (k_bus (m_kernel m')) = clock (k_bus (m_kernel m)) + n \<and>
     tick (k_timer (m_kernel m')) = tick (k_timer (m_kernel m)) + of_nat t"

text \<open>Only the timer's interrupts count as ticks; only the keyboard's take scan codes.\<close>

lemma served_timer:
  assumes "served m W p n t kb x m1"
  shows "\<exists>m'. irq_handler (of_nat (32 + 0)) m1 = Some (Alive m') \<and> served m W p n (Suc t) kb x m'"
proof -
  let ?m = "m1\<lparr>m_kernel := (m_kernel m1)\<lparr>k_bus := after_eoi 0 (k_bus (m_kernel m1)),
     k_timer := timer_callback (k_timer (m_kernel m1))\<rparr>\<rparr>"
  have "listening m1" "editing W p (fst x) (snd x) (m_kernel m1)" using assms by (simp_all add: served_def)
  moreover from this(2) have "editing W p (fst x) (snd x) (m_kernel ?m)"
    by (simp add: editing_def kernel_ok_def uart_live_def after_eoi_def)
  ultimately show ?thesis using timer_irq [of m1] assms
    by (intro exI [of _ ?m]) (simp add: served_def listening_def after_eoi_def timer_callback_def)
qed

lemma served_key:
  assumes s: "served m W p n t kb (l, r) m1" and b: "delivers (k_bus (m_kernel m)) scs" "n < length scs"
    and d: "decodes kb (scs ! n) ev kb'"
    and e: "ev = Nothing \<and> x' = (l, r) \<or>
      (\<exists>d. ev = key_of d \<and> x' = edit_line d (l, r) \<and> (\<forall>c. d = Type c \<longrightarrow> char_key c \<and> in_room (1999 - p) (l, r) 1))"
  shows "\<exists>m'. irq_handler (of_nat (32 + 1)) m1 = Some (Alive m') \<and> served m W p (Suc n) t kb' x' m'"
proof -
  let ?b = "(after_eoi 1 (k_bus (m_kernel m1)))\<lparr>clock := clock (k_bus (m_kernel m1)) + 1\<rparr>"
  let ?k = "(m_kernel m1)\<lparr>k_bus := ?b\<rparr>"
  have m1: "listening m1" "m_keyboard m1 = kb" and ed: "editing W p l r (m_kernel m1)" using s by (simp_all add: served_def)
  have sc: "script (k_bus (m_kernel m1)) (clock (k_bus (m_kernel m1))) 0x60 = scs ! n"
    using b s by (simp add: delivers_def served_def)
  have "uart_live ?b" using ed by (simp add: editing_def kernel_ok_def uart_live_def after_eoi_def)
  then have ek: "editing W p l r ?k" by (rule editing_bus [OF ed])
  have "\<exists>k'. key_action ev ?k = Some (Running k') \<and> editing W p (fst x') (snd x') k' \<and> k_bus k' = ?b \<and> k_timer k' = k_timer ?k"
    using e
  proof
    assume "ev = Nothing \<and> x' = (l, r)"
    then show ?thesis using ek by simp
  next
    assume "\<exists>d. ev = key_of d \<and> x' = edit_line d (l, r) \<and> (\<forall>c. d = Type c \<longrightarrow> char_key c \<and> in_room (1999 - p) (l, r) 1)"
    then obtain d where d: "ev = key_of d" "x' = edit_line d (l, r)"
      "\<forall>c. d = Type c \<longrightarrow> char_key c \<and> in_room (1999 - p) (l, r) 1" by blast
    from edit_step [OF ek d(3)] obtain k' where
      "ed.do_edit d ?k = Some k'" "editing W p (fst x') (snd x') k'" "k_bus k' = k_bus ?k" "k_timer k' = k_timer ?k"
      unfolding d(2) by blast
    then show ?thesis using edit_action [of d ?k] d(1,3) by (simp add: runs_def)
  qed
  then obtain k' where k': "key_action ev ?k = Some (Running k')" "editing W p (fst x') (snd x') k'" "k_bus k' = ?b"
    "k_timer k' = k_timer ?k" by blast
  have "decodes (m_keyboard m1) (scs ! n) ev kb'" using d m1(2) by simp
  from keyboard_irq [OF m1(1) sc this k'(1) refl] show ?thesis using k'(2-4) m1(1) s
    by (intro exI [of _ "m1\<lparr>m_kernel := k', m_keyboard := kb'\<rparr>"]) (simp add: served_def listening_def after_eoi_def)
qed

lemma irq_run_served:
  assumes m: "listening m" "editing W p l r (m_kernel m)" "delivers (k_bus (m_kernel m)) scs"
  shows "set irqs \<subseteq> {0, 1} \<Longrightarrow> count_list irqs 1 \<le> length scs \<Longrightarrow>
    decodes_all (m_keyboard m) (take (count_list irqs 1) scs) evs kb' \<Longrightarrow> edits_of evs es \<Longrightarrow>
    in_room (1999 - p) (l, r) (typed es) \<Longrightarrow>
    \<exists>m'. irq_run irqs m = Some (Alive m') \<and>
      served m W p (count_list irqs 1) (count_list irqs 0) kb' (edit_lines es (l, r)) m'"
proof (induction irqs arbitrary: evs es kb' rule: rev_induct)
  case Nil
  then have "evs = []" "kb' = m_keyboard m" by (auto elim: decodes_all_none)
  then show ?case using m Nil.prems by (simp add: edits_of_def served_def)
next
  case (snoc i irqs)
  let ?n = "count_list irqs 1"
  show ?case
  proof (cases "i = 0")
    case True
    then obtain m1 where m1: "irq_run irqs m = Some (Alive m1)"
      "served m W p ?n (count_list irqs 0) kb' (edit_lines es (l, r)) m1" using snoc.IH [OF _ _ _ snoc.prems(4,5)] snoc.prems by auto
    then show ?thesis using irq_run_snoc [OF m1(1), of i] served_timer [OF m1(2)] True by simp
  next
    case False
    then have i: "i = 1" and lt: "?n < length scs" using snoc.prems(1,2) by auto
    have "take (count_list (irqs @ [i]) 1) scs = take ?n scs @ [scs ! ?n]" using i lt by (simp add: take_Suc_conv_app_nth)
    with snoc.prems(3) obtain evs0 ev kb1 where d: "evs = evs0 @ [ev]" "decodes_all (m_keyboard m) (take ?n scs) evs0 kb1"
      "decodes kb1 (scs ! ?n) ev kb'" by (auto elim: decodes_all_last)
    obtain es0 where es0: "edits_of evs0 es0" "ev = Nothing \<and> es = es0 \<or> (\<exists>d. es = es0 @ [d] \<and> ev = key_of d \<and> (\<forall>c. d = Type c \<longrightarrow> char_key c))"
      using edits_of_snoc snoc.prems(4) d(1) by blast
    have room: "in_room (1999 - p) (l, r) (typed es0)" using es0(2) snoc.prems(5) by (auto simp: typed_append in_room_def)
    obtain l1 r1 where lr: "edit_lines es0 (l, r) = (l1, r1)" by (cases "edit_lines es0 (l, r)")
    obtain m1 where m1: "irq_run irqs m = Some (Alive m1)" "served m W p ?n (count_list irqs 0) kb1 (l1, r1) m1"
      using snoc.IH [OF _ _ d(2) es0(1) room] snoc.prems(1) lt lr by auto
    have "in_room (1999 - p) (l1, r1) 1" if "es = es0 @ [Type c]" for c
      using edit_lines_room [of _ "(l, r)" es0 1] snoc.prems(5) lr that by (simp add: typed_append)
    then have "ev = Nothing \<and> edit_lines es (l, r) = (l1, r1) \<or> (\<exists>d. ev = key_of d \<and> edit_lines es (l, r) = edit_line d (l1, r1) \<and>
        (\<forall>c. d = Type c \<longrightarrow> char_key c \<and> in_room (1999 - p) (l1, r1) 1))"
      using es0(2) lr snoc.prems(5) by (auto simp: ed.edit_lines_append typed_append)
    from served_key [OF m1(2) m(3) lt d(3) this] show ?thesis using irq_run_snoc [OF m1(1), of i] i by simp
  qed
qed

section \<open>Properties\<close>

text \<open>The example machine with both handlers, and a keyboard on which \<open>h\<close>, \<open>i\<close> and the left arrow are pressed.\<close>

definition typed_codes :: "byte list" where
  "typed_codes = [0x23, 0xA3, 0x17, 0x97, 0xE0, 0x4B]"

definition typing_bus :: bus where
  "typing_bus = \<lparr>script = (\<lambda>n q. if q = 0x60 \<and> n < length typed_codes then typed_codes ! n else 0x20), clock = 0, writes = []\<rparr>"

definition typing_machine :: machine where
  "typing_machine = example_machine\<lparr>m_kernel := example_kernel\<lparr>k_bus := typing_bus\<rparr>,
     irq_handlers := (replicate 16 None)[0 := Some Timer_Callback, 1 := Some Keyboard_Callback]\<rparr>"

lemma typing_machine_facts:
  "listening typing_machine" "editing (terminal_buffer boot_terminal) 0 [] [] (m_kernel typing_machine)"
  "delivers (k_bus (m_kernel typing_machine)) typed_codes" "m_keyboard typing_machine = keyboard_zero"
proof -
  have "script typing_bus n (SERIAL_PORT + 5) AND 0x20 \<noteq> 0" for n by (simp add: typing_bus_def SERIAL_PORT_def)
  then have "uart_live typing_bus" unfolding uart_live_def by blast
  then show "editing (terminal_buffer boot_terminal) 0 [] [] (m_kernel typing_machine)"
    using editing_bus [OF example_editing] by (simp add: typing_machine_def)
  show "delivers (k_bus (m_kernel typing_machine)) typed_codes"
    by (simp add: delivers_def typing_machine_def typing_bus_def)
qed (simp_all add: listening_def typing_machine_def example_machine_def)

lemma typed_decodes:
  "decodes_all keyboard_zero typed_codes [Char 104, Nothing, Char 105, Nothing, Nothing, Left] keyboard_zero"
proof -
  have e: "kb\<lparr>extended := False\<rparr> = keyboard_zero" if "kb = keyboard_zero" for kb using that by (simp add: keyboard_zero_def)
  have r: "decodes keyboard_zero sc Nothing keyboard_zero" if "sc \<in> {0xA3, 0x97}" for sc
    using decodes.release [of sc keyboard_zero] that e [OF refl] by (elim insertE emptyE) simp_all
  have make: "decodes keyboard_zero 0x23 (Char 104) keyboard_zero" "decodes keyboard_zero 0x17 (Char 105) keyboard_zero"
    using decodes.make [of "0x23" keyboard_zero 104] decodes.make [of "0x17" keyboard_zero 105] e [OF refl]
    by (simp_all add: keyboard_zero_def scancode_to_ascii_def lit_def)
  have left: "decodes (keyboard_zero\<lparr>extended := True\<rparr>) 0x4B Left keyboard_zero"
    using decodes.arrow [of "keyboard_zero\<lparr>extended := True\<rparr>" "0x4B" Left] by (simp add: keyboard_zero_def)
  have "decodes_all keyboard_zero ([] @ [0x23]) ([] @ [Char 104]) keyboard_zero"
    by (rule decodes_all.more [OF decodes_all.none make(1)])
  from decodes_all.more [OF this r, of "0xA3"]
  have "decodes_all keyboard_zero [0x23, 0xA3] [Char 104, Nothing] keyboard_zero" by simp
  from decodes_all.more [OF decodes_all.more [OF this make(2)] r, of "0x97"]
  have "decodes_all keyboard_zero [0x23, 0xA3, 0x17, 0x97] [Char 104, Nothing, Char 105, Nothing] keyboard_zero" by simp
  from decodes_all.more [OF decodes_all.more [OF this decodes.prefix_code] left]
  show ?thesis by (simp add: typed_codes_def)
qed

text \<open>C4: from a line being edited, any sequence of timer and keyboard interrupts whose scan codes decode to plain characters,
  backspaces, the left and right arrow keys and nothing (releases, prefixes, shift) leaves the machine running with exactly those edits done to the line, in the buffer and on
  the screen, one scan code read per keyboard interrupt and the tick counter advanced by the timer's interrupts. A character typed when the
  line has 255 bytes is dropped, in the abstract line as in the buffer. It is assumed that the screen does not scroll: the line starts in a cell p with room for
  255 more before the last cell (p at most 1744), or the line and all the characters typed, deleted ones counted too, fit
  into 1999 - p cells.\<close>

theorem interrupts_edit_line:
  assumes "listening m" "editing W p l r (m_kernel m)" "delivers (k_bus (m_kernel m)) scs"
    and "set irqs \<subseteq> {0, 1}" "count_list irqs 1 = length scs" "decodes_all (m_keyboard m) scs evs kb'"
    and "edits_of evs es" "p \<le> 1744 \<or> length l + length r + typed es \<le> 1999 - p"
  shows "\<exists>m'. irq_run irqs m = Some (Alive m') \<and> m_keyboard m' = kb' \<and>
      editing W p (fst (edit_lines es (l, r))) (snd (edit_lines es (l, r))) (m_kernel m') \<and>
      clock (k_bus (m_kernel m')) = clock (k_bus (m_kernel m)) + length scs \<and>
      tick (k_timer (m_kernel m')) = tick (k_timer (m_kernel m)) + of_nat (count_list irqs 0)"
  using irq_run_served [OF assms(1-3) assms(4)] assms(5-8) by (simp add: served_def in_room_def) fastforce

theorem interrupts_edit_line_witness:
  "\<exists>m'. irq_run [1, 1, 0, 1, 1, 0, 0, 1, 1] typing_machine = Some (Alive m') \<and>
     editing (terminal_buffer boot_terminal) 0 [104] [105] (m_kernel m')"
proof -
  let ?es = "[Type 104, Type 105, Go_Left]"
  have "edits_of [Char 104, Nothing, Char 105, Nothing, Nothing, Left] ?es"
    by (auto simp: edits_of_def char_key_def plain_def)
  moreover have "decodes_all (m_keyboard typing_machine) typed_codes [Char 104, Nothing, Char 105, Nothing, Nothing, Left] keyboard_zero"
    using typed_decodes typing_machine_facts(4) by simp
  moreover have "set [1, 1, 0, 1, 1, 0, 0, 1, 1] \<subseteq> {0, 1 :: nat}" "count_list [1, 1, 0, 1, 1, 0, 0, 1, 1 :: nat] 1 = length typed_codes"
    by (simp_all add: typed_codes_def)
  ultimately show ?thesis
    using interrupts_edit_line [OF typing_machine_facts(1-3), of "[1, 1, 0, 1, 1, 0, 0, 1, 1]"
      "[Char 104, Nothing, Char 105, Nothing, Nothing, Left]" keyboard_zero ?es] by auto
qed

end
