(* ===== verification/Completion.thy ===== *)
theory Completion
  imports Line_Editor
begin

text \<open>
  The Tab key of src/kernel/shell.c: the commands that start with the bytes before the cursor, their
  longest common prefix, and the line that results.
\<close>

section \<open>The candidates\<close>

definition candidates :: "byte list \<Rightarrow> string list" where
  "candidates l = filter (\<lambda>c. prefix l (lit c)) command_list"

definition common_prefix :: "byte list list \<Rightarrow> byte list" where
  "common_prefix ps = foldl longest_common_prefix (hd ps) (tl ps)"

lemma common_prefix_single [simp]: "common_prefix [p] = p"
  by (simp add: common_prefix_def)

lemma common_prefix_snoc: "ps \<noteq> [] \<Longrightarrow> common_prefix (ps @ [p]) = longest_common_prefix (common_prefix ps) p"
  by (simp add: common_prefix_def)

text \<open>It is a prefix of all of them, and every such prefix is a prefix of it.\<close>

lemma common_prefix_greatest:
  "ps \<noteq> [] \<Longrightarrow> prefix c (common_prefix ps) \<longleftrightarrow> (\<forall>p \<in> set ps. prefix c p)"
proof (induction ps rule: rev_induct)
  case (snoc p ps)
  show ?case
  proof (cases "ps = []")
    case False
    have "prefix c (longest_common_prefix (common_prefix ps) p) \<longleftrightarrow> prefix c (common_prefix ps) \<and> prefix c p"
      using longest_common_prefix_max_prefix longest_common_prefix_prefix1 longest_common_prefix_prefix2
      by (blast intro: prefix_order.trans)
    then show ?thesis using snoc False by (auto simp: common_prefix_snoc)
  qed simp
qed simp

lemma lcp_length:
  "prefix c f \<Longrightarrow> length (longest_common_prefix c m) = min (length c) (length (longest_common_prefix f m))"
proof (induction c m arbitrary: f rule: longest_common_prefix.induct)
  case (1 x xs y ys)
  then show ?case by (cases f) auto
qed auto

section \<open>The loops\<close>

lemma recognition_loop_spec:
  "str_at a i as \<Longrightarrow> str_at b i bs \<Longrightarrow> recognition_loop a b i = Some (i + length (longest_common_prefix as bs))"
proof (induction as arbitrary: i bs)
  case Nil
  then show ?case by (subst recognition_loop.simps) simp
next
  case (Cons x as)
  show ?case
  proof (cases bs)
    case Nil
    then show ?thesis using Cons.prems by (subst recognition_loop.simps) auto
  next
    case (Cons y bs')
    then show ?thesis using Cons.prems Cons.IH [of "Suc i" bs'] by (subst recognition_loop.simps) auto
  qed
qed

lemma command_recognition_spec:
  "CHR 0x00 \<notin> set a \<Longrightarrow> CHR 0x00 \<notin> set b \<Longrightarrow>
   command_recognition a b = Some (int (length (longest_common_prefix (lit a) (lit b))))"
  using recognition_loop_spec [OF str_at_lit str_at_lit, OF lit_nonzero lit_nonzero, of a b]
  by (simp add: command_recognition_def)

lemma has_space_spec: "i \<le> n \<Longrightarrow> n \<le> length b \<Longrightarrow> has_space b i n = Some (32 \<in> set (drop i (take n b)))"
proof (induction "n - i" arbitrary: i)
  case 0
  then show ?case by (subst has_space.simps) simp
next
  case (Suc d)
  then have i: "i < n" "i < length b" by simp_all
  then have "drop i (take n b) = b ! i # drop (Suc i) (take n b)" by (subst Cons_nth_drop_Suc [symmetric]) simp_all
  then show ?case using Suc i by (subst has_space.simps) auto
qed

text \<open>The length of the common prefix the loop keeps, -1 before the first match.\<close>

definition match_lcp :: "string list \<Rightarrow> int" where
  "match_lcp ms = (if ms = [] then - 1 else int (length (common_prefix (map lit ms))))"

lemma match_step_spec:
  assumes b: "str_at b 0 (l @ r)" and c: "CHR 0x00 \<notin> set cmd" "\<forall>m \<in> set ms. CHR 0x00 \<notin> set m" and n: "length ms < 32"
  shows "match_step b (int (length l)) cmd (ms, match_lcp ms) =
    (let ms' = (if prefix l (lit cmd) then ms @ [cmd] else ms) in Some (ms', match_lcp ms'))"
proof -
  have s: "str_at (lit cmd @ [0]) 0 (lit cmd)" by (rule str_at_lit [OF lit_nonzero [OF c(1)]])
  obtain x where x: "strncmp (lit cmd @ [0]) 0 b 0 (length l) = Some x" "x = 0 \<longleftrightarrow> take (length l) (lit cmd) = l"
    using strncmp_zero [OF s b, of "length l"] by auto
  have p: "take (length l) (lit cmd) = l \<longleftrightarrow> prefix l (lit cmd)"
    by (metis append_eq_conv_conj append_take_drop_id prefix_def)
  show ?thesis
  proof (cases "ms = []")
    case True
    then show ?thesis using x p strlen_str_at [OF s] by (simp add: match_step_def match_lcp_def Let_def)
  next
    case False
    then obtain m ms' where ms: "ms = m # ms'" by (cases ms) auto
    have f: "prefix (common_prefix (map lit ms)) (lit m)"
      using common_prefix_greatest [of "map lit ms" "common_prefix (map lit ms)"] ms by simp
    have "match_lcp (ms @ [cmd]) = min (match_lcp ms) (int (length (longest_common_prefix (lit m) (lit cmd))))"
      using lcp_length [OF f, of "lit cmd"] False by (simp add: match_lcp_def common_prefix_snoc)
    then show ?thesis using x p n c ms command_recognition_spec [of m cmd]
      by (auto simp: match_step_def Let_def match_lcp_def rd_def)
  qed
qed

lemma match_loop_spec:
  "str_at b 0 (l @ r) \<Longrightarrow> \<forall>c \<in> set (ms @ cmds). CHR 0x00 \<notin> set c \<Longrightarrow> length (ms @ cmds) \<le> 32 \<Longrightarrow>
   match_loop b (int (length l)) cmds (ms, match_lcp ms) =
     (let ms' = ms @ filter (\<lambda>c. prefix l (lit c)) cmds in Some (ms', match_lcp ms'))"
proof (induction cmds arbitrary: ms)
  case (Cons c cmds)
  have "match_step b (int (length l)) c (ms, match_lcp ms) =
      (let ms' = (if prefix l (lit c) then ms @ [c] else ms) in Some (ms', match_lcp ms'))"
    using Cons.prems by (intro match_step_spec) auto
  then show ?case using Cons.IH [of "ms @ [c]"] Cons.IH [of ms] Cons.prems by (simp add: Let_def)
qed simp

text \<open>Facts about the command names.\<close>

lemma command_list_chars: "c \<in> set command_list \<Longrightarrow> CHR 0x00 \<notin> set c \<and> length c \<le> 9"
  unfolding command_list_def by (simp only: list.set insert_iff empty_iff) (elim disjE; simp)

lemma length_command_list: "length command_list = 15"
  by (simp add: command_list_def)

lemma candidates_loop:
  "str_at b 0 (l @ r) \<Longrightarrow> match_loop b (int (length l)) command_list ([], -1) =
     Some (candidates l, match_lcp (candidates l))"
  using match_loop_spec [of b l r "[]" command_list] command_list_chars length_command_list
  by (simp add: candidates_def match_lcp_def Let_def)

section \<open>Inserting the completion\<close>

text \<open>Output does not depend on the line.\<close>

lemma emits_buffer: "emits cs (k\<lparr>k_buffer := b\<rparr>) = map_option (\<lambda>k'. k'\<lparr>k_buffer := b\<rparr>) (emits cs k)"
  by (cases k) (simp add: emits_def on_term_def split: bind_splits)

lemma emits_pos: "emits cs (k\<lparr>k_pos := p\<rparr>) = map_option (\<lambda>k'. k'\<lparr>k_pos := p\<rparr>) (emits cs k)"
  by (cases k) (simp add: emits_def on_term_def split: bind_splits)

lemma insert_loop_spec:
  assumes t: "len \<le> length t" "len \<le> 254"
  shows "i \<le> len \<Longrightarrow> length (k_buffer k) = 256 \<Longrightarrow>
    insert_loop (t @ [0]) (int len) (int i) k =
      emits (drop i (take len t)) (k\<lparr>k_buffer := overwrite (k_buffer k) i (drop i (take len t))\<rparr>)"
proof (induction "len - i" arbitrary: i k)
  case 0
  then show ?case by (subst insert_loop.simps) simp
next
  case (Suc d)
  then have i: "i < len" by simp
  have c: "rdi (t @ [0]) (int i) = Some (t ! i)" using i t(1) by (simp add: nth_append)
  have d: "drop i (take len t) = t ! i # drop (Suc i) (take len t)"
    using i t(1) by (subst Cons_nth_drop_Suc [symmetric]) simp_all
  let ?b = "(k_buffer k)[i := t ! i]" and ?ds = "drop (Suc i) (take len t)"
  have w: "wri (k_buffer k) (int i) (t ! i) = Some ?b" using i t(2) Suc.prems(2) by simp
  have o: "overwrite (k_buffer k) i (t ! i # ?ds) = overwrite ?b (Suc i) ?ds"
    using Suc.prems(2) i t(2) by (subst overwrite_Cons) simp_all
  have "insert_loop (t @ [0]) (int len) (int i) k =
      do { k' \<leftarrow> putc (t ! i) (k\<lparr>k_buffer := ?b\<rparr>); insert_loop (t @ [0]) (int len) (int (Suc i)) k' }"
    using i t(2) c w by (subst insert_loop.simps) (simp add: BUFFER_SIZE_def add.commute)
  also have "\<dots> = emits (t ! i # ?ds) (k\<lparr>k_buffer := overwrite ?b (Suc i) ?ds\<rparr>)"
  proof (cases "emits [t ! i] k")
    case None
    then show ?thesis using emits_append [of "[t ! i]" ?ds] by (simp add: putc_emits emits_buffer)
  next
    case (Some k')
    let ?k = "k'\<lparr>k_buffer := ?b\<rparr>"
    have "insert_loop (t @ [0]) (int len) (int (Suc i)) ?k = emits ?ds (?k\<lparr>k_buffer := overwrite (k_buffer ?k) (Suc i) ?ds\<rparr>)"
      using Suc.hyps(2) Suc.prems i by (intro Suc.hyps(1)) simp_all
    then show ?thesis using Some emits_append [of "[t ! i]" ?ds] by (simp add: putc_emits emits_buffer)
  qed
  finally show ?case unfolding d o .
qed

text \<open>The line after an insertion is the completed word, with a space after a whole one.\<close>

lemma shell_insert_completion_spec:
  fixes sp :: bool
  assumes ok: "kernel_ok k" and b: "k_buffer k = l @ rest" "length (k_buffer k) = 256" and p: "k_pos k = int (length l)"
    and t: "0 \<notin> set (lit m)" "length (lit m) \<le> 9" "prefix l (take len (lit m))" "len \<le> length (lit m)"
  defines "new \<equiv> take len (lit m) @ (if sp then [32] else [])"
  shows "\<exists>b'. shell_insert_completion m (int len) sp k =
      emits (drop (length l) new) (k\<lparr>k_buffer := b', k_pos := int (length new)\<rparr>) \<and> is_line b' \<and> cstring b' = new"
proof -
  let ?w = "take len (lit m)"
  obtain z where z: "?w = l @ z" using t(3) by (auto simp: prefix_def)
  have n: "length l + length z = len" "len \<le> 9" using arg_cong [OF z, of length] t(2,4) by simp_all
  have wz: "0 \<notin> set ?w" using t(1) by (auto dest: in_set_takeD)
  define xs where "xs = drop (length z) rest"
  have xs: "length xs = 256 - len" "2 \<le> length xs" using b n by (simp_all add: xs_def)
  then obtain x y ys where x: "xs = x # y # ys" by (cases xs; cases "tl xs") auto
  have o: "overwrite (k_buffer k) (length l) z = l @ z @ xs" using b by (simp add: overwrite_def xs_def)
  have loop: "insert_loop (lit m @ [0]) (int len) (int (length l)) k = emits z (k\<lparr>k_buffer := l @ z @ xs\<rparr>)"
    using insert_loop_spec [of len "lit m" "length l" k] t(4) n b(2) z o by simp
  have line: "is_line (?w @ sps @ 0 # us) \<and> cstring (?w @ sps @ 0 # us) = ?w @ sps"
    if "0 \<notin> set sps" "len + length sps + length us = 255" for sps us
  proof -
    have "str_at ((?w @ sps) @ 0 # us) 0 (?w @ sps)" using wz that(1) by (intro buffer_str) simp
    moreover have "length ((?w @ sps) @ 0 # us) = 256" using that(2) t(4) by simp
    ultimately show ?thesis using is_lineI by fastforce
  qed
  have w0: "wri (?w @ c # us) (int len) v = Some (?w @ v # us)" for c us v
    using t(4) by (simp add: list_update_append)
  have w1: "wri (?w @ c # y # us) (int len + 1) v = Some (?w @ c # v # us)" for c us v
  proof -
    have "int len + 1 = int (Suc len)" by simp
    then show ?thesis using t(4) by (simp only: wri_nat) (simp add: list_update_append)
  qed
  obtain k' where k': "emits z k = Some k'" using emits_ok [OF ok] by blast
  let ?b = "?w @ (if sp then 32 # 0 # ys else 0 # y # ys)"
  have B: "l @ z @ xs = ?w @ x # y # ys" using z x by simp
  have loop': "insert_loop (lit m @ [0]) (int len) (int (length l)) k = Some (k'\<lparr>k_buffer := ?w @ x # y # ys\<rparr>)"
    using loop k' unfolding B by (simp add: emits_buffer)
  have swap: "k'\<lparr>k_pos := q, k_buffer := u\<rparr> = k'\<lparr>k_buffer := u, k_pos := q\<rparr>" for q u by simp
  have "shell_insert_completion m (int len) sp k =
      emits (if sp then [32] else []) (k'\<lparr>k_buffer := ?b, k_pos := int (length new)\<rparr>)"
    using p n t(4) w1 unfolding B new_def
    by (simp add: shell_insert_completion_def loop' w0 swap putc_emits BUFFER_SIZE_def Let_def del: wri_nat)
  also have "\<dots> = emits (drop (length l) new) (k\<lparr>k_buffer := ?b, k_pos := int (length new)\<rparr>)"
    using k' z by (simp add: new_def emits_append emits_buffer emits_pos)
  finally have "shell_insert_completion m (int len) sp k =
      emits (drop (length l) new) (k\<lparr>k_buffer := ?b, k_pos := int (length new)\<rparr>)" .
  moreover have "is_line ?b \<and> cstring ?b = new"
    using line [of "[32]" ys] line [of "[]" "y # ys"] xs x n by (cases sp) (simp_all add: new_def)
  ultimately show ?thesis by blast
qed

section \<open>The completed line\<close>

text \<open>The bytes before and after the cursor, and what is printed.\<close>

definition completed :: "byte list \<Rightarrow> byte list \<Rightarrow> byte list \<Rightarrow> byte list \<times> byte list \<times> byte list" where
  "completed prompt l r = (let ms = candidates l; p = common_prefix (map lit ms) in
     if 32 \<in> set l \<or> ms = [] then (l, r, [])
     else if length ms = 1 then (p @ [32], [], drop (length l) (p @ [32]))
     else if length l < length p then (p, [], drop (length l) p)
     else (l, r, 10 # concat (map (\<lambda>m. lit m @ [32, 32]) ms) @ [10] @ prompt @ l @ r))"

lemma list_matches_emits:
  "\<forall>m \<in> set ms. CHR 0x00 \<notin> set m \<Longrightarrow> list_matches ms k = emits (concat (map (\<lambda>m. lit m @ [32, 32]) ms)) k"
proof (induction ms arbitrary: k)
  case (Cons m ms)
  have "lit ''  '' = [32, 32]" by (simp add: lit_def)
  then have "prints m = emits (lit m)" "prints ''  '' = emits [32, 32]" using Cons.prems by (simp_all add: prints_lit)
  then show ?case using Cons by (simp add: emits_append [symmetric] bind_assoc del: lit_simps)
qed simp

text \<open>The listing of the candidates, with the prompt and the line printed again.\<close>

lemma listing_emits:
  assumes ok: "kernel_ok k" and s: "str_at (k_buffer k) 0 cs" and ms: "\<forall>m \<in> set ms. CHR 0x00 \<notin> set m"
  shows "do { k \<leftarrow> putc 10 k; k \<leftarrow> list_matches ms k; k \<leftarrow> putc 10 k; k \<leftarrow> shell_render_prompt k;
      on_term (terminal_writestring (k_buffer k) 0) k } =
    emits (10 # concat (map (\<lambda>m. lit m @ [32, 32]) ms) @ [10] @ prompt_text (cstring (k_user k)) (cstring (k_os k)) @ cs) k"
    (is "?l = emits ?out k")
proof -
  let ?ms = "concat (map (\<lambda>m. lit m @ [32, 32]) ms)" and ?prompt = "prompt_text (cstring (k_user k)) (cstring (k_os k))"
  have lm: "list_matches ms k = emits ?ms k" for k using list_matches_emits [OF ms] .
  have l: "?l = do { k \<leftarrow> emits ([10] @ ?ms @ [10]) k; k \<leftarrow> shell_render_prompt k;
      on_term (terminal_writestring (k_buffer k) 0) k }"
    unfolding lm putc_emits emits_append by (simp only: bind_assoc)
  obtain k1 where k1: "emits ([10] @ ?ms @ [10]) k = Some k1" "kernel_ok k1" using emits_ok [OF ok] by blast
  note f1 = emits_fields [OF k1(1)]
  obtain k2 where k2: "emits ?prompt k1 = Some k2" using emits_ok [OF k1(2)] by blast
  have "shell_render_prompt k1 = Some k2" using shell_render_prompt_emits [OF k1(2)] f1 k2 by simp
  moreover have "on_term (terminal_writestring (k_buffer k2) 0) k2 = emits cs k2"
    using emits_fields [OF k2] f1 s by (intro writestring_emits) simp
  moreover have "emits ?out k = do { k \<leftarrow> emits ([10] @ ?ms @ [10]) k; k \<leftarrow> emits ?prompt k; emits cs k }"
    using emits_append [of "[10] @ ?ms @ [10]" "?prompt @ cs"] by (simp add: emits_append)
  ultimately show ?thesis unfolding l using k1(1) k2 by simp
qed

lemma command_completion_spec:
  assumes ok: "kernel_ok k" and l: "cstring (k_buffer k) = l @ r" "k_pos k = int (length l)"
    and c: "completed (prompt_text (cstring (k_user k)) (cstring (k_os k))) l r = (l', r', out)"
  shows "\<exists>b. command_completion k = emits out (k\<lparr>k_buffer := b, k_pos := int (length l')\<rparr>) \<and> is_line b \<and>
    cstring b = l' @ r'"
proof -
  let ?ms = "candidates l" and ?b = "k_buffer k"
  let ?p = "common_prefix (map lit ?ms)"
  have line: "is_line ?b" "length ?b = 256" using ok by (simp_all add: kernel_ok_def is_line_def)
  have str: "str_at ?b 0 (l @ r)" using is_line_str_at [OF line(1)] unfolding l(1) .
  obtain rest where b: "?b = l @ r @ 0 # rest" "0 \<notin> set (l @ r)" using str by (auto simp: str_at_0_iff)
  have sp: "has_space ?b 0 (length l) = Some (32 \<in> set l)"
    using has_space_spec [of 0 "length l" ?b] b(1) by simp
  note loop = candidates_loop [OF str]
  have names: "CHR 0x00 \<notin> set m" "length (lit m) \<le> 9" "prefix l (lit m)" if "m \<in> set ?ms" for m
    using that command_list_chars [of m] by (auto simp: candidates_def lit_def)
  have same: ?thesis if "command_completion k = emits out k" "l' = l" "r' = r"
  proof -
    have "k\<lparr>k_buffer := ?b, k_pos := int (length l')\<rparr> = k" using that(2) l(2) by (cases k) simp
    then show ?thesis using that l(1) line(1) by (intro exI [of _ ?b]) (simp only: simp_thms)
  qed
  consider (none) "32 \<in> set l \<or> ?ms = []" | (one) m where "32 \<notin> set l" "?ms = [m]"
    | (more) m n ns where "32 \<notin> set l" "?ms = m # n # ns" by (cases ?ms; cases "tl ?ms") auto
  then show ?thesis
  proof cases
    case none
    then have "l' = l" "r' = r" "out = []" using c by (auto simp: completed_def Let_def)
    then show ?thesis using none sp l(2) loop by (intro same) (auto simp: command_completion_def Let_def)
  next
    case one
    have m: "CHR 0x00 \<notin> set m" "length (lit m) \<le> 9" "prefix l (lit m)" using names one(2) by simp_all
    have e: "l' = lit m @ [32]" "r' = []" "out = drop (length l) (lit m @ [32])"
      using c one by (auto simp: completed_def Let_def)
    have "command_completion k = shell_insert_completion m (int (length (lit m))) True k"
      using one sp l(2) loop strlen_str_at [OF str_at_lit [OF lit_nonzero [OF m(1)]]] by (simp add: command_completion_def rd_def)
    then show ?thesis
      using shell_insert_completion_spec [OF ok b(1) line(2) l(2) lit_nonzero [OF m(1)] m(2), of "length (lit m)" True] m(3)
      unfolding e by simp
  next
    case more
    have m: "CHR 0x00 \<notin> set m" "length (lit m) \<le> 9" using names more(2) by simp_all
    have pm: "prefix ?p (lit m)" using common_prefix_greatest [of "map lit ?ms" ?p] more(2) by simp
    have pl: "prefix l ?p" using common_prefix_greatest [of "map lit ?ms" l] more(2) names by auto
    have lcp: "match_lcp ?ms = int (length ?p)" using more(2) by (simp add: match_lcp_def)
    show ?thesis
    proof (cases "length l < length ?p")
      case True
      have e: "l' = ?p" "r' = []" "out = drop (length l) ?p"
        using c more True by (auto simp: completed_def Let_def)
      have t: "take (length ?p) (lit m) = ?p" "length ?p \<le> length (lit m)" using pm by (auto simp: prefix_def)
      have "command_completion k = shell_insert_completion m (int (length ?p)) False k"
        using more sp l(2) loop lcp True by (simp add: command_completion_def rd_def)
      then show ?thesis
        using shell_insert_completion_spec [OF ok b(1) line(2) l(2) lit_nonzero [OF m(1)] m(2), of "length ?p" False] t pl
        unfolding e by simp
    next
      case False
      have e: "l' = l" "r' = r"
        "out = 10 # concat (map (\<lambda>m. lit m @ [32, 32]) ?ms) @ [10] @ prompt_text (cstring (k_user k)) (cstring (k_os k)) @ l @ r"
        using c more False by (auto simp: completed_def Let_def)
      have "command_completion k = do { k \<leftarrow> putc 10 k; k \<leftarrow> list_matches ?ms k; k \<leftarrow> putc 10 k;
          k \<leftarrow> shell_render_prompt k; on_term (terminal_writestring (k_buffer k) 0) k }"
        using more sp l(2) loop lcp False by (simp add: command_completion_def)
      also have "\<dots> = emits out k" unfolding e(3) using listing_emits [OF ok str] names(1) by blast
      finally show ?thesis using e(1,2) by (intro same)
    qed
  qed
qed

section \<open>Properties\<close>

text \<open>C23: Tab completes the command name before the cursor: a single candidate becomes the line, with a space; several are
  completed to their longest common prefix, or listed with the prompt and the line below when the line has that
  already; with no candidate or a space before the cursor nothing changes.\<close>

theorem completion_correct:
  assumes "kernel_ok k" "cstring (k_buffer k) = l @ r" "k_pos k = int (length l)"
    and "completed (prompt_text (cstring (k_user k)) (cstring (k_os k))) l r = (l', r', out)"
  shows "\<exists>b. command_completion k = emits out (k\<lparr>k_buffer := b, k_pos := int (length l')\<rparr>) \<and> is_line b \<and>
    cstring b = l' @ r'"
  using assms by (rule command_completion_spec)

theorem completion_correct_witness:
  "\<exists>b. command_completion (example_kernel\<lparr>k_buffer := lit ''sX'' @ replicate 254 0, k_pos := 1\<rparr>) =
       emits (lit ''etprompt '') (example_kernel\<lparr>k_buffer := b, k_pos := 10\<rparr>) \<and> is_line b \<and> cstring b = lit ''setprompt ''"
proof -
  let ?k = "example_kernel\<lparr>k_buffer := lit ''sX'' @ replicate 254 0, k_pos := 1\<rparr>"
  have z: "str_at (k_buffer ?k) 0 (lit ''s'' @ lit ''X'')" by (simp add: lit_def str_at_0_iff)
  then have c: "cstring (k_buffer ?k) = lit ''s'' @ lit ''X''" by (rule cstring_str_at)
  have "is_line (k_buffer ?k)" using is_lineI [OF z] by (simp add: lit_def)
  moreover have "length (cstring (k_buffer ?k)) = 2" unfolding c by (simp add: lit_def)
  ultimately have ok: "kernel_ok ?k" using example_kernel_ok by (simp add: kernel_ok_def)
  have "candidates (lit ''s'') = [''setprompt'']" by (simp add: candidates_def command_list_def lit_def)
  then have "completed (prompt_text (cstring (k_user ?k)) (cstring (k_os ?k))) (lit ''s'') (lit ''X'') =
      (lit ''setprompt '', [], lit ''etprompt '')" by (simp add: completed_def lit_def)
  from completion_correct [OF ok c _ this] show ?thesis by (simp add: lit_def)
qed

end
