(* ===== verification/Safe_Keys.thy ===== *)
theory Safe_Keys
  imports Completion Boot_Spec
begin

text \<open>
  Steps that return in every state of the right shape and keep it, and the keys but Enter among them: whatever
  the line is, a key returns, keeps the kernel's invariant and does not touch the heap.
\<close>

section \<open>Steps that keep the invariant\<close>

text \<open>
  Nothing is allocated: the heap is the one free block it starts with. And no page of the kernel's own memory is free,
  so the frame allocator hands none of them out.
\<close>

definition heap_idle :: "heap \<Rightarrow> bool" where
  "heap_idle h \<longleftrightarrow> heap_rep h [(HEAP_VIRT_START, 65520, True)] \<and> apart (phys (hmm h))"

text \<open>A command starts with the line cut into words, when \<open>buffer_pos\<close> still is the old one.\<close>

definition shape_ok :: "kernel \<Rightarrow> bool" where
  "shape_ok k \<longleftrightarrow> kernel_ok (k\<lparr>k_pos := 0\<rparr>) \<and> heap_idle (k_heap k)"

definition safe_step :: "(kernel \<Rightarrow> kernel option) \<Rightarrow> bool" where
  "safe_step f \<longleftrightarrow> (\<forall>k. shape_ok k \<longrightarrow> (\<exists>k'. f k = Some k' \<and> shape_ok k'))"

named_theorems safes \<comment> \<open>steps of the commands that return and keep the shape of the state\<close>

lemma safe_term [safes]:
  assumes "\<And>t. term_ok t \<Longrightarrow> \<exists>t'. f t = Some t' \<and> term_ok t'"
  shows "safe_step (on_term f)"
  unfolding safe_step_def
proof (intro allI impI)
  fix k :: kernel assume k: "shape_ok k"
  then obtain t where "f (k_term k) = Some t" "term_ok t" using assms by (auto simp: shape_ok_def kernel_ok_def)
  then show "\<exists>k'. on_term f k = Some k' \<and> shape_ok k'" using k by (simp add: on_term_def shape_ok_def kernel_ok_def)
qed

lemma safe_emits [safes]: "safe_step (emits cs)"
  unfolding emits_def by (rule safe_term) (rule vga.puts_ok)

lemma safe_prints [safes]: "CHR 0x00 \<notin> set s \<Longrightarrow> safe_step (prints s)"
  using safe_emits prints_lit by metis

lemma safe_bus [safes]: "live_step f \<Longrightarrow> safe_step (on_bus f)"
  unfolding safe_step_def live_step_def
proof (intro allI impI)
  fix k :: kernel assume f: "\<forall>b. uart_live b \<longrightarrow> (\<exists>b'. f b = Some b' \<and> uart_live b')" and k: "shape_ok k"
  then obtain b where "f (k_bus k) = Some b" "uart_live b" by (auto simp: shape_ok_def kernel_ok_def)
  then show "\<exists>k'. on_bus f k = Some k' \<and> shape_ok k'" using k by (simp add: on_bus_def shape_ok_def kernel_ok_def)
qed

lemma safe_bind [safes]: "safe_step f \<Longrightarrow> safe_step g \<Longrightarrow> safe_step (\<lambda>k. do { k \<leftarrow> f k; g k })"
  unfolding safe_step_def by fastforce

lemma safe_Some [safes]: "safe_step Some"
  by (simp add: safe_step_def)

lemma safe_if [safes]: "(c \<Longrightarrow> safe_step f) \<Longrightarrow> (\<not> c \<Longrightarrow> safe_step g) \<Longrightarrow> safe_step (\<lambda>k. if c then f k else g k)"
  by (cases c) simp_all

lemma safe_serial [safes]: "CHR 0x00 \<notin> set s \<Longrightarrow> safe_step (serial_puts s)"
proof -
  assume "CHR 0x00 \<notin> set s"
  then have "0 \<in> set (lit s @ [0])" by simp
  from safe_bus [OF live_write [OF this]] show ?thesis unfolding serial_puts_def by simp
qed

section \<open>The keys\<close>

text \<open>The line in parts, and the state with another line.\<close>

lemma line_parts:
  assumes "kernel_ok k"
  obtains l r rest where "k_buffer k = l @ r @ 0 # rest" "0 \<notin> set (l @ r)" "length l + length r + length rest = 255"
    "k_pos k = int (length l)" "cstring (k_buffer k) = l @ r"
proof -
  let ?cs = "cstring (k_buffer k)" and ?n = "nat (k_pos k)"
  have line: "is_line (k_buffer k)" "?n \<le> length ?cs" "0 \<le> k_pos k" using assms by (auto simp: kernel_ok_def)
  obtain rest where r: "k_buffer k = ?cs @ 0 # rest" "0 \<notin> set ?cs" "length ?cs + length rest = 255"
    using line_split [OF is_line_str_at [OF line(1)]] line(1) by (auto simp: is_line_def)
  show ?thesis
  proof (rule that [of "take ?n ?cs" "drop ?n ?cs" rest])
    show "k_buffer k = take ?n ?cs @ drop ?n ?cs @ 0 # rest"
      unfolding append_assoc [symmetric] append_take_drop_id by (rule r(1))
  qed (use r line in auto)
qed

lemma kernel_ok_line:
  assumes "kernel_ok k" "0 \<notin> set (l @ r)" "length l + length r + length rest = 255"
  shows "kernel_ok (k\<lparr>k_buffer := l @ r @ 0 # rest, k_pos := int (length l)\<rparr>)" "cstring (l @ r @ 0 # rest) = l @ r"
proof -
  have s: "str_at (l @ r @ 0 # rest) 0 (l @ r)" using buffer_str [of "l @ r" rest] assms(2) by simp
  then show c: "cstring (l @ r @ 0 # rest) = l @ r" by (rule cstring_str_at)
  have "length (l @ r @ 0 # rest) = 256" using assms(3) by simp
  then show "kernel_ok (k\<lparr>k_buffer := l @ r @ 0 # rest, k_pos := int (length l)\<rparr>)"
    using is_lineI [OF s] assms(1) c by (simp add: kernel_ok_def)
qed

lemma kernel_ok_pos:
  "kernel_ok k \<Longrightarrow> 0 \<le> p \<Longrightarrow> p \<le> int (length (cstring (k_buffer k))) \<Longrightarrow> kernel_ok (k\<lparr>k_pos := p\<rparr>)"
  by (simp add: kernel_ok_def)

lemma move_ok:
  "kernel_ok k \<Longrightarrow> - 2000000000 \<le> d \<Longrightarrow> d \<le> 2000000000 \<Longrightarrow>
   \<exists>k'. on_term (terminal_move_cursor d) k = Some k' \<and> kernel_ok k' \<and> same_but_term k k'"
  by (rule on_term_ok) (use terminal_move_cursor_ok in blast)+

lemma erase_ok: "kernel_ok k \<Longrightarrow> \<exists>k'. on_term terminal_backspace k = Some k' \<and> kernel_ok k' \<and> same_but_term k k'"
  by (rule on_term_ok) (use terminal_backspace_ok in blast)+

lemma write_tail_ok:
  assumes "kernel_ok k"
  shows "\<exists>k'. write_tail k = Some k' \<and> kernel_ok k' \<and> same_but_term k k'"
proof -
  obtain l r rest where k: "k_buffer k = l @ r @ 0 # rest" "0 \<notin> set (l @ r)" "k_pos k = int (length l)"
    using line_parts [OF assms] by blast
  have "str_at (k_buffer k) (length l) r" unfolding k(1) using tail_str [OF k(2)] .
  then show ?thesis using writestring_ok [OF assms] k(3) by (simp add: write_tail_def)
qed

lemma key_insert_safe:
  assumes ok: "kernel_ok k" and c: "c \<noteq> 0"
  shows "\<exists>k'. key_insert c k = Some k' \<and> kernel_ok k'"
proof -
  obtain l r rest where k: "k_buffer k = l @ r @ 0 # rest" "0 \<notin> set (l @ r)" "length l + length r + length rest = 255"
    "k_pos k = int (length l)" using line_parts [OF ok] by metis
  have len: "strlen (k_buffer k) 0 = Some (length l + length r)"
    using strlen_str_at [OF buffer_str [OF k(2), of rest]] k(1) by simp
  show ?thesis
  proof (cases "rest = []")
    case True
    then show ?thesis using ok k(3) len by (simp add: key_insert_def BUFFER_SIZE_def)
  next
    case False
    let ?b = "l @ c # r @ 0 # tl rest"
    have n: "length l + length (c # r) + length (tl rest) = 255"
      using k(3) False by (cases rest) simp_all
    have z: "0 \<notin> set (l @ c # r)" using k(2) c by simp
    have "k\<lparr>k_buffer := ?b, k_pos := int (length l)\<rparr> = k\<lparr>k_buffer := ?b\<rparr>" using k(4) by (cases k) simp
    then have "kernel_ok (k\<lparr>k_buffer := ?b\<rparr>)" using kernel_ok_line(1) [OF ok z n] by simp
    from write_tail_ok [OF this] obtain k1 where k1: "write_tail (k\<lparr>k_buffer := ?b\<rparr>) = Some k1" "kernel_ok k1"
      "same_but_term (k\<lparr>k_buffer := ?b\<rparr>) k1" by blast
    have f: "k_buffer k1 = ?b" "k_pos k1 = int (length l)" using same_but_term_simps [OF k1(3)] k(4) by simp_all
    have "cstring ?b = l @ c # r" using kernel_ok_line(2) [OF ok z n] by simp
    then have "kernel_ok (k1\<lparr>k_pos := k_pos k1 + 1\<rparr>)" using f by (intro kernel_ok_pos [OF k1(2)]) simp_all
    from move_ok [OF this, of "- int (length r)"] obtain k2 where
      "on_term (terminal_move_cursor (- int (length r))) (k1\<lparr>k_pos := k_pos k1 + 1\<rparr>) = Some k2" "kernel_ok k2"
      using k(3) by auto
    then show ?thesis using key_insert_eq [OF k False] k1(1) by simp
  qed
qed

lemma key_backspace_safe:
  assumes ok: "kernel_ok k"
  shows "\<exists>k'. key_backspace k = Some k' \<and> kernel_ok k'"
proof (cases "k_pos k > 0")
  case False
  then show ?thesis using ok by (simp add: key_backspace_def)
next
  case True
  obtain l0 r rest where k0: "k_buffer k = l0 @ r @ 0 # rest" "0 \<notin> set (l0 @ r)" "length l0 + length r + length rest = 255"
    "k_pos k = int (length l0)" using line_parts [OF ok] by metis
  then obtain l c where l: "l0 = l @ [c]" using True by (cases l0 rule: rev_cases) auto
  let ?b = "l @ r @ 0 # 0 # rest"
  have k: "k_buffer k = l @ c # r @ 0 # rest" "0 \<notin> set (l @ c # r)" "k_pos k = int (length l + 1)" using k0 l by simp_all
  have z: "0 \<notin> set (l @ r)" using k(2) by auto
  have n: "length l + length r + length (0 # rest) = 255" using k0(3) l by simp
  let ?k = "k\<lparr>k_buffer := ?b, k_pos := int (length l)\<rparr>"
  from erase_ok [OF kernel_ok_line(1) [OF ok z n]] obtain k1 where k1: "on_term terminal_backspace ?k = Some k1" "kernel_ok k1" by blast
  obtain k2 where k2: "write_tail k1 = Some k2" "kernel_ok k2" using write_tail_ok [OF k1(2)] by blast
  obtain k3 where k3: "putc 32 k2 = Some k3" "kernel_ok k3" using putc_ok [OF k2(2)] by blast
  obtain k4 where k4: "on_term (terminal_move_cursor (- 1 - int (length r))) k3 = Some k4" "kernel_ok k4"
    using move_ok [OF k3(2), of "- 1 - int (length r)"] k0(3) by auto
  then show ?thesis using key_backspace_eq [OF k] k1(1) k2(1) k3(1) by simp
qed

lemma moves_safe:
  assumes ok: "kernel_ok k"
  shows "\<exists>k'. shell_buffer_pos_decrement k = Some k' \<and> kernel_ok k'"
    "\<exists>k'. shell_buffer_pos_increment k = Some k' \<and> kernel_ok k'"
proof -
  obtain l r rest where k: "k_buffer k = (l @ r) @ 0 # rest" "0 \<notin> set (l @ r)" "k_pos k = int (length l)" "cstring (k_buffer k) = l @ r"
    using line_parts [OF ok] by (metis append_assoc)
  show "\<exists>k'. shell_buffer_pos_decrement k = Some k' \<and> kernel_ok k'"
    using ok move_ok [OF kernel_ok_pos [OF ok, of "k_pos k - 1"], of "-1"] k
    by (fastforce simp: shell_buffer_pos_decrement_def)
  have "strlen (k_buffer k) 0 = Some (length (l @ r))"
    using strlen_str_at [OF buffer_str [OF k(2), of rest]] k(1) by simp
  moreover have "\<exists>k'. on_term (terminal_move_cursor 1) (k\<lparr>k_pos := k_pos k + 1\<rparr>) = Some k' \<and> kernel_ok k'" if "r \<noteq> []"
  proof -
    have "k_pos k + 1 \<le> int (length (cstring (k_buffer k)))" using that k(3,4) by (cases r) simp_all
    then show ?thesis using move_ok [OF kernel_ok_pos [OF ok, of "k_pos k + 1"], of 1] k(3) by auto
  qed
  ultimately show "\<exists>k'. shell_buffer_pos_increment k = Some k' \<and> kernel_ok k'"
    using ok k(3) by (cases "r = []") (simp_all add: shell_buffer_pos_increment_def)
qed

lemma shell_history_safe:
  assumes ok: "kernel_ok k"
  shows "\<exists>k'. shell_history a k = Some k' \<and> kernel_ok k'"
proof -
  let ?cs = "cstring (k_buffer k)"
  have line: "is_line (k_buffer k)" "length (k_buffer k) = 256" and hok: "history_ok (k_hist k)"
    and pos: "0 \<le> k_pos k" "k_pos k \<le> int (length ?cs)" using ok by (simp_all add: kernel_ok_def is_line_def)
  have str: "str_at (k_buffer k) 0 ?cs" by (rule is_line_str_at [OF line(1)])
  have n: "length ?cs \<le> 255" using str_at_length [OF str] line(2) by simp
  obtain k1 where k1: "on_term (terminal_move_cursor (int (length ?cs) - k_pos k)) k = Some k1" "kernel_ok k1" "same_but_term k k1"
    using move_ok [OF ok, of "int (length ?cs) - k_pos k"] n pos by auto
  note f1 = same_but_term_simps [OF k1(3)]
  obtain h r where h: "(if a = 1 then history_prev (k_hist k1) (Some (k_buffer k1, 0)) else history_next (k_hist k1)) = Some (h, r)"
    "history_ok h" using history_prev_refines [OF hok str] history_next_refines [OF hok] f1 by (cases "a = 1") auto
  let ?I = "\<lambda>_ k2. kernel_ok k2 \<and> same_but_term (k1\<lparr>k_hist := h\<rparr>) k2"
  have "\<exists>k2. for_upto 0 (length ?cs) (\<lambda>x. on_term terminal_backspace) (k1\<lparr>k_hist := h\<rparr>) = Some k2 \<and> ?I (length ?cs) k2"
  proof (rule for_upto_inv [where I = ?I])
    show "?I 0 (k1\<lparr>k_hist := h\<rparr>)" using k1(2) h(2) by (simp add: kernel_ok_def)
    fix j k2 assume "?I j k2"
    then show "\<exists>k3. on_term terminal_backspace k2 = Some k3 \<and> ?I (Suc j) k3"
      using erase_ok same_but_term_trans by metis
  qed simp
  then obtain k2 where k2: "for_upto 0 (length ?cs) (\<lambda>x. on_term terminal_backspace) (k1\<lparr>k_hist := h\<rparr>) = Some k2" "kernel_ok k2"
    "k_hist k2 = h" "k_buffer k2 = k_buffer k" using same_but_term_simps f1 by fastforce
  obtain cur where cur: "history_getcurrentcommand h = Some cur" "str_at cur 0 (log_line (history_view h))" "length cur = 256"
    using history_current [OF h(2)] by blast
  let ?b = "overwrite (k_buffer k) 0 (log_line (history_view h) @ [0])"
  have m: "length (log_line (history_view h)) \<le> 255" using str_at_length [OF cur(2)] cur(3) by simp
  have cp: "strlcpy (k_buffer k) 0 cur 0 BUFFER_SIZE = Some ?b"
    using strlcpy_str_at [OF cur(2), of BUFFER_SIZE 0 "k_buffer k"] line(2) m by (simp add: BUFFER_SIZE_def)
  have sb: "str_at ?b 0 (log_line (history_view h))"
    using str_at_nonzero [OF cur(2)] m line(2) by (intro str_at_overwrite) simp_all
  have "length ?b = 256" using m line(2) by (simp add: overwrite_def)
  then have "kernel_ok (k2\<lparr>k_buffer := ?b, k_pos := int (length (log_line (history_view h)))\<rparr>)"
    using k2(2) is_lineI [OF sb] cstring_str_at [OF sb] by (simp add: kernel_ok_def)
  from writestring_ok [OF this sb] obtain k3 where
    "on_term (terminal_writestring ?b 0) (k2\<lparr>k_buffer := ?b, k_pos := int (length (log_line (history_view h)))\<rparr>) = Some k3" "kernel_ok k3"
    by blast
  then show ?thesis unfolding shell_history_def
    using strlen_str_at [OF str] k1(1) h(1) k2 cur(1) cp strlen_str_at [OF sb] by simp
qed

lemma completion_safe:
  assumes ok: "kernel_ok k"
  shows "\<exists>k'. command_completion k = Some k' \<and> kernel_ok k'"
proof -
  obtain l r where k: "cstring (k_buffer k) = l @ r" "k_pos k = int (length l)" using line_parts [OF ok] by metis
  obtain l' r' out where c: "completed (prompt_text (cstring (k_user k)) (cstring (k_os k))) l r = (l', r', out)" by (metis prod_cases3)
  obtain b where b: "command_completion k = emits out (k\<lparr>k_buffer := b, k_pos := int (length l')\<rparr>)" "is_line b" "cstring b = l' @ r'"
    using command_completion_spec [OF ok k c] by blast
  have "kernel_ok (k\<lparr>k_buffer := b, k_pos := int (length l')\<rparr>)" using ok b(2,3) by (simp add: kernel_ok_def)
  then show ?thesis using emits_ok b(1) by metis
qed

text \<open>Every key but Enter.\<close>

lemma clear_screen_safe:
  assumes "kernel_ok k"
  shows "\<exists>k'. shell_handle_key 0x0C k = Some (Running k') \<and> kernel_ok k' \<and> k_heap k' = k_heap k"
proof -
  obtain k1 where k1: "on_term terminal_clear k = Some k1" "kernel_ok k1" "same_but_term k k1" using on_term_ok [OF assms, of terminal_clear] clear_ok by blast
  have "kernel_ok (k1\<lparr>k_pos := 0\<rparr>)" by (rule kernel_ok_pos [OF k1(2)]) simp_all
  then obtain k2 where "shell_init (k1\<lparr>k_pos := 0\<rparr>) = Some k2" "kernel_ok k2"
      "k2 = k1\<lparr>k_pos := 0, k_term := k_term k2, k_buffer := replicate 256 0, k_pos := 0\<rparr>" using shell_init_spec by blast
  moreover have "k_heap k2 = k_heap k1" using arg_cong [OF calculation(3), of k_heap] by simp
  ultimately show ?thesis using k1(1) same_but_term_simps [OF k1(3)] by (simp add: shell_handle_key_def runs_def)
qed

lemma key_action_safe:
  assumes ok: "kernel_ok k" and e: "e \<noteq> Char 0" "e \<noteq> Char 10"
  shows "\<exists>k'. key_action e k = Some (Running k') \<and> kernel_ok k'"
proof (cases e)
  case (Char c)
  then have c: "c \<noteq> 0" "c \<noteq> 10" using e by simp_all
  consider "c = 0x0C" | "c = 8" | "c = 9" | "c \<noteq> 0x0C" "c \<noteq> 8" "c \<noteq> 9" by blast
  then show ?thesis
  proof cases
    case 1
    then show ?thesis using clear_screen_safe [OF ok] Char by auto
  qed (use Char c key_backspace_safe [OF ok] completion_safe [OF ok] key_insert_safe [OF ok c(1)]
      in \<open>auto simp: shell_handle_key_def runs_def\<close>)
qed (use ok moves_safe [OF ok] shell_history_safe [OF ok, of 1] shell_history_safe [OF ok, of 2] in \<open>auto simp: runs_def\<close>)

text \<open>No key but Enter reaches the heap.\<close>

lemma on_term_heap: "on_term f k = Some k' \<Longrightarrow> k_heap k' = k_heap k"
  by (auto simp: on_term_def bind_eq_Some_conv)

lemmas step_simps = bind_eq_Some_conv Let_def write_tail_def putc_def split_def

lemma editing_heap:
  "key_backspace k = Some k' \<Longrightarrow> k_heap k' = k_heap k"
  "key_insert c k = Some k' \<Longrightarrow> k_heap k' = k_heap k"
  "shell_buffer_pos_decrement k = Some k' \<Longrightarrow> k_heap k' = k_heap k"
  "shell_buffer_pos_increment k = Some k' \<Longrightarrow> k_heap k' = k_heap k"
  by (auto simp: key_backspace_def key_insert_def shell_buffer_pos_decrement_def shell_buffer_pos_increment_def step_simps
      dest!: on_term_heap split: if_splits)

lemma erase_loop_heap:
  "for_upto i n (\<lambda>x. on_term terminal_backspace) k = Some k' \<Longrightarrow> k_heap k' = k_heap k"
proof (induction "n - i" arbitrary: i k)
  case (Suc d)
  then have "i < n" by simp
  then obtain k1 where "on_term terminal_backspace k = Some k1" "for_upto (Suc i) n (\<lambda>x. on_term terminal_backspace) k1 = Some k'"
    using Suc.prems by (auto simp: for_upto_step bind_eq_Some_conv)
  then show ?case using Suc.hyps(1) [of "Suc i" k1] Suc.hyps(2) on_term_heap by force
qed simp

lemma shell_history_heap: "shell_history a k = Some k' \<Longrightarrow> k_heap k' = k_heap k"
  by (auto simp: shell_history_def step_simps dest!: on_term_heap erase_loop_heap)

lemma completion_heap:
  assumes ok: "kernel_ok k" and e: "command_completion k = Some k'"
  shows "k_heap k' = k_heap k"
proof -
  obtain l r where k: "cstring (k_buffer k) = l @ r" "k_pos k = int (length l)" using line_parts [OF ok] by metis
  obtain l' r' out where c: "completed (prompt_text (cstring (k_user k)) (cstring (k_os k))) l r = (l', r', out)" by (metis prod_cases3)
  show ?thesis using command_completion_spec [OF ok k c] e emits_fields by fastforce
qed

lemma key_action_heap:
  assumes ok: "kernel_ok k" and e: "e \<noteq> Char 10" "key_action e k = Some (Running k')"
  shows "k_heap k' = k_heap k"
proof (cases e)
  case (Char c)
  show ?thesis
  proof (cases "c = 0x0C")
    case True
    then show ?thesis using clear_screen_safe [OF ok] e(2) Char by auto
  next
    case False
    then show ?thesis using e Char editing_heap(1) [of k k'] editing_heap(2) [of c k k'] completion_heap [OF ok, of k']
      by (auto simp: shell_handle_key_def runs_def split: if_splits)
  qed
qed (use e editing_heap shell_history_heap in \<open>auto simp: runs_def\<close>)

end
