(* ===== verification/Heap_Memory.thy ===== *)
theory Heap_Memory
  imports Commands
begin

text \<open>
  The pages of the heap as a memory of bytes: a store at an address of the heap changes that byte and no
  other, though every access goes through the page tables and to a 32-bit word of a frame. \<open>load_bytes\<close> and
  \<open>store_bytes\<close> are what the code does with the memory of a block.
\<close>

section \<open>One byte\<close>

text \<open>Contents of frames have changed, and nothing else.\<close>

definition same_map :: "mm \<Rightarrow> mm \<Rightarrow> bool" where
  "same_map m m' \<longleftrightarrow> mm_ok m' \<and> phys m' = phys m \<and> (\<forall>v. translate m' v = translate m v) \<and>
     (\<forall>f. data_frame m' f = data_frame m f)"

lemma same_map_trans: "same_map m m1 \<Longrightarrow> same_map m1 m2 \<Longrightarrow> same_map m m2"
  by (simp add: same_map_def)

lemma same_map_backed: "same_map m m' \<Longrightarrow> backed m lo hi \<Longrightarrow> backed m' lo hi"
  unfolding same_map_def backed_def by simp

lemma same_map_heap: "same_map (hmm h) m \<Longrightarrow> heap_rep h bs \<Longrightarrow> heap_rep (h\<lparr>hmm := m\<rparr>) bs"
  using same_map_backed [of "hmm h" m] by (simp add: heap_rep_def same_map_def)

lemma backed_frame:
  "backed m lo hi \<Longrightarrow> lo \<le> unat v \<Longrightarrow> unat v < hi \<Longrightarrow> \<exists>f. translate m v = Some f \<and> data_frame m f"
  unfolding backed_def by blast

lemma store_heap_byte:
  assumes ok: "mm_ok m" and bk: "backed m lo hi" and a: "lo \<le> unat a" "unat a < hi"
  shows "\<exists>m'. store_byte a c m = Some m' \<and> same_map m m' \<and>
    (\<forall>b. lo \<le> unat b \<longrightarrow> unat b < hi \<longrightarrow> load_byte b m' = (if b = a then Some c else load_byte b m))"
proof -
  obtain f where f: "translate m a = Some f" "data_frame m f" using backed_frame [OF bk a] by blast
  from load_store_byte [OF ok f, of c] obtain m' ws where
    m': "store_byte a c m = Some m'" "mm_ok m'" "m' = m\<lparr>frames := (frames m)(f := ws)\<rparr>" "load_byte a m' = Some c"
      "\<forall>b g. translate m b = Some g \<longrightarrow> g \<noteq> f \<or> unat b mod 4096 \<noteq> unat a mod 4096 \<longrightarrow> load_byte b m' = load_byte b m"
      "\<forall>b. translate m' b = translate m b" by blast
  have "data_frame m' g = data_frame m g" for g using f(2) m'(3) by (simp add: data_frame_def)
  then have s: "same_map m m'" using m'(2,3,6) by (simp add: same_map_def)
  have "load_byte b m' = load_byte b m" if b: "lo \<le> unat b" "unat b < hi" "b \<noteq> a" for b
  proof -
    obtain g where g: "translate m b = Some g" using backed_frame [OF bk b(1,2)] by blast
    have "unat b mod 4096 \<noteq> unat a mod 4096" if "g = f"
    proof -
      have "unat b div 4096 = unat a div 4096" using bk a b g f(1) that by (simp add: backed_def)
      then show ?thesis using b(3) by (metis div_mult_mod_eq word_unat_eq_iff)
    qed
    then show ?thesis using m'(5) g by blast
  qed
  then show ?thesis using m'(1,4) s by auto
qed

section \<open>A block of bytes\<close>

lemma store_heap_bytes:
  assumes "mm_ok m" "backed m lo hi" "lo \<le> unat a" "unat a + length cs \<le> hi" "hi \<le> heap_top"
  shows "\<exists>m'. store_bytes a cs m = Some m' \<and> same_map m m' \<and>
    (\<forall>b. lo \<le> unat b \<longrightarrow> unat b < hi \<longrightarrow> load_byte b m' =
      (if unat a \<le> unat b \<and> unat b < unat a + length cs then Some (cs ! (unat b - unat a)) else load_byte b m))"
  using assms
proof (induction cs arbitrary: a m)
  case Nil
  then show ?case by (auto simp: same_map_def)
next
  case (Cons c cs)
  have a: "unat a < hi" using Cons.prems by simp
  have u: "unat (a + 1) = unat a + 1" using a Cons.prems(5) unat_add [of a 1] by simp
  obtain m1 where 1: "store_byte a c m = Some m1" "same_map m m1"
    "\<forall>b. lo \<le> unat b \<longrightarrow> unat b < hi \<longrightarrow> load_byte b m1 = (if b = a then Some c else load_byte b m)"
    using store_heap_byte [OF Cons.prems(1,2,3) a] by blast
  have "mm_ok m1" "backed m1 lo hi" using 1(2) same_map_backed [OF 1(2) Cons.prems(2)] by (simp_all add: same_map_def)
  with Cons.IH [of m1 "a + 1"] u Cons.prems(3,4,5) obtain m2 where
    2: "store_bytes (a + 1) cs m1 = Some m2" "same_map m1 m2"
      "\<forall>b. lo \<le> unat b \<longrightarrow> unat b < hi \<longrightarrow> load_byte b m2 =
        (if unat a + 1 \<le> unat b \<and> unat b < unat a + 1 + length cs then Some (cs ! (unat b - (unat a + 1))) else load_byte b m1)"
    by auto
  have "load_byte b m2 = (if unat a \<le> unat b \<and> unat b < unat a + length (c # cs)
      then Some ((c # cs) ! (unat b - unat a)) else load_byte b m)" if b: "lo \<le> unat b" "unat b < hi" for b
  proof -
    have e: "b = a \<longleftrightarrow> unat b = unat a" by (simp add: word_unat_eq_iff)
    show ?thesis using 1(3) 2(3) b e by (auto simp: nth_Cons' less_Suc_eq_le)
  qed
  then show ?case using 1(1) 2(1) same_map_trans [OF 1(2) 2(2)] by auto
qed

lemma load_bytes_nth:
  "length cs = n \<Longrightarrow> (\<And>i. i < n \<Longrightarrow> load_byte (a + of_nat i) m = Some (cs ! i)) \<Longrightarrow> load_bytes a n m = Some cs"
proof (induction n arbitrary: a cs)
  case (Suc n)
  obtain c ds where cs: "cs = c # ds" using Suc.prems(1) by (cases cs) auto
  have "load_byte (a + 1 + of_nat i) m = Some (ds ! i)" if "i < n" for i
    using Suc.prems(2) [of "Suc i"] that cs by (simp add: add.assoc)
  then have "load_bytes (a + 1) n m = Some ds" using Suc.IH [of ds "a + 1"] Suc.prems(1) cs by simp
  then show ?case using Suc.prems(2) [of 0] cs by simp
qed simp

lemma heap_offset:
  assumes "unat a + n \<le> hi" "hi \<le> heap_top" "i < n"
  shows "unat (a + of_nat i :: u32) = unat a + i"
proof -
  have "unat (of_nat i :: u32) = i" using assms by (simp add: unat_of_nat take_bit_nat_eq_self)
  then show ?thesis using unat_add [of a "of_nat i"] assms by simp
qed

text \<open>What was stored is read back.\<close>

lemma store_load_bytes:
  assumes "mm_ok m" "backed m lo hi" "lo \<le> unat a" "unat a + length cs \<le> hi" "hi \<le> heap_top"
  shows "\<exists>m'. store_bytes a cs m = Some m' \<and> same_map m m' \<and> load_bytes a (length cs) m' = Some cs \<and>
    (\<forall>b. lo \<le> unat b \<longrightarrow> unat b < hi \<longrightarrow> unat b < unat a \<or> unat a + length cs \<le> unat b \<longrightarrow>
      load_byte b m' = load_byte b m)"
proof -
  obtain m' where m': "store_bytes a cs m = Some m'" "same_map m m'"
    "\<forall>b. lo \<le> unat b \<longrightarrow> unat b < hi \<longrightarrow> load_byte b m' =
      (if unat a \<le> unat b \<and> unat b < unat a + length cs then Some (cs ! (unat b - unat a)) else load_byte b m)"
    using store_heap_bytes [OF assms] by blast
  have "load_byte (a + of_nat i) m' = Some (cs ! i)" if i: "i < length cs" for i
    using m'(3) heap_offset [OF assms(4,5) i] assms(3,4) i by simp
  then have "load_bytes a (length cs) m' = Some cs" by (intro load_bytes_nth) simp_all
  then show ?thesis using m' by auto
qed

text \<open>A read of the heap never fails.\<close>

lemma heap_bytes_readable:
  assumes ok: "mm_ok m" and bk: "backed m lo hi" and a: "lo \<le> unat a" "unat a + n \<le> hi" "hi \<le> heap_top"
  shows "\<exists>cs. load_bytes a n m = Some cs \<and> length cs = n"
proof -
  have "\<exists>c. load_byte (a + of_nat i) m = Some c" if i: "i < n" for i
  proof -
    have u: "unat (a + of_nat i) = unat a + i" by (rule heap_offset [OF a(2,3) i])
    then obtain f where f: "translate m (a + of_nat i) = Some f" using backed_frame [OF bk, of "a + of_nat i"] a i by auto
    have "unat (a + of_nat i) mod 4096 div 4 < 1024" by (simp add: less_mult_imp_div_less)
    then show ?thesis using f ok by (simp add: load_byte_def mm_ok_def)
  qed
  then obtain c where "\<forall>i < n. load_byte (a + of_nat i) m = Some (c i)" by metis
  then have "load_bytes a n m = Some (map c [0..<n])" by (intro load_bytes_nth) simp_all
  then show ?thesis by simp
qed

section \<open>Live regions\<close>

text \<open>A write into a live region is read back, and no byte of another region changes.\<close>

lemma write_live_region:
  assumes r: "heap_rep h bs" and p: "live bs p = Some k" and n: "length cs \<le> k"
  shows "\<exists>m. store_bytes p cs (hmm h) = Some m \<and> same_map (hmm h) m \<and> heap_rep (h\<lparr>hmm := m\<rparr>) bs \<and>
    load_bytes p (length cs) m = Some cs \<and>
    (\<forall>q j v. live bs q = Some j \<longrightarrow> q \<noteq> p \<longrightarrow> unat q \<le> unat v \<longrightarrow> unat v < unat q + j \<longrightarrow>
      load_byte v m = load_byte v (hmm h))"
proof -
  note reg = live_regions [OF r]
  have h: "mm_ok (hmm h)" "backed (hmm h) heap_base (unat (heap_end h))" "unat (heap_end h) \<le> heap_top"
    using r by (simp_all add: heap_rep_def)
  obtain m where m: "store_bytes p cs (hmm h) = Some m" "same_map (hmm h) m" "load_bytes p (length cs) m = Some cs"
    "\<forall>b. heap_base \<le> unat b \<longrightarrow> unat b < unat (heap_end h) \<longrightarrow> unat b < unat p \<or> unat p + length cs \<le> unat b \<longrightarrow>
      load_byte b m = load_byte b (hmm h)"
    using store_load_bytes [OF h(1,2) _ _ h(3), of p cs] reg(1,2) [OF p] n by auto
  have "load_byte v m = load_byte v (hmm h)"
    if q: "live bs q = Some j" "q \<noteq> p" and v: "unat q \<le> unat v" "unat v < unat q + j" for q j v
  proof -
    have "unat p + k + 16 \<le> unat q \<or> unat q + j + 16 \<le> unat p" using reg(4) [OF p q] .
    then show ?thesis using m(4) reg(1,2) [OF q(1)] v n by auto
  qed
  then show ?thesis using m(1,2,3) same_map_heap [OF m(2) r] by auto
qed

end
