(* ===== verification/Memtest_Spec.thy ===== *)
theory Memtest_Spec
  imports Heap_Memory Commands_Spec
begin

text \<open>
  The heap's self-test, src/commands/memtest.c: two blocks are taken from the first free one, the first of
  them is written, read, given back and taken again, and in the end the list of blocks is the one at the start.
\<close>

section \<open>The block lists\<close>

lemma memtest_sizes:
  assumes "256 \<le> unat (s :: u32)"
  shows "\<not> s - 32 < 32" "\<not> s - 48 - 104 < 32" "unat (s - 48) = unat s - 48"
  using assms unat_sub [of 32 s] unat_sub [of 48 s] unat_sub [of 104 "s - 48"]
  by (simp_all add: word_less_nat_alt word_le_nat_alt)

lemma memtest_taken:
  assumes "256 \<le> unat s"
  shows "taken a s (ALIGN_UP 32 8) False = [(a, 32, False), (a + 48, s - 48, True)]"
    "taken (a + 48) (s - 48) (ALIGN_UP 100 8) False = [(a + 48, 104, False), (a + 168, s - 168, True)]"
    "taken a 32 (ALIGN_UP 16 8) False = [(a, 32, False)]"
proof -
  have "(16 :: u32) < 32" by (simp add: word_less_nat_alt)
  then show "taken a 32 (ALIGN_UP 16 8) False = [(a, 32, False)]" by (simp add: taken_def ALIGN_UP_def)
qed (use memtest_sizes [OF assms] in \<open>simp_all add: taken_def ALIGN_UP_def HEADER_SIZE_def algebra_simps\<close>)

lemma memtest_released:
  "released [] a 32 ((a + 48, 104, False) # zs) = (a, 32, True) # (a + 48, 104, False) # zs"
  "released [(a, 32, False)] (a + 48) 104 ((a + 168, s - 168, True) # zs) = [(a, 32, False), (a + 48, s - 48, True)] @ zs"
  "released [] a 32 ((a + 48, s - 48, True) # zs) = (a, s, True) # zs"
  by (simp_all add: released_def join_next_def join_prev_def HEADER_SIZE_def algebra_simps)

text \<open>The two requests, and what follows the release of the first block.\<close>

lemma memtest_mallocs:
  assumes r: "heap_rep h ((a, s, True) # ys)" and s: "256 \<le> unat s"
  obtains B where "malloc 32 h = Some (h\<lparr>headers := B\<rparr>, a + 16)"
    "\<exists>C. malloc 100 (h\<lparr>headers := B\<rparr>) = Some (h\<lparr>headers := C\<rparr>, a + 64) \<and>
      heap_rep (h\<lparr>headers := C\<rparr>) ((a, 32, False) # (a + 48, 104, False) # (a + 168, s - 168, True) # ys)"
proof -
  have n: "unat (32 :: u32) = 32" "unat (100 :: u32) = 100" "block_bytes 32 = 32" "block_bytes 100 = 104"
    "a + 48 + HEADER_SIZE = a + 64" "a + HEADER_SIZE = a + 16"
    by (simp_all add: block_bytes_def HEADER_SIZE_def)
  obtain B where B: "malloc 32 h = Some (h\<lparr>headers := B\<rparr>, a + 16)"
    "heap_rep (h\<lparr>headers := B\<rparr>) ((a, 32, False) # (a + 48, s - 48, True) # ys)"
    using malloc_at [of h "[]" a s ys 32] r s memtest_taken(1) [OF s, of a] n by auto
  have "104 \<le> unat (s - 48)" using memtest_sizes(3) [OF s] s by simp
  then obtain C where "malloc 100 (h\<lparr>headers := B\<rparr>) = Some (h\<lparr>headers := C\<rparr>, a + 64)"
    "heap_rep (h\<lparr>headers := C\<rparr>) ((a, 32, False) # (a + 48, 104, False) # (a + 168, s - 168, True) # ys)"
    using malloc_at [of "h\<lparr>headers := B\<rparr>" "[(a, 32, False)]" "a + 48" "s - 48" ys 100] B(2) memtest_taken(2) [OF s, of a] n by auto
  with B(1) show ?thesis using that by blast
qed

lemma memtest_frees:
  assumes r: "heap_rep h ((a, 32, False) # (a + 48, 104, False) # (a + 168, s - 168, True) # ys)" and s: "256 \<le> unat s"
  shows "\<exists>B C. free (a + 16) h = Some (h\<lparr>headers := B\<rparr>) \<and>
    malloc 16 (h\<lparr>headers := B\<rparr>) = Some (h\<lparr>headers := C\<rparr>, a + 16) \<and>
    (\<exists>D E. free (a + 64) (h\<lparr>headers := C\<rparr>) = Some (h\<lparr>headers := D\<rparr>) \<and>
      free (a + 16) (h\<lparr>headers := D\<rparr>) = Some (h\<lparr>headers := E\<rparr>) \<and> heap_rep (h\<lparr>headers := E\<rparr>) ((a, s, True) # ys))"
proof -
  let ?zs = "(a + 168, s - 168, True) # ys"
  have n: "unat (16 :: u32) = 16" "unat (32 :: u32) = 32" "block_bytes 16 = 16" "a + 48 + HEADER_SIZE = a + 64" "a + HEADER_SIZE = a + 16"
    by (simp_all add: block_bytes_def HEADER_SIZE_def)
  obtain B where B: "free (a + 16) h = Some (h\<lparr>headers := B\<rparr>)"
    "heap_rep (h\<lparr>headers := B\<rparr>) ((a, 32, True) # (a + 48, 104, False) # ?zs)"
    using free_at [of h "[]" a 32 "(a + 48, 104, False) # ?zs"] r n memtest_released(1) [of a ?zs] by auto
  obtain C where C: "malloc 16 (h\<lparr>headers := B\<rparr>) = Some (h\<lparr>headers := C\<rparr>, a + 16)"
    "heap_rep (h\<lparr>headers := C\<rparr>) ((a, 32, False) # (a + 48, 104, False) # ?zs)"
    using malloc_at [of "h\<lparr>headers := B\<rparr>" "[]" a 32 "(a + 48, 104, False) # ?zs" 16] B(2) memtest_taken(3) [OF s, of a] n by auto
  obtain D where D: "free (a + 64) (h\<lparr>headers := C\<rparr>) = Some (h\<lparr>headers := D\<rparr>)"
    "heap_rep (h\<lparr>headers := D\<rparr>) ((a, 32, False) # (a + 48, s - 48, True) # ys)"
    using free_at [of "h\<lparr>headers := C\<rparr>" "[(a, 32, False)]" "a + 48" 104 ?zs] C(2) n memtest_released(2) [of a s ys] by auto
  obtain E where "free (a + 16) (h\<lparr>headers := D\<rparr>) = Some (h\<lparr>headers := E\<rparr>)" "heap_rep (h\<lparr>headers := E\<rparr>) ((a, s, True) # ys)"
    using free_at [of "h\<lparr>headers := D\<rparr>" "[]" a 32 "(a + 48, s - 48, True) # ys"] D(2) n memtest_released(3) [of a s ys] by auto
  with B(1) C(1) D(1) show ?thesis by blast
qed

section \<open>The command\<close>

text \<open>What it prints; an address of the heap appears as a negative number, as \<open>print_unit\<close> reads it as an \<open>int\<close>.\<close>

definition memtest_text :: "u32 \<Rightarrow> byte list" where
  "memtest_text p = lit (nl @ ''alloc a: heap ok'' @ nl @ ''reuse : '') @ dec_string (sint p) @ lit (''(addr)'' @ nl)"

lemma heap_address_signed:
  assumes "heap_base \<le> unat (p :: u32)"
  shows "sint p \<noteq> INT_MIN"
proof
  assume "sint p = INT_MIN"
  then have "sint p = sint (0x80000000 :: u32)" by (simp add: INT_MIN_def)
  then have "p = 0x80000000" by (rule signed_word_eqI)
  then show False using assms by simp
qed

lemma memtest_spec:
  assumes t0: "term_ok (k_term k)" and r: "heap_rep (k_heap k) ((a, s, True) # ys)" and s: "256 \<le> unat s"
  shows "\<exists>h. memtest k = runs (emits (memtest_text (a + 16)) (k\<lparr>k_heap := h\<rparr>)) \<and> heap_rep h ((a, s, True) # ys) \<and>
    phys (hmm h) = phys (hmm (k_heap k))"
proof -
  let ?h = "k_heap k"
  let ?bs = "(a, 32, False) # (a + 48, 104, False) # (a + 168, s - 168, True) # ys"
  obtain B C where m1: "malloc 32 ?h = Some (?h\<lparr>headers := B\<rparr>, a + 16)"
    "malloc 100 (?h\<lparr>headers := B\<rparr>) = Some (?h\<lparr>headers := C\<rparr>, a + 64)" "heap_rep (?h\<lparr>headers := C\<rparr>) ?bs"
    using memtest_mallocs [OF r s] by metis
  have l: "live ?bs (a + 16) = Some 32" by (simp add: live_simps HEADER_SIZE_def)
  define cs where "cs = lit ''heap ok'' @ [0]"
  have cs: "length cs = 8" "str_at cs 0 (lit ''heap ok'')"
    unfolding cs_def by (simp add: lit_def) (rule str_at_lit, simp add: lit_def)
  obtain m where m: "store_bytes (a + 16) cs (hmm ?h) = Some m" "heap_rep (?h\<lparr>headers := C, hmm := m\<rparr>) ?bs"
    "load_bytes (a + 16) 8 m = Some cs" "phys m = phys (hmm ?h)"
    using write_live_region [OF m1(3) l, of cs] cs(1) by (auto simp: same_map_def)
  obtain f where f: "translate (hmm ?h) (a + 16) = Some f" using live_regions(3) [OF m1(3) l, of "a + 16"] by auto
  let ?h2 = "?h\<lparr>headers := C, hmm := m\<rparr>"
  obtain D E F G where m2: "free (a + 16) ?h2 = Some (?h2\<lparr>headers := D\<rparr>)"
    "malloc 16 (?h2\<lparr>headers := D\<rparr>) = Some (?h2\<lparr>headers := E\<rparr>, a + 16)"
    "free (a + 64) (?h2\<lparr>headers := E\<rparr>) = Some (?h2\<lparr>headers := F\<rparr>)"
    "free (a + 16) (?h2\<lparr>headers := F\<rparr>) = Some (?h2\<lparr>headers := G\<rparr>)"
    "heap_rep (?h2\<lparr>headers := G\<rparr>) ((a, s, True) # ys)"
    using memtest_frees [OF m(2) s] by blast
  have cp: "strlcpy (replicate 8 0) 0 (lit ''heap ok'' @ [0]) 0 8 = Some cs"
    using strlcpy_str_at [OF cs(2) [unfolded cs_def], of 8 0 "replicate 8 0"] by (simp add: cs_def lit_def overwrite_def)
  have ws: "on_term (terminal_writestring cs 0) k' = emits (lit ''heap ok'') k'" for k'
    by (rule writestring_emits [OF cs(2)])
  have "heap_base \<le> unat (a + 16)" using heap_rep_block [OF r, of a s True] by (simp add: HEADER_SIZE_def)
  then have pu: "print_unit (a + 16) ''(addr)'' 1 = emits (dec_string (sint (a + 16)) @ lit ''(addr)'' @ [10])"
    using print_unit_emits [OF heap_address_signed, of "a + 16" "''(addr)''" 1] by simp
  define T1 where "T1 = lit (nl @ ''alloc a: '')"
  define T2 where "T2 = lit ''heap ok''"
  define T3 where "T3 = lit (nl @ ''reuse : '')"
  define T4 where "T4 = dec_string (sint (a + 16)) @ lit ''(addr)'' @ [10]"
  have out: "memtest_text (a + 16) = T1 @ T2 @ T3 @ T4"
    by (simp add: memtest_text_def T1_def T2_def T3_def T4_def lit_def)
  have pl: "prints (nl @ ''alloc a: '') = emits T1" "prints (nl @ ''reuse : '') = emits T3"
    unfolding T1_def T3_def by (rule prints_lit, simp)+
  obtain t1 where t1: "puts terminal_putchar T1 (k_term k) = Some t1" "term_ok t1" using vga.puts_ok [OF t0] by blast
  obtain t2 where t2: "puts terminal_putchar T2 t1 = Some t2" "term_ok t2" using vga.puts_ok [OF t1(2)] by blast
  obtain t3 where t3: "puts terminal_putchar T3 t2 = Some t3" "term_ok t3" using vga.puts_ok [OF t2(2)] by blast
  obtain t4 where t4: "puts terminal_putchar T4 t3 = Some t4" using vga.puts_ok [OF t3(2)] by blast
  have "memtest k = Some (Running (k\<lparr>k_term := t4, k_heap := ?h2\<lparr>headers := G\<rparr>\<rparr>))"
    unfolding memtest_def pl
    using m1(1,2) m(1,3) m2(1-4) f cp t1(1) t2(1) t3(1) t4
    by (simp add: cont_def touch_def set_mm_def emits_puts ws [folded T2_def] pu [folded T4_def]
        del: load_bytes.simps store_bytes.simps)
  moreover have "emits (memtest_text (a + 16)) (k\<lparr>k_heap := ?h2\<lparr>headers := G\<rparr>\<rparr>) = Some (k\<lparr>k_term := t4, k_heap := ?h2\<lparr>headers := G\<rparr>\<rparr>)"
    unfolding out emits_append using t1(1) t2(1) t3(1) t4 by (simp add: emits_puts)
  ultimately have "memtest k = runs (emits (memtest_text (a + 16)) (k\<lparr>k_heap := ?h2\<lparr>headers := G\<rparr>\<rparr>))"
    by (simp add: runs_def)
  then show ?thesis using m2(5) m(4) by (intro exI [of _ "?h2\<lparr>headers := G\<rparr>"]) simp
qed

section \<open>Properties\<close>

text \<open>C8: memtest, on a heap whose first block is free and has room for its requests, prints the text it wrote to the heap and
  the address of the block it got back, which is the one it had released, and leaves the list of the heap's blocks, the
  page tables' invariant and everything but the screen and the heap as they were.\<close>

theorem memtest_correct:
  assumes "kernel_ok k" "heap_rep (k_heap k) ((a, s, True) # ys)" "256 \<le> unat s"
  shows "\<exists>k'. memtest k = Some (Running k') \<and> kernel_ok k' \<and> heap_rep (k_heap k') ((a, s, True) # ys) \<and>
    k' = k\<lparr>k_term := k_term k', k_heap := k_heap k'\<rparr> \<and>
    puts terminal_putchar (lit (nl @ ''alloc a: heap ok'' @ nl @ ''reuse : '') @ dec_string (sint (a + 16)) @ lit (''(addr)'' @ nl))
      (k_term k) = Some (k_term k')"
proof -
  have t: "term_ok (k_term k)" using assms(1) by (simp add: kernel_ok_def)
  obtain h where h: "memtest k = runs (emits (memtest_text (a + 16)) (k\<lparr>k_heap := h\<rparr>))" "heap_rep h ((a, s, True) # ys)"
    using memtest_spec [OF t assms(2,3)] by blast
  obtain t' where t': "puts terminal_putchar (memtest_text (a + 16)) (k_term k) = Some t'" "term_ok t'"
    using vga.puts_ok [OF t] by blast
  have "memtest k = Some (Running (k\<lparr>k_term := t', k_heap := h\<rparr>))"
    using t'(1) unfolding h(1) by (simp add: emits_puts runs_def)
  moreover have "kernel_ok (k\<lparr>k_term := t', k_heap := h\<rparr>)" using assms(1) h(2) t'(2) by (simp add: kernel_ok_def heap_rep_def)
  ultimately show ?thesis using h(2) t'(1) unfolding memtest_text_def by (intro exI [of _ "k\<lparr>k_term := t', k_heap := h\<rparr>"]) simp
qed

theorem memtest_correct_witness:
  "\<exists>k'. memtest (example_kernel\<lparr>k_heap := boot_heap\<rparr>) = Some (Running k') \<and>
     heap_rep (k_heap k') [(HEAP_VIRT_START, 65520, True)] \<and> k_pos k' = 0"
proof -
  let ?k = "example_kernel\<lparr>k_heap := boot_heap\<rparr>"
  have ok: "kernel_ok ?k" using example_kernel_ok boot_heap_facts(1) by (simp add: kernel_ok_def heap_rep_def)
  have r: "heap_rep (k_heap ?k) [(HEAP_VIRT_START, 65520, True)]" and s: "256 \<le> unat (65520 :: u32)"
    using boot_heap_facts(1) by simp_all
  obtain k' where k': "memtest ?k = Some (Running k')" "heap_rep (k_heap k') [(HEAP_VIRT_START, 65520, True)]"
    "k' = ?k\<lparr>k_term := k_term k', k_heap := k_heap k'\<rparr>" using memtest_correct [OF ok r s] by blast
  have "k_pos k' = 0" using arg_cong [OF k'(3), of k_pos] by (simp add: example_kernel_def)
  with k'(1,2) show ?thesis by blast
qed

end
