(* ===== verification/Exceptions.thy ===== *)
theory Exceptions
  imports Debug_Spec
begin

text \<open>
  The exceptions that stop the machine: what src/cpu/isr.c and the page fault handler of src/mm/mmu.zig print
  before they halt.
\<close>

text \<open>The message on the serial port.\<close>

definition exception_name :: "u32 \<Rightarrow> string" where
  "exception_name n = exception_messages ! unat n"

definition fault_text :: "u32 \<Rightarrow> u32 \<Rightarrow> byte list" where
  "fault_text e a = (let nl = [CHR 0x0D, CHR 0x0A] in
     lit (nl @ sgr ''91'' @ ''[PANIC] PAGE FAULT DETECTED!'' @ nl @ sgr ''0'' @ ''Faulting Address : '') @ hex_text a @
     lit (nl @ ''Reason           : '' @ (if e AND 1 = 0 then ''Page not present (OOM)'' else ''Protection violation'') @
       (if e AND 2 \<noteq> 0 then '' on Write'' else '' on READ'') @ nl))"

definition panic_text :: "u32 \<Rightarrow> u32 \<Rightarrow> u32 \<Rightarrow> byte list" where
  "panic_text n e a = (if n = 14 then fault_text e a else lit ''[PANIC] '' @ lit (exception_name n) @ [10, 13])"

lemma exception_names:
  assumes "n < 32"
  shows "rd exception_messages (unat n) = Some (exception_name n)" "CHR 0x00 \<notin> set (exception_name n)"
proof -
  have l: "length exception_messages = 32" by (simp add: exception_messages_def)
  have u: "unat n < 32" using assms by (simp add: word_less_nat_alt)
  show "rd exception_messages (unat n) = Some (exception_name n)" using u l by (simp add: exception_name_def)
  have "list_all (\<lambda>s. CHR 0x00 \<notin> set s) exception_messages" by (simp add: exception_messages_def)
  then show "CHR 0x00 \<notin> set (exception_name n)" using u l by (simp add: exception_name_def list_all_length)
qed

lemma outputs_report: "outputs (page_fault_report e a) [] (fault_text e a)"
proof -
  let ?nl = "[CHR 0x0D, CHR 0x0A]"
  let ?r = "if e AND 1 = 0 then ''Page not present (OOM)'' else ''Protection violation''"
  let ?w = "if e AND 2 \<noteq> 0 then '' on Write'' @ ?nl else '' on READ'' @ ?nl"
  have "outputs (page_fault_report e a) ([] @ [] @ [] @ [] @ [] @ [] @ [] @ [] @ [] @ [] @ [])
     (lit ?nl @ lit (sgr ''91'') @ lit ''[PANIC] PAGE FAULT DETECTED!'' @ lit ?nl @ lit (sgr ''0'') @
      lit ''Faulting Address : '' @ (lit ''0x'' @ hex_digits 8 a) @ lit ?nl @ lit ''Reason           : '' @ lit ?r @ lit ?w)"
    unfolding page_fault_report_def [abs_def] Let_def by (intro outs) (simp_all add: sgr_def)
  then show ?thesis
    by (cases "e AND 1 = 0"; cases "e AND 2 = 0") (simp_all add: fault_text_def hex_text_def Let_def)
qed

lemma outputs_KPANIC: "CHR 0x00 \<notin> set s \<Longrightarrow> outputs (on_bus (KPANIC s)) [] (lit ''[PANIC] '' @ lit s @ [10, 13])"
  by (rule outputs_bus, unfold KPANIC_def)
     (use klog_sent [OF _ str_at_lit str_at_lit, of _ "''PANIC''" s] in \<open>simp add: lit_nonzero\<close>)

lemma isr_handler_stops:
  assumes ok: "kernel_ok k" and n: "n < 32" and f: "n = 14 \<longrightarrow> mmu_handle_page_fault e a (k_mm k) = None"
  shows "\<exists>t b. isr_handler n e a k = Some (Halted (k\<lparr>k_term := t, k_bus := b\<rparr>)) \<and>
    puts terminal_putchar (lit ''EXCEPTION: '' @ lit (exception_name n) @ [10]) (k_term k) = Some t \<and>
    sent (k_bus k) (panic_text n e a) b"
proof -
  let ?p = "\<lambda>k. do { k \<leftarrow> prints ''EXCEPTION: '' k; k \<leftarrow> prints (exception_name n) k; prints [CHR 0x0A] k }"
  have p: "outputs ?p (lit ''EXCEPTION: '' @ lit (exception_name n) @ lit [CHR 0x0A]) ([] @ [] @ [])"
    using exception_names(2) [OF n] by (intro outs) simp_all
  obtain t b where 1: "?p k = Some (k\<lparr>k_term := t, k_bus := b\<rparr>)" "kernel_ok (k\<lparr>k_term := t, k_bus := b\<rparr>)" "sent (k_bus k) [] b"
    "puts terminal_putchar (lit ''EXCEPTION: '' @ lit (exception_name n) @ [10]) (k_term k) = Some t"
    using p ok unfolding outputs_def by (elim allE [of _ k]) auto
  let ?k = "k\<lparr>k_term := t, k_bus := b\<rparr>"
  let ?q = "if n = 14 then page_fault_report e a else on_bus (KPANIC (exception_name n))"
  have "outputs ?q [] (panic_text n e a)"
    using outputs_report outputs_KPANIC [OF exception_names(2) [OF n]] by (simp add: panic_text_def)
  then obtain b' where 2: "?q ?k = Some (k\<lparr>k_term := t, k_bus := b'\<rparr>)" "sent b (panic_text n e a) b'"
    using 1(2) unfolding outputs_def by (elim allE [of _ ?k]) auto
  have "isr_handler n e a k = do { k \<leftarrow> ?p k; if n = 14 then
          (case mmu_handle_page_fault e a (k_mm k) of Some m \<Rightarrow> Some (Running (set_mm m k))
           | None \<Rightarrow> do { k \<leftarrow> page_fault_report e a k; Some (Halted k) })
        else do { k \<leftarrow> on_bus (KPANIC (exception_name n)) k; Some (Halted k) } }"
    unfolding isr_handler_def exception_names(1) [OF n] using n by (simp add: bind_assoc)
  also have "\<dots> = Some (Halted (k\<lparr>k_term := t, k_bus := b'\<rparr>))"
    unfolding 1(1) using f 2(1) by (cases "n = 14") simp_all
  finally show ?thesis using 1(4) sent_trans [OF 1(3) 2(2)] by auto
qed

text \<open>A page fault that is resolved is reported on the screen only, and the machine goes on.\<close>

lemma isr_handler_resolves:
  assumes ok: "term_ok (k_term k)" and f: "mmu_handle_page_fault e a (k_mm k) = Some m"
  shows "\<exists>t. isr_handler 14 e a k = Some (Running (set_mm m (k\<lparr>k_term := t\<rparr>))) \<and>
    puts terminal_putchar (lit ''EXCEPTION: Page Fault'' @ [10]) (k_term k) = Some t"
proof -
  have "exception_name 14 = ''Page Fault''" by (simp add: exception_name_def exception_messages_def)
  moreover have "rd exception_messages (unat (14 :: u32)) = Some (exception_name 14)" by (rule exception_names) simp
  ultimately have r: "rd exception_messages (unat (14 :: u32)) = Some ''Page Fault''" by simp
  obtain t where t: "puts terminal_putchar (lit ''EXCEPTION: Page Fault'' @ [10]) (k_term k) = Some t" using vga.puts_ok [OF ok] by blast
  have "do { k \<leftarrow> prints ''EXCEPTION: '' k; k \<leftarrow> prints ''Page Fault'' k; prints [CHR 0x0A] k } =
      emits (lit ''EXCEPTION: Page Fault'' @ [10]) k"
    by (simp add: prints_lit emits_append [symmetric])
  then have "isr_handler 14 e a k = do { k \<leftarrow> emits (lit ''EXCEPTION: Page Fault'' @ [10]) k;
      case mmu_handle_page_fault e a (k_mm k) of Some m \<Rightarrow> Some (Running (set_mm m k))
      | None \<Rightarrow> do { k \<leftarrow> page_fault_report e a k; Some (Halted k) } }"
    unfolding isr_handler_def r by (simp add: bind_assoc [symmetric] del: bind_assoc lit_simps)
  then show ?thesis using t f by (simp add: emits_puts del: lit_simps)
qed

section \<open>Properties\<close>

text \<open>C30: an exception that is no page fault, and a page fault that cannot be resolved, prints its name on the screen and its
  report on the serial port (for a page fault the address, whether the page was missing, and whether it was a write),
  and stops the machine.\<close>

theorem exception_stops:
  assumes "kernel_ok k" "n < 32" "n = 14 \<longrightarrow> mmu_handle_page_fault e a (k_mm k) = None"
  shows "\<exists>t b. isr_handler n e a k = Some (Halted (k\<lparr>k_term := t, k_bus := b\<rparr>)) \<and>
    puts terminal_putchar (lit ''EXCEPTION: '' @ lit (exception_name n) @ [10]) (k_term k) = Some t \<and>
    sent (k_bus k) (panic_text n e a) b"
  using assms by (rule isr_handler_stops)

theorem exception_stops_witness:
  "\<exists>t b. isr_handler 14 0 0x00A00000 example_kernel = Some (Halted (example_kernel\<lparr>k_term := t, k_bus := b\<rparr>)) \<and>
     sent (k_bus example_kernel) (lit [CHR 0x0D, CHR 0x0A] @ lit (sgr ''91'') @ lit ''[PANIC] PAGE FAULT DETECTED!'' @
       lit [CHR 0x0D, CHR 0x0A] @ lit (sgr ''0'') @ lit ''Faulting Address : 0x00A00000'' @ lit [CHR 0x0D, CHR 0x0A] @
       lit ''Reason           : Page not present (OOM) on READ'' @ lit [CHR 0x0D, CHR 0x0A]) b"
proof -
  have f: "14 = (14 :: u32) \<longrightarrow> mmu_handle_page_fault 0 0x00A00000 (k_mm example_kernel) = None"
    by (simp add: mmu_handle_page_fault_def)
  have "hex_digits 8 0x00A00000 = lit ''00A00000''" by (simp add: hex_digits_def lit_def hex_digit_def)
  then have "panic_text 14 0 0x00A00000 = lit [CHR 0x0D, CHR 0x0A] @ lit (sgr ''91'') @ lit ''[PANIC] PAGE FAULT DETECTED!'' @
       lit [CHR 0x0D, CHR 0x0A] @ lit (sgr ''0'') @ lit ''Faulting Address : 0x00A00000'' @ lit [CHR 0x0D, CHR 0x0A] @
       lit ''Reason           : Page not present (OOM) on READ'' @ lit [CHR 0x0D, CHR 0x0A]"
    by (simp add: panic_text_def fault_text_def hex_text_def Let_def)
  then show ?thesis using exception_stops [OF example_kernel_ok _ f] by auto
qed

end
