(* ===== verification/Safe_Commands.thy ===== *)
theory Safe_Commands
  imports Safe_Keys Memtest_Spec Exceptions
begin

text \<open>
  The commands return, or stop the machine, in every state of the right shape, and keep it. What some of them
  need besides stands in their lemmas: the address peek is given, the answers of the keyboard's controller.
\<close>

section \<open>The commands\<close>

definition proper :: "outcome option \<Rightarrow> bool" where
  "proper r \<longleftrightarrow> (case r of None \<Rightarrow> False | Some (Running k) \<Rightarrow> shape_ok k | Some (Halted k) \<Rightarrow> True)"

lemma proper_simps [simp]: "proper (Some (Running k)) = shape_ok k" "proper (Some (Halted k))" "\<not> proper None"
  by (simp_all add: proper_def)

lemma proper_runs: "safe_step f \<Longrightarrow> shape_ok k \<Longrightarrow> proper (runs (f k))"
  by (auto simp: safe_step_def runs_def)

lemma proper_bind: "safe_step f \<Longrightarrow> shape_ok k \<Longrightarrow> (\<And>k. shape_ok k \<Longrightarrow> proper (g k)) \<Longrightarrow> proper (do { k \<leftarrow> f k; g k })"
  unfolding safe_step_def by fastforce

lemma proper_cont: "proper r \<Longrightarrow> (\<And>k. shape_ok k \<Longrightarrow> proper (c k)) \<Longrightarrow> proper (cont r c)"
  by (cases r) (auto simp: cont_def split: outcome.splits)

lemma help_safe: "safe_step help_command"
  unfolding help_command_def [abs_def] by (intro safes) simp_all

lemma fetch_safe: "safe_step fetch"
  unfolding fetch_def [abs_def] Let_def
  by (intro safes) (simp_all add: fetch_user_def bg_color_def bg_color_bright_def COLOR_WHITE_BRIGHT_def COLOR_CYAN_BRIGHT_def
      COLOR_BLUE_BRIGHT_def COLOR_RED_BRIGHT_def COLOR_RESET_def sgr_def)

lemma emits_shape: "shape_ok k \<Longrightarrow> \<exists>k'. emits cs k = Some k' \<and> shape_ok k'"
  using safe_emits unfolding safe_step_def by blast

lemma uptime_opts_total:
  assumes "argv b args ws"
  shows "\<exists>r. uptime_opts b args j f = Some r"
proof (induction "length args - j" arbitrary: j f)
  case 0
  then show ?case by (subst uptime_opts.simps) simp
next
  case (Suc n)
  have j: "j < length args" using Suc.hyps(2) by simp
  have w: "rd args j = Some (args ! j)" "str_at b (args ! j) (ws ! j)" using argv_nth [OF assms j] by simp_all
  obtain c where c: "rd b (args ! j) = Some c" using str_at_first [OF w(2)] by blast
  have ih: "\<exists>r. uptime_opts b args (j + 1) f = Some r" for f using Suc by simp
  show ?case using j w(1) c streq_spec [OF w(2)] ih by (subst uptime_opts.simps) auto
qed

text \<open>With \<open>-r\<close> the tick counter is printed as an \<open>int\<close>, which \<open>itoa\<close> cannot when it is the smallest one.\<close>

lemma uptime_safe:
  assumes k: "shape_ok k" and w: "argv (k_buffer k) args ws" and t: "tick (k_timer k) \<noteq> 0x80000000"
  shows "\<exists>k'. uptime args k = Some k' \<and> shape_ok k'"
proof -
  let ?t = "tick (k_timer k)"
  have "sint ?t \<noteq> INT_MIN"
  proof
    assume "sint ?t = INT_MIN"
    then have "sint ?t = sint (0x80000000 :: u32)" by (simp add: INT_MIN_def)
    then show False using t signed_word_eqI by blast
  qed
  note pu = print_unit_emits [OF this] print_unit_emits [OF uptime_values(3)] print_unit_emits [OF uptime_values(4)]
    print_unit_emits [OF uptime_values(5)] print_unit_emits [OF uptime_values(6)]
  obtain r where r: "uptime_opts (k_buffer k) args 1 \<lparr>raw = False, sec = False, pretty = False\<rparr> = Some r"
    using uptime_opts_total [OF w] by blast
  show ?thesis
  proof (cases r)
    case None
    then show ?thesis using r k by (simp add: uptime_def get_tick_def Let_def prints_lit emits_append [symmetric] emits_shape)
  next
    case (Some f)
    let ?h = "?t div 1000 div 60 div 60"
    note code = uptime_def get_tick_def Let_def prints_lit pu emits_append [symmetric] emits_shape
    show ?thesis
    proof (cases "\<not> raw f \<and> \<not> sec f \<and> pretty f")
      case True
      then show ?thesis using r k Some by (cases "?h = 0") (simp_all add: code)
    next
      case False
      then show ?thesis using r k Some by (auto simp: code)
    qed
  qed
qed

lemma setprompt_safe:
  assumes k: "shape_ok k" and w: "argv (k_buffer k) args ws"
  shows "\<exists>k'. setprompt args k = Some k' \<and> shape_ok k'"
proof (cases "length args < 2")
  case True
  then show ?thesis using emits_shape [OF k] by (simp add: setprompt_def prints_lit)
next
  case False
  then have a: "rd args 1 = Some (args ! 1)" "str_at (k_buffer k) (args ! 1) (ws ! 1)" using argv_nth [OF w, of 1] by simp_all
  have n: "is_name (k_user k)" "is_name (k_os k)" using k by (simp_all add: shape_ok_def kernel_ok_def)
  obtain u where u: "strlcpy (k_user k) 0 (k_buffer k) (args ! 1) 64 = Some u" "is_name u"
    using strlcpy_name [OF a(2) n(1)] by blast
  show ?thesis
  proof (cases "length args = 2")
    case True
    then show ?thesis using a(1) u k by (simp add: setprompt_def NAME_SIZE_def shape_ok_def kernel_ok_def)
  next
    case 3: False
    then have b: "rd args 2 = Some (args ! 2)" "str_at (k_buffer k) (args ! 2) (ws ! 2)"
      using False argv_nth [OF w, of 2] by simp_all
    obtain v where "strlcpy (k_os k) 0 (k_buffer k) (args ! 2) 64 = Some v" "is_name v"
      using strlcpy_name [OF b(2) n(2)] by blast
    then show ?thesis using a(1) b(1) u k False 3 by (simp add: setprompt_def NAME_SIZE_def shape_ok_def kernel_ok_def)
  qed
qed

lemma poweroff_safe: "shape_ok k \<Longrightarrow> proper (poweroff k)"
proof -
  have "live_step (\<lambda>b. Some (port_outw p v b))" for p v by (simp add: live_step_def port_outw_def uart_live_def)
  then show "shape_ok k \<Longrightarrow> proper (poweroff k)"
    unfolding poweroff_def by (intro proper_bind safes) simp_all
qed

text \<open>A fault below the kernel's heap is reported, and the machine stops.\<close>

lemma KPANIC_live: "CHR 0x00 \<notin> set s \<Longrightarrow> live_step (KPANIC s)"
  unfolding KPANIC_def by (rule live_sent, rule klog_sent [OF _ str_at_lit str_at_lit]) (simp_all add: lit_nonzero)

lemma report_safe [safes]: "safe_step (page_fault_report e a)"
  unfolding page_fault_report_def [abs_def] Let_def by (intro safes lives) (simp_all add: sgr_def)

definition stops :: "outcome option \<Rightarrow> bool" where
  "stops r \<longleftrightarrow> (case r of Some (Halted k) \<Rightarrow> True | _ \<Rightarrow> False)"

lemma stops_Halted [simp]: "stops (Some (Halted k))"
  by (simp add: stops_def)

lemma stops_proper: "stops r \<Longrightarrow> proper r"
  by (auto simp: stops_def proper_def split: option.splits outcome.splits)

lemma stops_bind: "safe_step f \<Longrightarrow> shape_ok k \<Longrightarrow> (\<And>k. shape_ok k \<Longrightarrow> stops (g k)) \<Longrightarrow> stops (do { k \<leftarrow> f k; g k })"
  unfolding safe_step_def by fastforce

lemma touch_stops:
  assumes "shape_ok k" "a < 0xD0000000" "translate (k_mm k) a = None"
  shows "stops (touch a write k)"
proof -
  have "mmu_handle_page_fault e a m = None" for e m
    using assms(2) by (auto simp: mmu_handle_page_fault_def dest: leD)
  moreover have "rd exception_messages 14 = Some ''Page Fault''" by (simp add: exception_messages_def)
  ultimately have "stops (isr_handler 14 e a k)" for e
    unfolding isr_handler_def using assms(1)
    by simp (intro stops_bind safes, simp_all)
  then show ?thesis using assms(3) by (simp add: touch_def)
qed

lemma touch_low: "shape_ok k \<Longrightarrow> a < 0xD0000000 \<Longrightarrow> proper (touch a write k)"
  using stops_proper [OF touch_stops] by (cases "translate (k_mm k) a") (simp_all add: touch_def)

lemma mia_safe: "shape_ok k \<Longrightarrow> proper (mia k)"
  unfolding mia_def by (intro proper_bind proper_cont proper_runs touch_low safes lives KPANIC_live) simp_all

text \<open>The heap's self-test leaves nothing allocated.\<close>

lemma memtest_safe:
  assumes k: "shape_ok k"
  shows "proper (memtest k)"
proof -
  have "term_ok (k_term k)" "heap_rep (k_heap k) [(HEAP_VIRT_START, 65520, True)]" "256 \<le> unat (65520 :: u32)"
    using k by (simp_all add: shape_ok_def kernel_ok_def heap_idle_def)
  from memtest_spec [OF this] k obtain h where
    h: "memtest k = runs (emits (memtest_text (HEAP_VIRT_START + 16)) (k\<lparr>k_heap := h\<rparr>))" "heap_idle h"
    unfolding shape_ok_def heap_idle_def by metis
  have "mm_ok (hmm h)" using h(2) by (simp add: heap_idle_def heap_rep_def)
  then have "shape_ok (k\<lparr>k_heap := h\<rparr>)" using k h(2) by (simp add: shape_ok_def kernel_ok_def)
  then show ?thesis unfolding h(1) using proper_runs [OF safe_emits] by blast
qed

section \<open>The commands with conditions\<close>

text \<open>The keyboard's controller takes a byte again and again.\<close>

definition controller_live :: "bus \<Rightarrow> bool" where
  "controller_live b \<longleftrightarrow> (\<forall>n. \<exists>m \<ge> n. script b m 0x64 AND 0x02 = 0)"

lemma controller_wait_step:
  "keyboard_controller_wait b = (if script b (clock b) 0x64 AND 0x02 \<noteq> 0
     then keyboard_controller_wait (b\<lparr>clock := clock b + 1\<rparr>) else Some (b\<lparr>clock := clock b + 1\<rparr>))"
  by (subst keyboard_controller_wait.simps) (simp add: port_in_def)

lemma controller_wait_returns:
  assumes "controller_live b"
  shows "\<exists>b'. keyboard_controller_wait b = Some b'"
proof -
  obtain m where m: "m \<ge> clock b" "script b m 0x64 AND 0x02 = 0" using assms by (auto simp: controller_live_def)
  have "\<exists>b'. keyboard_controller_wait b = Some b'" if "clock b + k = m" "script b m 0x64 AND 0x02 = 0" for k b
    using that
  proof (induction k arbitrary: b)
    case (Suc k)
    then show ?case using Suc.IH [of "b\<lparr>clock := clock b + 1\<rparr>"] by (subst controller_wait_step) auto
  qed (subst controller_wait_step, simp)
  from this [of b "m - clock b"] m show ?thesis by simp
qed

lemma reboot_safe:
  assumes k: "shape_ok k" and c: "controller_live (k_bus k)"
  shows "proper (reboot k)"
proof -
  obtain k1 where k1: "emits (lit (''Rebooting...'' @ nl)) k = Some k1" using emits_shape [OF k] by blast
  then obtain b where "keyboard_controller_wait (k_bus k1) = Some b"
    using controller_wait_returns [OF c] emits_fields [OF k1] by auto
  then show ?thesis using k1 by (simp add: reboot_def prints_lit on_bus_def)
qed

text \<open>The view of the mappings reads the directory at its physical address.\<close>

lemma mmap_safe:
  assumes k: "shape_ok k" and f: "translate (k_mm k) (page_addr (kernel_directory (k_mm k))) \<noteq> None"
  shows "proper (runs (on_bus (mmu_view_mappings (k_mm k)) k))"
proof -
  obtain g where g: "translate (k_mm k) (page_addr (kernel_directory (k_mm k))) = Some g" using f by auto
  have len: "length (frames (k_mm k) g) = 1024" using k by (simp add: shape_ok_def kernel_ok_def mm_ok_def)
  have row: "live_step (\<lambda>b. do {
       pde \<leftarrow> rd (frames (k_mm k) g) i;
       if entry_present pde then do {
         b \<leftarrow> serial_write_string (lit ''Range: '' @ [0]) b;
         b \<leftarrow> print_hex (of_nat (i * 4 * 1024 * 1024)) b;
         b \<leftarrow> serial_write_string (lit '' - '' @ [0]) b;
         b \<leftarrow> print_hex (of_nat (i * 4 * 1024 * 1024) + (4 * 1024 * 1024 - 1)) b;
         b \<leftarrow> serial_write_string (lit (if bit pde 2 then '' [USER] '' else '' [KERNEL] '') @ [0]) b;
         serial_write_string (lit (if bit pde 1 then ''R/W'' else ''R-O'') @ lit [CHR 0x0D, CHR 0x0A] @ [0]) b }
       else Some b })" if "i < 1024" for i
    unfolding rd_in [of i "frames (k_mm k) g", unfolded len, OF that] bind.bind_lunit
    by (intro lives) simp_all
  have "live_step (mmu_view_mappings (k_mm k))"
    unfolding mmu_view_mappings_def [abs_def] g Let_def bind.bind_lunit by (intro lives row) simp_all
  then show ?thesis by (rule proper_runs [OF safe_bus k])
qed

lemma memdump_safe:
  assumes k: "shape_ok k" and w: "argv (k_buffer k) args ws" and l: "\<forall>v \<in> set (tl ws). length v \<le> 9"
  shows "\<exists>k'. memdump args k = Some k' \<and> shape_ok k'"
proof (cases "length args = 2")
  case True
  have n: "length ws = 2" using w True by (auto simp: argv_def list_all2_lengthD [symmetric] dest: list_all2_lengthD)
  then obtain c v where "ws = [c, v]" by (cases ws; cases "tl ws") auto
  then have v: "length (ws ! 1) \<le> 9" using l by simp
  have a: "rd args 1 = Some (args ! 1)" "str_at (k_buffer k) (args ! 1) (ws ! 1)" using argv_nth [OF w, of 1] True by simp_all
  obtain sz where sz: "atoi (k_buffer k) (args ! 1) = Some sz" using atoi_total [OF a(2) v] by blast
  show ?thesis
  proof (cases "sz < 1 \<or> sz > 16384")
    case True
    then show ?thesis using sz a(1) \<open>length args = 2\<close> emits_shape [OF k] by (simp add: memdump_def prints_lit)
  next
    case False
    then show ?thesis using sz a(1) \<open>length args = 2\<close> safe_bus [OF live_dump] k by (simp add: memdump_def safe_step_def)
  qed
qed (use emits_shape [OF k] in \<open>simp add: memdump_def prints_lit\<close>)

section \<open>Peek\<close>

text \<open>
  A read of a byte returns if its page is mapped, stops the machine if it is below the heap's region and not mapped,
  and maps it in that region while there are frames. The page tables' own window is left out.
\<close>

definition peekable :: "u32 \<Rightarrow> mm \<Rightarrow> bool" where
  "peekable a m \<longleftrightarrow> translate m a \<noteq> None \<or> a < 0xD0000000 \<or> (a < 0xFFC00000 \<and> 2 \<le> card (free_pages (phys m)))"

lemma load_byte_mapped: "mm_ok m \<Longrightarrow> translate m a \<noteq> None \<Longrightarrow> \<exists>v. load_byte a m = Some v"
  by (auto simp: load_byte_def mm_ok_def less_mult_imp_div_less)

lemma touch_peekable:
  assumes k: "shape_ok k" and p: "peekable a (k_mm k)"
  shows "\<exists>r. touch a False k = Some r \<and> (\<forall>k'. r = Running k' \<longrightarrow> shape_ok k' \<and> translate (k_mm k') a \<noteq> None)"
proof (cases "translate (k_mm k) a = None")
  case False
  then show ?thesis using k by (auto simp: touch_def)
next
  case True
  let ?k = "k\<lparr>k_pos := 0\<rparr>"
  have ok: "kernel_ok ?k" and h: "heap_rep (k_heap k) [(HEAP_VIRT_START, 65520, True)]"
    using k by (simp_all add: shape_ok_def heap_idle_def)
  show ?thesis
  proof (cases "a < 0xD0000000")
    case low: True
    then have "stops (touch a False k)" using touch_stops [OF k] True by blast
    then show ?thesis by (auto simp: stops_def split: option.splits outcome.splits)
  next
    case False
    then have a: "0xD0000000 \<le> a" by (simp only: not_less)
    have top: "unat a < heap_top" "2 \<le> card (free_pages (phys (k_mm k)))"
      using p True False by (simp_all add: peekable_def word_less_nat_alt)
    obtain m where m: "mmu_handle_page_fault 0 a (k_mm k) = Some m" "heap_idle ((k_heap k)\<lparr>hmm := m\<rparr>)" "translate m a \<noteq> None"
      using heap_rep_fault [OF h heap_pd_index [OF top(1)] a _ True top(2), of 0] k shrinks_apart
      by (auto simp: heap_idle_def shape_ok_def)
    have t0: "term_ok (k_term k)" using ok by (simp add: kernel_ok_def)
    obtain t where t: "isr_handler 14 0 a k = Some (Running (set_mm m (k\<lparr>k_term := t\<rparr>)))"
      "puts terminal_putchar (lit ''EXCEPTION: Page Fault'' @ [10]) (k_term k) = Some t"
      using isr_handler_resolves [OF t0 m(1)] by blast
    obtain t' where "puts terminal_putchar (lit ''EXCEPTION: Page Fault'' @ [10]) (k_term k) = Some t'" "term_ok t'"
      using vga.puts_ok [OF t0] by blast
    then have "term_ok t" using t(2) by (simp only: option.inject)
    then have "shape_ok (set_mm m (k\<lparr>k_term := t\<rparr>))"
      using ok m(2) by (simp add: shape_ok_def kernel_ok_def set_mm_def heap_idle_def heap_rep_def)
    then show ?thesis using True t(1) m(3) by (simp add: touch_def set_mm_def)
  qed
qed

lemma debug_peek_safe:
  assumes k: "shape_ok k" and p: "peekable a (k_mm k)"
  shows "proper (mmu_debug_peek a k)"
proof -
  let ?nl = "[CHR 0x0D, CHR 0x0A]"
  let ?p = "\<lambda>b. do { b \<leftarrow> serial_write_string (lit (?nl @ ''[DEBUG] Peeking at '') @ [0]) b; b \<leftarrow> print_hex a b;
     serial_write_string (lit (''...'' @ ?nl) @ [0]) b }"
  have "live_step ?p" by (intro lives) simp_all
  then obtain b where b: "?p (k_bus k) = Some b" "shape_ok (k\<lparr>k_bus := b\<rparr>)"
    using k by (auto simp: live_step_def shape_ok_def kernel_ok_def)
  let ?k = "k\<lparr>k_bus := b\<rparr>"
  obtain r where r: "touch a False ?k = Some r" "\<forall>k'. r = Running k' \<longrightarrow> shape_ok k' \<and> translate (k_mm k') a \<noteq> None"
    using touch_peekable [OF b(2)] p by auto
  let ?c = "\<lambda>k. do { v \<leftarrow> load_byte a (k_mm k); k \<leftarrow> prints ''Value found : '' k; k \<leftarrow> print_hex_term (ucast v) k;
       k \<leftarrow> prints [CHR 0x0A] k; k \<leftarrow> serial_puts ''Value found: '' k; k \<leftarrow> on_bus (print_hex (ucast v)) k;
       runs (serial_puts ?nl k) }"
  have "mmu_debug_peek a k = cont (Some r) ?c"
    using b(1) r(1) by (auto simp: mmu_debug_peek_def Let_def serial_puts_def on_bus_def bind_eq_Some_conv)
  moreover have "proper (?c k')" if k': "shape_ok k'" "translate (k_mm k') a \<noteq> None" for k'
  proof -
    have "mm_ok (k_mm k')" using k'(1) by (simp add: shape_ok_def kernel_ok_def)
    then obtain v where v: "load_byte a (k_mm k') = Some v" using load_byte_mapped k'(2) by blast
    show ?thesis unfolding v bind.bind_lunit using k'(1)
      by (intro proper_bind proper_runs safes lives) (simp_all add: print_hex_term_emits safe_emits)
  qed
  ultimately show ?thesis using r(2) by (cases r) (simp_all add: cont_def)
qed

lemma peek_safe:
  assumes k: "shape_ok k" and w: "argv (k_buffer k) args ws" and p: "\<forall>v \<in> set (tl ws). peekable (hex_of v) (k_mm k)"
  shows "proper (peek args k)"
proof (cases "length args = 2")
  case True
  have "length ws = 2" using w True by (auto simp: argv_def list_all2_lengthD [symmetric] dest: list_all2_lengthD)
  then obtain c v where "ws = [c, v]" by (cases ws; cases "tl ws") auto
  then have "peekable (hex_of (ws ! 1)) (k_mm k)" using p by simp
  moreover have a: "rd args 1 = Some (args ! 1)" "str_at (k_buffer k) (args ! 1) (ws ! 1)" using argv_nth [OF w, of 1] True by simp_all
  ultimately show ?thesis using True htoi_spec [OF a(2)] debug_peek_safe [OF k] by (simp add: peek_def)
next
  case False
  then show ?thesis using proper_runs [OF safe_prints k] by (simp add: peek_def)
qed

end
