(* ===== verification/Kernel_Safe.thy ===== *)
theory Kernel_Safe
  imports Interrupts Safe_Commands
begin

text \<open>
  The kernel after its start: whatever keys are pressed and whatever lines are entered, every interrupt returns
  or stops the machine on purpose, and keeps the invariant of the whole state. The one command left out is
  poke, which writes where the user says; five others have a condition on the line and the state.
\<close>

section \<open>Enter\<close>

text \<open>
  The lines that are served safely, by their words. poke may write anywhere; uptime prints the tick counter as an
  \<open>int\<close>, memdump's size is at most nine characters, mmap needs the kernel's directory mapped at its physical
  address, peek an address that can be read or reported, and reboot a controller that takes the byte.
\<close>

fun tame_words :: "byte list list \<Rightarrow> kernel \<Rightarrow> bool" where
  "tame_words [] k = True"
| "tame_words (w # ws) k \<longleftrightarrow> w \<noteq> lit ''poke'' \<and>
     (w = lit ''uptime'' \<longrightarrow> tick (k_timer k) \<noteq> 0x80000000) \<and>
     (w = lit ''memdump'' \<longrightarrow> (\<forall>v \<in> set ws. length v \<le> 9)) \<and>
     (w = lit ''mmap'' \<longrightarrow> translate (k_mm k) (page_addr (kernel_directory (k_mm k))) \<noteq> None) \<and>
     (w = lit ''peek'' \<longrightarrow> (\<forall>v \<in> set ws. peekable (hex_of v) (k_mm k))) \<and>
     (w = lit ''reboot'' \<longrightarrow> controller_live (k_bus k))"

definition tame :: "kernel \<Rightarrow> bool" where
  "tame k \<longleftrightarrow> tame_words (line_words (cstring (k_buffer k))) k"

lemma tame_words_cong:
  "k_timer k' = k_timer k \<Longrightarrow> k_heap k' = k_heap k \<Longrightarrow> script (k_bus k') = script (k_bus k) \<Longrightarrow>
   tame_words ws k' = tame_words ws k"
  by (cases ws) (simp_all add: controller_live_def)

lemma tame_bus [simp]: "script b = script (k_bus k) \<Longrightarrow> tame (k\<lparr>k_bus := b\<rparr>) = tame k"
  unfolding tame_def by (subst tame_words_cong [of "k\<lparr>k_bus := b\<rparr>" k]) simp_all

lemma port_in_script: "port_in p b = (v, b') \<Longrightarrow> script b' = script b"
  by (auto simp: port_in_def)

lemma some_runs: "\<exists>k'. r = Some k' \<and> shape_ok k' \<Longrightarrow> proper (runs r)"
  by (auto simp: runs_def)

lemma dispatch_safe:
  assumes k: "shape_ok k" and w: "argv (k_buffer k) args (w # ws)" and t: "tame_words (w # ws) k"
  shows "proper (shell_dispatch args k)"
proof (cases "map_of (map (\<lambda>(s, r). (lit s, r)) (command_table args k)) w")
  case None
  then show ?thesis using shell_dispatch_spec [OF w] emits_shape [OF k] some_runs by simp
next
  case (Some r)
  obtain s where s: "(s, r) \<in> set (command_table args k)" "w = lit s" using map_of_SomeD [OF Some] by auto
  have args: "args \<noteq> []" using w by (auto simp: argv_def)
  note t = t [unfolded s(2) tame_words.simps]
  have c: "proper (runs (help_command k))" "proper (runs (fetch k))" "proper (runs (on_term terminal_clear k))"
    using help_safe fetch_safe safe_term [OF clear_ok] by (auto intro: proper_runs [OF _ k])
  have u: "proper (runs (uptime args k))" if "s = ''uptime''" using uptime_safe [OF k w] t that by (intro some_runs) blast
  have d: "proper (runs (memdump args k))" if "s = ''memdump''"
    using memdump_safe [OF k w] t that by (intro some_runs) simp
  have m: "proper (runs (on_bus (mmu_view_mappings (k_mm k)) k))" if "s = ''mmap''" using mmap_safe [OF k] t that by blast
  have p: "proper (peek args k)" if "s = ''peek''" using peek_safe [OF k w] t that by simp
  have b: "proper (reboot k)" if "s = ''reboot''" using reboot_safe [OF k] t that by blast
  have e: "proper (runs (echo args k))" using echo_emits [OF w args] emits_shape [OF k] by (intro some_runs) simp
  have n: "s \<noteq> ''poke''" using t by blast
  have "proper r" using s(1) unfolding command_table_def list.set
    by (elim insertE emptyE Pair_inject)
       (simp_all add: n c u d m p b e setprompt_safe [OF k w, THEN some_runs] poweroff_safe [OF k] mia_safe [OF k]
          memtest_safe [OF k] crash_def del: not_None_eq)
  then show ?thesis using shell_dispatch_spec [OF w] Some by simp
qed

lemma key_enter_safe:
  assumes ok: "kernel_ok k" "heap_idle (k_heap k)" and t: "tame k"
  shows "\<exists>r. key_enter k = Some r \<and> (\<forall>k'. r = Running k' \<longrightarrow> kernel_ok k' \<and> heap_idle (k_heap k'))"
proof -
  let ?cs = "cstring (k_buffer k)"
  obtain k1 args where e: "command_state ?cs args k k1"
    "key_enter k = cont (if args = [] then Some (Running k1) else shell_dispatch args k1) new_line"
    using key_enter_run [OF ok(1)] by blast
  define R where "R = (if args = [] then Some (Running k1) else shell_dispatch args k1)"
  have "k1 = k\<lparr>k_term := k_term k1, k_hist := k_hist k1, k_buffer := k_buffer k1\<rparr>"
    using e(1) by (simp add: command_state_def)
  then have f: "k_timer k1 = k_timer k" "k_heap k1 = k_heap k" "k_bus k1 = k_bus k"
    by (metis kernel.select_convs(7,8,9) kernel.surjective kernel.update_convs(1,2,3))+
  have k1: "shape_ok k1" "argv (k_buffer k1) args (line_words ?cs)"
    using e(1) ok(2) f(2) by (simp_all add: command_state_def shape_ok_def)
  have t1: "tame_words (line_words ?cs) k1" using t tame_words_cong [of k1 k] f by (simp add: tame_def)
  have "proper R"
  proof (cases "line_words ?cs")
    case Nil
    then show ?thesis unfolding R_def using k1 by (simp add: argv_def)
  next
    case (Cons w ws)
    then have "args \<noteq> []" using k1(2) by (auto simp: argv_def)
    then show ?thesis unfolding R_def using dispatch_safe [OF k1(1)] k1(2) t1 Cons by simp
  qed
  moreover have "\<exists>k'. new_line k2 = Some (Running k') \<and> kernel_ok k' \<and> heap_idle (k_heap k')" if "shape_ok k2" for k2
    using new_line_run [of k2] that unfolding shape_ok_def by (metis kernel.select_convs(8) kernel.surjective kernel.update_convs(1,3,4))
  ultimately show ?thesis unfolding e(2) R_def [symmetric] by (cases R) (fastforce simp: cont_def split: outcome.splits)+
qed

section \<open>Interrupts\<close>

text \<open>The invariant of the machine; \<open>heap_idle\<close> includes that no page of the kernel's own memory is free.\<close>

definition machine_ok :: "machine \<Rightarrow> bool" where
  "machine_ok m \<longleftrightarrow> kernel_ok (m_kernel m) \<and> heap_idle (k_heap (m_kernel m)) \<and> length (irq_handlers m) = 16 \<and>
     set (irq_handlers m) \<subseteq> {None, Some Timer_Callback, Some Keyboard_Callback}"

text \<open>When the next scan code is Enter's, the line is tame.\<close>

definition tame_input :: "machine \<Rightarrow> bool" where
  "tame_input m \<longleftrightarrow> (script (k_bus (m_kernel m)) (clock (k_bus (m_kernel m))) 0x60 = 0x1C \<longrightarrow> tame (m_kernel m))"

lemma only_entry: "x \<notin> set pre \<Longrightarrow> x \<notin> set post \<Longrightarrow> i < length (pre @ x # post) \<Longrightarrow> (pre @ x # post) ! i = x \<Longrightarrow> i = length pre"
  by (auto simp: nth_append nth_Cons' split: if_splits)

lemma enter_entry:
  assumes "t \<in> {scancode_to_ascii, scancode_to_ascii_shift}" "i < 128" "t ! i = 10"
  shows "i = 28"
proof -
  let ?a = "[0, 0] @ lit ''1234567890-='' @ [0, 0] @ lit ''qwertyuiop[]''"
  let ?b = "[0] @ lit ''asdfghjkl;'' @ lit [CHR 0x27, CHR 0x60] @ [0] @ lit [CHR 0x5C] @ lit ''zxcvbnm,./'' @ [0] @
     lit ''*'' @ [0] @ lit '' '' @ replicate 70 0"
  let ?c = "[0, 0] @ lit ''!@#$%^&*()_+'' @ [0, 0] @ lit ''QWERTYUIOP{}''"
  let ?d = "[0] @ lit ''ASDFGHJKL:'' @ lit [CHR 0x22] @ lit ''~'' @ [0] @ lit ''|'' @ lit ''ZXCVBNM<>?'' @ [0] @
     lit ''*'' @ [0] @ lit '' '' @ replicate 70 0"
  have t: "scancode_to_ascii = ?a @ 10 # ?b" "scancode_to_ascii_shift = ?c @ 10 # ?d"
    by (simp_all only: scancode_to_ascii_def scancode_to_ascii_shift_def append.simps append_assoc)
  have l: "length ?a = 28" "length ?c = 28" by (simp_all add: lit_def)
  have n: "10 \<notin> set ?a" "10 \<notin> set ?b" "10 \<notin> set ?c" "10 \<notin> set ?d" by (simp_all add: lit_def)
  from assms(1) show ?thesis
  proof (elim insertE emptyE)
    assume "t = scancode_to_ascii"
    then show ?thesis using only_entry [OF n(1,2), of i] l(1) assms(2,3) tables_length(1) unfolding t(1) by metis
  next
    assume "t = scancode_to_ascii_shift"
    then show ?thesis using only_entry [OF n(3,4), of i] l(2) assms(2,3) tables_length(2) unfolding t(2) by metis
  qed
qed

lemma enter_code:
  assumes "decodes kb sc (Char 10) kb'"
  shows "sc = 0x1C"
proof -
  obtain t where c: "t \<in> {scancode_to_ascii, scancode_to_ascii_shift}" "sc < 0x80" "t ! unat sc = 10"
    using assms by (elim decodes_elim) (auto split: if_splits)
  have "unat sc = 28" using enter_entry [OF c(1) _ c(3)] c(2) by (simp add: word_less_nat_alt)
  then have "of_nat (unat sc) = (28 :: byte)" by simp
  then show ?thesis by simp
qed

text \<open>An interrupt of a line the kernel serves, at a moment when the input is tame.\<close>

inductive interrupt :: "machine \<Rightarrow> machine \<Rightarrow> bool" where
  served_interrupt: "i < 16 \<Longrightarrow> tame_input m \<Longrightarrow> irq_handler (of_nat (32 + i)) m = Some (Alive m') \<Longrightarrow> interrupt m m'"

inductive_cases interrupt_cases: "interrupt m m'"

lemma keyboard_callback_safe:
  assumes ok: "kernel_ok k" "heap_idle (k_heap k)" and t: "script (k_bus k) (clock (k_bus k)) 0x60 = 0x1C \<longrightarrow> tame k"
  shows "\<exists>kb' r. keyboard_callback kb k = Some (kb', r) \<and> (\<forall>k'. r = Running k' \<longrightarrow> kernel_ok k' \<and> heap_idle (k_heap k'))"
proof -
  obtain sc b where p: "port_in 0x60 (k_bus k) = (sc, b)" by (cases "port_in 0x60 (k_bus k)")
  let ?k = "k\<lparr>k_bus := b\<rparr>"
  have sc: "script (k_bus k) (clock (k_bus k)) 0x60 = sc" using p by (simp add: port_in_def)
  have k: "kernel_ok ?k" "heap_idle (k_heap ?k)" using port_in_bus [OF p] ok by (simp_all add: kernel_ok_def)
  obtain e kb' where d: "decodes kb sc e kb'" "keyboard_callback kb k = leaving kb' (key_action e ?k)"
    using keyboard_callback_decodes [OF p] by blast
  have e0: "e \<noteq> Char 0" using d(1) by (elim decodes_elim) auto
  have "\<exists>r. key_action e ?k = Some r \<and> (\<forall>k'. r = Running k' \<longrightarrow> kernel_ok k' \<and> heap_idle (k_heap k'))"
  proof (cases "e = Char 10")
    case True
    then have "tame ?k" using enter_code d(1) t sc port_in_script [OF p] by simp
    then show ?thesis using key_enter_safe [OF k] True by (simp add: shell_handle_key_def)
  next
    case False
    then show ?thesis using key_action_safe [OF k(1) e0] key_action_heap [OF k(1) False] k(2) by auto
  qed
  then show ?thesis using d(2) by (auto simp: leaving_def)
qed

lemma irq_safe:
  assumes m: "machine_ok m" "tame_input m" and i: "i < 16"
  shows "\<exists>r. irq_handler (of_nat (32 + i)) m = Some r \<and> (\<forall>m'. r = Alive m' \<longrightarrow> machine_ok m')"
proof -
  let ?k = "(m_kernel m)\<lparr>k_bus := after_eoi i (k_bus (m_kernel m))\<rparr>"
  let ?m = "m\<lparr>m_kernel := ?k\<rparr>"
  have h: "length (irq_handlers m) = 16" "irq_handlers m ! i \<in> {None, Some Timer_Callback, Some Keyboard_Callback}"
    using m(1) nth_mem [of i "irq_handlers m"] i unfolding machine_ok_def by (simp, metis subsetD)
  have k: "kernel_ok ?k" "heap_idle (k_heap ?k)"
    using m(1) by (simp_all add: machine_ok_def kernel_ok_def uart_live_def after_eoi_def)
  then have mk: "machine_ok ?m" using m(1) by (simp add: machine_ok_def)
  have e: "irq_handler (of_nat (32 + i)) m = (case irq_handlers m ! i of None \<Rightarrow> Some (Alive ?m) | Some h \<Rightarrow> call_handler h ?m)"
    using irq_handler_eq [OF i h(1)] by (simp add: Let_def)
  show ?thesis using h(2)
  proof (elim insertE emptyE)
    assume "irq_handlers m ! i = None"
    then show ?thesis using e mk by simp
  next
    assume "irq_handlers m ! i = Some Timer_Callback"
    moreover have "machine_ok (?m\<lparr>m_kernel := ?k\<lparr>k_timer := timer_callback (k_timer ?k)\<rparr>\<rparr>)"
      using mk by (simp add: machine_ok_def kernel_ok_def)
    ultimately show ?thesis using e by (simp add: call_handler_def)
  next
    assume "irq_handlers m ! i = Some Keyboard_Callback"
    moreover have "script (k_bus ?k) (clock (k_bus ?k)) 0x60 = 0x1C \<longrightarrow> tame ?k"
      using m(2) by (simp add: tame_input_def after_eoi_def)
    then obtain kb' r where "keyboard_callback (m_keyboard m) ?k = Some (kb', r)" "\<forall>k'. r = Running k' \<longrightarrow> kernel_ok k' \<and> heap_idle (k_heap k')"
      using keyboard_callback_safe [OF k] by blast
    ultimately show ?thesis using e m(1) by (cases r) (simp_all add: call_handler_def machine_ok_def)
  qed
qed

text \<open>Preservation along any sequence of interrupts.\<close>

lemma interrupts_safe: "interrupt\<^sup>*\<^sup>* m m' \<Longrightarrow> machine_ok m \<Longrightarrow> machine_ok m'"
proof (induction rule: rtranclp_induct)
  case (step m1 m2)
  then show ?case using irq_safe by (fastforce elim!: interrupt_cases)
qed

section \<open>Properties\<close>

text \<open>A kernel whose bitmap ends at a page boundary.\<close>

definition held_linker :: linker where
  "held_linker = example_linker\<lparr>kernel_end := 0x11FF00\<rparr>"

lemma held_linker_facts:
  "enough_memory held_linker example_memory example_info example_entries" "own_memory_held held_linker example_entries"
proof -
  have k: "kernel_end held_linker = 0x11FF00" by (simp add: held_linker_def)
  have g: "good_map 0x11FF00 example_entries" unfolding good_map_def example_bitmap
    by (simp add: example_entries_def fits_map_def)
  have r: "reserved_pages 0x11FF00 256 = reserved_pages 0x120000 256" by (simp add: reserved_pages_def)
  have "34 \<le> card (available_pages example_entries - reserved_pages 0x120000 256)"
    using example_machine_facts(4) by (simp add: enough_memory_def example_bitmap example_linker_def)
  then show "enough_memory held_linker example_memory example_info example_entries"
    using example_walk g unfolding enough_memory_def k example_bitmap r by (simp add: example_info_def)
  show "own_memory_held held_linker example_entries"
    unfolding own_memory_held_def k example_bitmap example_pages by simp
qed



end
