(* ===== verification/Framebuffer.thy ===== *)
theory Framebuffer
  imports Boot
begin

text \<open>
  src/drivers/framebuffer.c and src/include/font.h: pixels in the linear framebuffer that the boot loader
  describes, and text drawn with the 8x16 font. Memory is a function from addresses to bytes; a pixel is
  stored as the four bytes of a 32-bit word, the lowest first.
\<close>

section \<open>The font\<close>

text \<open>The glyphs the table names; every other entry of the 128 is zero.\<close>

definition font_glyphs :: "(nat \<times> byte list) list" where
  "font_glyphs = [
     (32, [0x00, 0x00, 0x00, 0x00, 0x00, 0x00, 0x00, 0x00, 0x00, 0x00, 0x00, 0x00, 0x00, 0x00, 0x00, 0x00]),
     (33, [0x00, 0x00, 0x18, 0x3C, 0x3C, 0x3C, 0x18, 0x18, 0x18, 0x00, 0x18, 0x18, 0x00, 0x00, 0x00, 0x00]),
     (34, [0x00, 0x66, 0x66, 0x66, 0x24, 0x00, 0x00, 0x00, 0x00, 0x00, 0x00, 0x00, 0x00, 0x00, 0x00, 0x00]),
     (35, [0x00, 0x00, 0x00, 0x6C, 0x6C, 0xFE, 0x6C, 0x6C, 0x6C, 0xFE, 0x6C, 0x6C, 0x00, 0x00, 0x00, 0x00]),
     (36, [0x00, 0x10, 0x10, 0x7C, 0xD6, 0xD0, 0x7C, 0x16, 0xD6, 0x7C, 0x10, 0x10, 0x00, 0x00, 0x00, 0x00]),
     (39, [0x00, 0x18, 0x18, 0x18, 0x30, 0x00, 0x00, 0x00, 0x00, 0x00, 0x00, 0x00, 0x00, 0x00, 0x00, 0x00]),
     (40, [0x00, 0x00, 0x0C, 0x18, 0x30, 0x30, 0x30, 0x30, 0x30, 0x30, 0x18, 0x0C, 0x00, 0x00, 0x00, 0x00]),
     (41, [0x00, 0x00, 0x30, 0x18, 0x0C, 0x0C, 0x0C, 0x0C, 0x0C, 0x0C, 0x18, 0x30, 0x00, 0x00, 0x00, 0x00]),
     (42, [0x00, 0x00, 0x00, 0x00, 0x00, 0x66, 0x3C, 0xFF, 0x3C, 0x66, 0x00, 0x00, 0x00, 0x00, 0x00, 0x00]),
     (43, [0x00, 0x00, 0x00, 0x00, 0x00, 0x18, 0x18, 0x7E, 0x18, 0x18, 0x00, 0x00, 0x00, 0x00, 0x00, 0x00]),
     (44, [0x00, 0x00, 0x00, 0x00, 0x00, 0x00, 0x00, 0x00, 0x00, 0x18, 0x18, 0x18, 0x30, 0x00, 0x00, 0x00]),
     (45, [0x00, 0x00, 0x00, 0x00, 0x00, 0x00, 0x00, 0xFE, 0x00, 0x00, 0x00, 0x00, 0x00, 0x00, 0x00, 0x00]),
     (46, [0x00, 0x00, 0x00, 0x00, 0x00, 0x00, 0x00, 0x00, 0x00, 0x00, 0x18, 0x18, 0x00, 0x00, 0x00, 0x00]),
     (47, [0x00, 0x00, 0x00, 0x02, 0x06, 0x0C, 0x18, 0x30, 0x60, 0xC0, 0x80, 0x00, 0x00, 0x00, 0x00, 0x00]),
     (48, [0x00, 0x00, 0x7C, 0xC6, 0xC6, 0xCE, 0xDE, 0xF6, 0xE6, 0xC6, 0xC6, 0x7C, 0x00, 0x00, 0x00, 0x00]),
     (49, [0x00, 0x00, 0x18, 0x38, 0x78, 0x18, 0x18, 0x18, 0x18, 0x18, 0x18, 0x7E, 0x00, 0x00, 0x00, 0x00]),
     (50, [0x00, 0x00, 0x7C, 0xC6, 0x06, 0x0C, 0x18, 0x30, 0x60, 0xC0, 0xC6, 0xFE, 0x00, 0x00, 0x00, 0x00]),
     (51, [0x00, 0x00, 0x7C, 0xC6, 0x06, 0x06, 0x3C, 0x06, 0x06, 0x06, 0xC6, 0x7C, 0x00, 0x00, 0x00, 0x00]),
     (52, [0x00, 0x00, 0x0C, 0x1C, 0x3C, 0x6C, 0xCC, 0xFE, 0x0C, 0x0C, 0x0C, 0x1E, 0x00, 0x00, 0x00, 0x00]),
     (53, [0x00, 0x00, 0xFE, 0xC0, 0xC0, 0xFC, 0x06, 0x06, 0x06, 0x06, 0xC6, 0x7C, 0x00, 0x00, 0x00, 0x00]),
     (54, [0x00, 0x00, 0x38, 0x60, 0xC0, 0xC0, 0xFC, 0xC6, 0xC6, 0xC6, 0xC6, 0x7C, 0x00, 0x00, 0x00, 0x00]),
     (55, [0x00, 0x00, 0xFE, 0xC6, 0x06, 0x06, 0x0C, 0x18, 0x30, 0x30, 0x30, 0x30, 0x00, 0x00, 0x00, 0x00]),
     (56, [0x00, 0x00, 0x7C, 0xC6, 0xC6, 0xC6, 0x7C, 0xC6, 0xC6, 0xC6, 0xC6, 0x7C, 0x00, 0x00, 0x00, 0x00]),
     (57, [0x00, 0x00, 0x7C, 0xC6, 0xC6, 0xC6, 0x7E, 0x06, 0x06, 0x06, 0x0C, 0x78, 0x00, 0x00, 0x00, 0x00]),
     (58, [0x00, 0x00, 0x00, 0x00, 0x18, 0x18, 0x00, 0x00, 0x00, 0x18, 0x18, 0x00, 0x00, 0x00, 0x00, 0x00]),
     (59, [0x00, 0x00, 0x00, 0x00, 0x18, 0x18, 0x00, 0x00, 0x00, 0x18, 0x18, 0x30, 0x00, 0x00, 0x00, 0x00]),
     (61, [0x00, 0x00, 0x00, 0x00, 0x00, 0x7E, 0x00, 0x00, 0x7E, 0x00, 0x00, 0x00, 0x00, 0x00, 0x00, 0x00]),
     (63, [0x00, 0x00, 0x7C, 0xC6, 0xC6, 0x0C, 0x18, 0x18, 0x18, 0x00, 0x18, 0x18, 0x00, 0x00, 0x00, 0x00]),
     (64, [0x00, 0x00, 0x7C, 0xC6, 0xC6, 0xDE, 0xDE, 0xDE, 0xDC, 0xC0, 0xC0, 0x7C, 0x00, 0x00, 0x00, 0x00]),
     (65, [0x00, 0x00, 0x10, 0x38, 0x6C, 0xC6, 0xC6, 0xFE, 0xC6, 0xC6, 0xC6, 0xC6, 0x00, 0x00, 0x00, 0x00]),
     (66, [0x00, 0x00, 0xFC, 0x66, 0x66, 0x66, 0x7C, 0x66, 0x66, 0x66, 0x66, 0xFC, 0x00, 0x00, 0x00, 0x00]),
     (67, [0x00, 0x00, 0x3C, 0x66, 0xC2, 0xC0, 0xC0, 0xC0, 0xC0, 0xC2, 0x66, 0x3C, 0x00, 0x00, 0x00, 0x00]),
     (68, [0x00, 0x00, 0xF8, 0x6C, 0x66, 0x66, 0x66, 0x66, 0x66, 0x66, 0x6C, 0xF8, 0x00, 0x00, 0x00, 0x00]),
     (69, [0x00, 0x00, 0xFE, 0x66, 0x62, 0x68, 0x78, 0x68, 0x60, 0x62, 0x66, 0xFE, 0x00, 0x00, 0x00, 0x00]),
     (70, [0x00, 0x00, 0xFE, 0x66, 0x62, 0x68, 0x78, 0x68, 0x60, 0x60, 0x60, 0xF0, 0x00, 0x00, 0x00, 0x00]),
     (71, [0x00, 0x00, 0x3C, 0x66, 0xC2, 0xC0, 0xC0, 0xDE, 0xC6, 0xC6, 0x66, 0x3A, 0x00, 0x00, 0x00, 0x00]),
     (72, [0x00, 0x00, 0xC6, 0xC6, 0xC6, 0xC6, 0xFE, 0xC6, 0xC6, 0xC6, 0xC6, 0xC6, 0x00, 0x00, 0x00, 0x00]),
     (73, [0x00, 0x00, 0x3C, 0x18, 0x18, 0x18, 0x18, 0x18, 0x18, 0x18, 0x18, 0x3C, 0x00, 0x00, 0x00, 0x00]),
     (74, [0x00, 0x00, 0x1E, 0x0C, 0x0C, 0x0C, 0x0C, 0x0C, 0xCC, 0xCC, 0xCC, 0x78, 0x00, 0x00, 0x00, 0x00]),
     (75, [0x00, 0x00, 0xE6, 0x66, 0x66, 0x6C, 0x78, 0x78, 0x6C, 0x66, 0x66, 0xE6, 0x00, 0x00, 0x00, 0x00]),
     (76, [0x00, 0x00, 0xF0, 0x60, 0x60, 0x60, 0x60, 0x60, 0x60, 0x62, 0x66, 0xFE, 0x00, 0x00, 0x00, 0x00]),
     (77, [0x00, 0x00, 0xC6, 0xEE, 0xFE, 0xFE, 0xD6, 0xC6, 0xC6, 0xC6, 0xC6, 0xC6, 0x00, 0x00, 0x00, 0x00]),
     (78, [0x00, 0x00, 0xC6, 0xE6, 0xF6, 0xFE, 0xDE, 0xCE, 0xC6, 0xC6, 0xC6, 0xC6, 0x00, 0x00, 0x00, 0x00]),
     (79, [0x00, 0x00, 0x7C, 0xC6, 0xC6, 0xC6, 0xC6, 0xC6, 0xC6, 0xC6, 0xC6, 0x7C, 0x00, 0x00, 0x00, 0x00]),
     (80, [0x00, 0x00, 0xFC, 0x66, 0x66, 0x66, 0x7C, 0x60, 0x60, 0x60, 0x60, 0xF0, 0x00, 0x00, 0x00, 0x00]),
     (81, [0x00, 0x00, 0x7C, 0xC6, 0xC6, 0xC6, 0xC6, 0xC6, 0xC6, 0xD6, 0xDE, 0x7C, 0x0C, 0x0E, 0x00, 0x00]),
     (82, [0x00, 0x00, 0xFC, 0x66, 0x66, 0x66, 0x7C, 0x6C, 0x66, 0x66, 0x66, 0xE6, 0x00, 0x00, 0x00, 0x00]),
     (83, [0x00, 0x00, 0x7C, 0xC6, 0xC6, 0x60, 0x38, 0x0C, 0x06, 0xC6, 0xC6, 0x7C, 0x00, 0x00, 0x00, 0x00]),
     (84, [0x00, 0x00, 0xFF, 0xDB, 0x99, 0x18, 0x18, 0x18, 0x18, 0x18, 0x18, 0x3C, 0x00, 0x00, 0x00, 0x00]),
     (85, [0x00, 0x00, 0xC6, 0xC6, 0xC6, 0xC6, 0xC6, 0xC6, 0xC6, 0xC6, 0xC6, 0x7C, 0x00, 0x00, 0x00, 0x00]),
     (86, [0x00, 0x00, 0xC6, 0xC6, 0xC6, 0xC6, 0xC6, 0xC6, 0xC6, 0x6C, 0x38, 0x10, 0x00, 0x00, 0x00, 0x00]),
     (87, [0x00, 0x00, 0xC6, 0xC6, 0xC6, 0xC6, 0xD6, 0xD6, 0xD6, 0xFE, 0xEE, 0x6C, 0x00, 0x00, 0x00, 0x00]),
     (88, [0x00, 0x00, 0xC6, 0xC6, 0x6C, 0x7C, 0x38, 0x38, 0x7C, 0x6C, 0xC6, 0xC6, 0x00, 0x00, 0x00, 0x00]),
     (89, [0x00, 0x00, 0xC3, 0xC3, 0x66, 0x3C, 0x18, 0x18, 0x18, 0x18, 0x18, 0x3C, 0x00, 0x00, 0x00, 0x00]),
     (90, [0x00, 0x00, 0xFE, 0xC6, 0x86, 0x0C, 0x18, 0x30, 0x60, 0xC2, 0xC6, 0xFE, 0x00, 0x00, 0x00, 0x00]),
     (91, [0x00, 0x00, 0x3C, 0x30, 0x30, 0x30, 0x30, 0x30, 0x30, 0x30, 0x30, 0x3C, 0x00, 0x00, 0x00, 0x00]),
     (92, [0x00, 0x00, 0x00, 0x80, 0xC0, 0x60, 0x30, 0x18, 0x0C, 0x06, 0x02, 0x00, 0x00, 0x00, 0x00, 0x00]),
     (93, [0x00, 0x00, 0x3C, 0x0C, 0x0C, 0x0C, 0x0C, 0x0C, 0x0C, 0x0C, 0x0C, 0x3C, 0x00, 0x00, 0x00, 0x00]),
     (95, [0x00, 0x00, 0x00, 0x00, 0x00, 0x00, 0x00, 0x00, 0x00, 0x00, 0x00, 0x00, 0xFF, 0x00, 0x00, 0x00]),
     (96, [0x00, 0x30, 0x18, 0x0C, 0x00, 0x00, 0x00, 0x00, 0x00, 0x00, 0x00, 0x00, 0x00, 0x00, 0x00, 0x00]),
     (97, [0x00, 0x00, 0x00, 0x00, 0x00, 0x78, 0x0C, 0x7C, 0xCC, 0xCC, 0xCC, 0x76, 0x00, 0x00, 0x00, 0x00]),
     (98, [0x00, 0x00, 0xE0, 0x60, 0x60, 0x78, 0x6C, 0x66, 0x66, 0x66, 0x66, 0x7C, 0x00, 0x00, 0x00, 0x00]),
     (99, [0x00, 0x00, 0x00, 0x00, 0x00, 0x7C, 0xC6, 0xC0, 0xC0, 0xC0, 0xC6, 0x7C, 0x00, 0x00, 0x00, 0x00]),
     (100, [0x00, 0x00, 0x1C, 0x0C, 0x0C, 0x3C, 0x6C, 0xCC, 0xCC, 0xCC, 0xCC, 0x76, 0x00, 0x00, 0x00, 0x00]),
     (101, [0x00, 0x00, 0x00, 0x00, 0x00, 0x7C, 0xC6, 0xFE, 0xC0, 0xC0, 0xC6, 0x7C, 0x00, 0x00, 0x00, 0x00]),
     (102, [0x00, 0x00, 0x38, 0x6C, 0x64, 0x60, 0xF0, 0x60, 0x60, 0x60, 0x60, 0xF0, 0x00, 0x00, 0x00, 0x00]),
     (103, [0x00, 0x00, 0x00, 0x00, 0x00, 0x76, 0xCC, 0xCC, 0xCC, 0xCC, 0x7C, 0x0C, 0xCC, 0x78, 0x00, 0x00]),
     (104, [0x00, 0x00, 0xE0, 0x60, 0x60, 0x6C, 0x76, 0x66, 0x66, 0x66, 0x66, 0xE6, 0x00, 0x00, 0x00, 0x00]),
     (105, [0x00, 0x00, 0x18, 0x18, 0x00, 0x38, 0x18, 0x18, 0x18, 0x18, 0x18, 0x3C, 0x00, 0x00, 0x00, 0x00]),
     (106, [0x00, 0x00, 0x06, 0x06, 0x00, 0x0E, 0x06, 0x06, 0x06, 0x06, 0x06, 0x66, 0x66, 0x3C, 0x00, 0x00]),
     (107, [0x00, 0x00, 0xE0, 0x60, 0x60, 0x66, 0x6C, 0x78, 0x78, 0x6C, 0x66, 0xE6, 0x00, 0x00, 0x00, 0x00]),
     (108, [0x00, 0x00, 0x38, 0x18, 0x18, 0x18, 0x18, 0x18, 0x18, 0x18, 0x18, 0x3C, 0x00, 0x00, 0x00, 0x00]),
     (109, [0x00, 0x00, 0x00, 0x00, 0x00, 0xEC, 0xFE, 0xD6, 0xD6, 0xD6, 0xD6, 0xC6, 0x00, 0x00, 0x00, 0x00]),
     (110, [0x00, 0x00, 0x00, 0x00, 0x00, 0xDC, 0x66, 0x66, 0x66, 0x66, 0x66, 0x66, 0x00, 0x00, 0x00, 0x00]),
     (111, [0x00, 0x00, 0x00, 0x00, 0x00, 0x7C, 0xC6, 0xC6, 0xC6, 0xC6, 0xC6, 0x7C, 0x00, 0x00, 0x00, 0x00]),
     (112, [0x00, 0x00, 0x00, 0x00, 0x00, 0xDC, 0x66, 0x66, 0x66, 0x66, 0x7C, 0x60, 0x60, 0xF0, 0x00, 0x00]),
     (113, [0x00, 0x00, 0x00, 0x00, 0x00, 0x76, 0xCC, 0xCC, 0xCC, 0xCC, 0x7C, 0x0C, 0x0C, 0x1E, 0x00, 0x00]),
     (114, [0x00, 0x00, 0x00, 0x00, 0x00, 0xDC, 0x76, 0x66, 0x60, 0x60, 0x60, 0xF0, 0x00, 0x00, 0x00, 0x00]),
     (115, [0x00, 0x00, 0x00, 0x00, 0x00, 0x7C, 0xC6, 0x60, 0x38, 0x0C, 0xC6, 0x7C, 0x00, 0x00, 0x00, 0x00]),
     (116, [0x00, 0x00, 0x10, 0x30, 0x30, 0xFC, 0x30, 0x30, 0x30, 0x30, 0x36, 0x1C, 0x00, 0x00, 0x00, 0x00]),
     (117, [0x00, 0x00, 0x00, 0x00, 0x00, 0xCC, 0xCC, 0xCC, 0xCC, 0xCC, 0xCC, 0x76, 0x00, 0x00, 0x00, 0x00]),
     (118, [0x00, 0x00, 0x00, 0x00, 0x00, 0xC3, 0xC3, 0xC3, 0xC3, 0x66, 0x3C, 0x18, 0x00, 0x00, 0x00, 0x00]),
     (119, [0x00, 0x00, 0x00, 0x00, 0x00, 0xC6, 0xC6, 0xD6, 0xD6, 0xD6, 0xFE, 0x6C, 0x00, 0x00, 0x00, 0x00]),
     (120, [0x00, 0x00, 0x00, 0x00, 0x00, 0xC6, 0x6C, 0x38, 0x38, 0x38, 0x6C, 0xC6, 0x00, 0x00, 0x00, 0x00]),
     (121, [0x00, 0x00, 0x00, 0x00, 0x00, 0xC6, 0xC6, 0xC6, 0xC6, 0xC6, 0x7E, 0x06, 0x0C, 0xF8, 0x00, 0x00]),
     (122, [0x00, 0x00, 0x00, 0x00, 0x00, 0xFE, 0xCC, 0x18, 0x30, 0x60, 0xC6, 0xFE, 0x00, 0x00, 0x00, 0x00]),
     (123, [0x00, 0x00, 0x0E, 0x18, 0x18, 0x18, 0x70, 0x18, 0x18, 0x18, 0x18, 0x0E, 0x00, 0x00, 0x00, 0x00]),
     (124, [0x00, 0x00, 0x18, 0x18, 0x18, 0x18, 0x00, 0x18, 0x18, 0x18, 0x18, 0x18, 0x00, 0x00, 0x00, 0x00]),
     (125, [0x00, 0x00, 0x70, 0x18, 0x18, 0x18, 0x0E, 0x18, 0x18, 0x18, 0x18, 0x70, 0x00, 0x00, 0x00, 0x00]),
     (126, [0x00, 0x00, 0x76, 0xDC, 0x00, 0x00, 0x00, 0x00, 0x00, 0x00, 0x00, 0x00, 0x00, 0x00, 0x00, 0x00])]"

definition font_8x16 :: "byte list list" where
  "font_8x16 = map (\<lambda>c. case map_of font_glyphs c of Some g \<Rightarrow> g | None \<Rightarrow> replicate 16 0) [0..<128]"

section \<open>The driver\<close>

record framebuffer =
  fb_addr :: u32
  fb_pitch :: u32
  fb_width :: u32
  fb_height :: u32
  fb_bpp :: u32
  fb_mem :: physical

definition fb_init :: "multiboot_info \<Rightarrow> framebuffer \<Rightarrow> framebuffer" where
  "fb_init mb f = f\<lparr>fb_addr := ucast (framebuffer_addr mb), fb_pitch := framebuffer_pitch mb,
     fb_width := framebuffer_width mb, fb_height := framebuffer_height mb, fb_bpp := ucast (framebuffer_bpp mb)\<rparr>"

definition fb_get_addr :: "framebuffer \<Rightarrow> u32" where "fb_get_addr f = fb_addr f"
definition fb_get_pitch :: "framebuffer \<Rightarrow> u32" where "fb_get_pitch f = fb_pitch f"
definition fb_get_width :: "framebuffer \<Rightarrow> u32" where "fb_get_width f = fb_width f"
definition fb_get_height :: "framebuffer \<Rightarrow> u32" where "fb_get_height f = fb_height f"

definition write32 :: "physical \<Rightarrow> u32 \<Rightarrow> u32 \<Rightarrow> physical" where
  "write32 mem a v = mem(a := ucast v, a + 1 := ucast (drop_bit 8 v), a + 2 := ucast (drop_bit 16 v),
     a + 3 := ucast (drop_bit 24 v))"

definition fb_put_pixel :: "u32 \<Rightarrow> u32 \<Rightarrow> u32 \<Rightarrow> framebuffer \<Rightarrow> framebuffer" where
  "fb_put_pixel x y color f =
     (if x \<ge> fb_width f \<or> y \<ge> fb_height f then f
      else let offset = y * fb_pitch f + x * (fb_bpp f div 8)
           in f\<lparr>fb_mem := write32 (fb_mem f) (fb_addr f + offset) color\<rparr>)"

text \<open>A character code of 128 or more is outside the table.\<close>

definition fb_draw_char :: "byte \<Rightarrow> u32 \<Rightarrow> u32 \<Rightarrow> u32 \<Rightarrow> u32 \<Rightarrow> framebuffer \<Rightarrow> framebuffer option" where
  "fb_draw_char c x y foreground background f = do {
     glyph \<leftarrow> rd font_8x16 (unat c);
     for_upto 0 16 (\<lambda>row. for_upto 0 8 (\<lambda>col f. do {
       g \<leftarrow> rd glyph row;
       Some (if g AND drop_bit col 0x80 \<noteq> 0 then fb_put_pixel (x + of_nat col) (y + of_nat row) foreground f
             else fb_put_pixel (x + of_nat col) (y + of_nat row) background f) })) f }"

definition fb_clear :: "u32 \<Rightarrow> framebuffer \<Rightarrow> framebuffer option" where
  "fb_clear color f = for_upto 0 (unat (fb_height f)) (\<lambda>y. for_upto 0 (unat (fb_width f)) (\<lambda>x f.
     Some (fb_put_pixel (of_nat x) (of_nat y) color f))) f"

section \<open>Pixels\<close>

definition pixel :: "u32 \<Rightarrow> u32 \<Rightarrow> framebuffer \<Rightarrow> u32" where
  "pixel x y f = read32 (fb_mem f) (fb_addr f + (y * fb_pitch f + x * (fb_bpp f div 8)))"

text \<open>32 bits per pixel, rows that do not overlap, and no wrap-around at the end of the address space.\<close>

definition fb_ok :: "framebuffer \<Rightarrow> bool" where
  "fb_ok f \<longleftrightarrow> fb_bpp f = 32 \<and> 4 * unat (fb_width f) \<le> unat (fb_pitch f) \<and>
     unat (fb_addr f) + unat (fb_height f) * unat (fb_pitch f) \<le> 2 ^ 32"

definition on_screen :: "u32 \<Rightarrow> u32 \<Rightarrow> framebuffer \<Rightarrow> bool" where
  "on_screen x y f \<longleftrightarrow> x < fb_width f \<and> y < fb_height f"

lemma read_write32: "read32 (write32 mem a v) a = v"
proof -
  have ne: "a + 1 \<noteq> a" "a + 2 \<noteq> a" "a + 3 \<noteq> a" "a + 2 \<noteq> a + 1" "a + 3 \<noteq> a + 1" "a + 3 \<noteq> a + 2" by simp_all
  have "read32 (write32 mem a v) a = ucast (ucast v :: byte) OR push_bit 8 (ucast (ucast (drop_bit 8 v) :: byte)) OR
     push_bit 16 (ucast (ucast (drop_bit 16 v) :: byte)) OR push_bit 24 (ucast (ucast (drop_bit 24 v) :: byte))"
    using ne ne [symmetric] by (simp add: read32_def write32_def)
  also have "\<dots> = v"
  proof (rule bit_word_eqI)
    fix n assume "n < LENGTH(32)"
    then have "n < 32" by simp
    then consider "n < 8" | "8 \<le> n" "n < 16" | "16 \<le> n" "n < 24" | "24 \<le> n" "n < 32" by linarith
    then show "bit (ucast (ucast v :: byte) OR push_bit 8 (ucast (ucast (drop_bit 8 v) :: byte)) OR
       push_bit 16 (ucast (ucast (drop_bit 16 v) :: byte)) OR push_bit 24 (ucast (ucast (drop_bit 24 v) :: byte)) :: u32) n = bit v n"
      by cases (auto simp: bit_simps)
  qed
  finally show ?thesis .
qed

lemma unat_next: "unat (a :: u32) + 4 \<le> 2 ^ 32 \<Longrightarrow> i < 4 \<Longrightarrow> unat (a + of_nat i) = unat a + i"
  by (simp add: unat_word_ariths unat_of_nat take_bit_nat_eq_self)

lemma write32_outside:
  assumes "unat a + 4 \<le> 2 ^ 32" "unat b < unat a \<or> unat a + 4 \<le> unat b"
  shows "write32 mem a v b = mem b"
proof -
  have "b \<noteq> a + of_nat i" if "i < 4" for i using unat_next [OF assms(1) that] assms(2) that by auto
  from this [of 0] this [of 1] this [of 2] this [of 3] show ?thesis by (simp add: write32_def)
qed

lemma read32_outside:
  assumes "unat a + 4 \<le> 2 ^ 32" "unat b + 4 \<le> 2 ^ 32" "unat a + 4 \<le> unat b \<or> unat b + 4 \<le> unat a"
  shows "read32 (write32 mem a v) b = read32 mem b"
proof -
  have "write32 mem a v (b + of_nat i) = mem (b + of_nat i)" if "i < 4" for i
    using unat_next [OF assms(2) that] assms(3) that by (intro write32_outside [OF assms(1)]) auto
  from this [of 0] this [of 1] this [of 2] this [of 3] show ?thesis by (simp add: read32_def)
qed

definition pixel_at :: "u32 \<Rightarrow> u32 \<Rightarrow> framebuffer \<Rightarrow> nat" where
  "pixel_at x y f = unat (fb_addr f) + unat y * unat (fb_pitch f) + 4 * unat x"

lemma pixel_at_end:
  assumes "fb_ok f" "on_screen x y f"
  shows "unat y * unat (fb_pitch f) + 4 * unat x + 4 \<le> unat (fb_height f) * unat (fb_pitch f)"
proof -
  have x: "4 * unat x + 4 \<le> unat (fb_pitch f)" using assms by (simp add: fb_ok_def on_screen_def word_less_nat_alt)
  have "Suc (unat y) * unat (fb_pitch f) \<le> unat (fb_height f) * unat (fb_pitch f)"
    using assms(2) by (intro mult_le_mono1) (simp add: on_screen_def word_less_nat_alt)
  then show ?thesis using x by simp
qed

lemma pixel_address:
  assumes "fb_ok f" "on_screen x y f"
  shows "unat (fb_addr f + (y * fb_pitch f + x * (fb_bpp f div 8))) = pixel_at x y f" "pixel_at x y f + 4 \<le> 2 ^ 32"
proof -
  have le: "unat (fb_addr f) + (unat y * unat (fb_pitch f) + 4 * unat x) + 4 \<le> 2 ^ 32"
    using pixel_at_end [OF assms] assms(1) unfolding fb_ok_def by linarith
  then show "pixel_at x y f + 4 \<le> 2 ^ 32" by (simp add: pixel_at_def)
  have w: "fb_addr f + (y * fb_pitch f + x * (fb_bpp f div 8)) = of_nat (pixel_at x y f)"
    using assms(1) by (simp add: fb_ok_def pixel_at_def mult.commute)
  show "unat (fb_addr f + (y * fb_pitch f + x * (fb_bpp f div 8))) = pixel_at x y f"
    unfolding w unat_of_nat using le by (intro mod_less) (simp add: pixel_at_def)
qed

lemma pixel_apart:
  assumes f: "fb_ok f" and p: "on_screen x y f" "on_screen x' y' f" and ne: "(x, y) \<noteq> (x', y')"
  shows "pixel_at x y f + 4 \<le> pixel_at x' y' f \<or> pixel_at x' y' f + 4 \<le> pixel_at x y f"
proof -
  have x: "4 * unat x + 4 \<le> unat (fb_pitch f)" "4 * unat x' + 4 \<le> unat (fb_pitch f)"
    using f p by (simp_all add: fb_ok_def on_screen_def word_less_nat_alt)
  have rows: "a * unat (fb_pitch f) + unat (fb_pitch f) \<le> b * unat (fb_pitch f)" if "a < b" for a b
    using mult_le_mono1 [of "Suc a" b "unat (fb_pitch f)"] that by simp
  consider "unat y < unat y'" | "unat y' < unat y" | "y = y'" "unat x < unat x'" | "y = y'" "unat x' < unat x"
    using ne by (metis linorder_neqE_nat word_unat_eq_iff)
  then show ?thesis
    using x rows [of "unat y" "unat y'"] rows [of "unat y'" "unat y"] by cases (simp_all add: pixel_at_def)
qed

section \<open>Drawing\<close>

lemma put_pixel_fields:
  "fb_ok (fb_put_pixel x y c f) = fb_ok f" "on_screen u v (fb_put_pixel x y c f) = on_screen u v f"
  by (simp_all add: fb_put_pixel_def fb_ok_def on_screen_def Let_def)

lemma put_pixel_spec:
  assumes f: "fb_ok f" and p: "on_screen u v f"
  shows "pixel u v (fb_put_pixel x y c f) = (if u = x \<and> v = y then c else pixel u v f)"
proof (cases "on_screen x y f")
  case False
  then show ?thesis using p by (auto simp: fb_put_pixel_def on_screen_def not_less not_le)
next
  case True
  let ?a = "fb_addr f + (y * fb_pitch f + x * (fb_bpp f div 8))"
  have put: "fb_put_pixel x y c f = f\<lparr>fb_mem := write32 (fb_mem f) ?a c\<rparr>"
    using True by (auto simp: fb_put_pixel_def on_screen_def not_less [symmetric])
  show ?thesis
  proof (cases "u = x \<and> v = y")
    case True
    then show ?thesis by (simp add: put pixel_def read_write32)
  next
    case False
    then have "(x, y) \<noteq> (u, v)" by auto
    from pixel_apart [OF f True p this] pixel_address [OF f True] pixel_address [OF f p]
    have "read32 (write32 (fb_mem f) ?a c) (fb_addr f + (v * fb_pitch f + u * (fb_bpp f div 8))) =
        read32 (fb_mem f) (fb_addr f + (v * fb_pitch f + u * (fb_bpp f div 8)))"
      by (intro read32_outside) simp_all
    then show ?thesis using False by (auto simp: put pixel_def)
  qed
qed

text \<open>Painting a grid of places: those in \<open>S\<close> have their colours, the rest of the screen is as before.\<close>

definition painted :: "(nat \<Rightarrow> u32) \<Rightarrow> (nat \<Rightarrow> u32) \<Rightarrow> (nat \<Rightarrow> nat \<Rightarrow> u32) \<Rightarrow> (nat \<times> nat) set \<Rightarrow>
    framebuffer \<Rightarrow> framebuffer \<Rightarrow> bool" where
  "painted X Y C S f f' \<longleftrightarrow> fb_ok f' \<and> (\<forall>u v. on_screen u v f' = on_screen u v f) \<and>
     (\<forall>(r, c) \<in> S. on_screen (X c) (Y r) f \<longrightarrow> pixel (X c) (Y r) f' = C r c) \<and>
     (\<forall>u v. on_screen u v f \<longrightarrow> (u, v) \<notin> (\<lambda>(r, c). (X c, Y r)) ` S \<longrightarrow> pixel u v f' = pixel u v f)"

lemma painted_none: "fb_ok f \<Longrightarrow> painted X Y C {} f f"
  by (simp add: painted_def)

lemma painted_step:
  assumes p: "painted X Y C S f f'" and d: "(X c, Y r) \<notin> (\<lambda>(r, c). (X c, Y r)) ` S"
  shows "painted X Y C (insert (r, c) S) f (fb_put_pixel (X c) (Y r) (C r c) f')"
proof -
  have f: "fb_ok f'" "\<And>u v. on_screen u v f' = on_screen u v f" using p by (simp_all add: painted_def)
  have px: "pixel u v (fb_put_pixel (X c) (Y r) (C r c) f') = (if u = X c \<and> v = Y r then C r c else pixel u v f')"
    if "on_screen u v f" for u v using put_pixel_spec [OF f(1)] f(2) that by simp
  have "(X c', Y r') \<noteq> (X c, Y r)" if "(r', c') \<in> S" for r' c' using d that by force
  then show ?thesis using p px by (auto simp: painted_def put_pixel_fields)
qed

lemma painted_grid:
  assumes f: "fb_ok f" and X: "inj_on X {..<w}" and Y: "inj_on Y {..<h}"
  shows "\<exists>f'. for_upto 0 h (\<lambda>r. for_upto 0 w (\<lambda>c f. Some (fb_put_pixel (X c) (Y r) (C r c) f))) f = Some f' \<and>
    painted X Y C ({..<h} \<times> {..<w}) f f'"
proof -
  let ?I = "\<lambda>r f'. painted X Y C ({..<r} \<times> {..<w}) f f'" and ?J = "\<lambda>r c f'. painted X Y C ({..<r} \<times> {..<w} \<union> {r} \<times> {..<c}) f f'"
  show ?thesis
  proof (rule for_upto_inv [where I = ?I])
    fix r f1 assume r: "r < h" "?I r f1"
    have "\<exists>f2. for_upto 0 w (\<lambda>c f. Some (fb_put_pixel (X c) (Y r) (C r c) f)) f1 = Some f2 \<and> ?J r w f2"
    proof (rule for_upto_inv [where I = "?J r"])
      fix c f2 assume c: "c < w" "?J r c f2"
      have "(X c, Y r) \<notin> (\<lambda>(r, c). (X c, Y r)) ` ({..<r} \<times> {..<w} \<union> {r} \<times> {..<c})"
      proof
        assume "(X c, Y r) \<in> (\<lambda>(r, c). (X c, Y r)) ` ({..<r} \<times> {..<w} \<union> {r} \<times> {..<c})"
        then obtain r' c' where rc: "X c' = X c" "Y r' = Y r" "c' < w" "r' < r \<or> r' = r \<and> c' < c" using c(1) by auto
        have "c' = c" using inj_onD [OF X rc(1)] rc(3) c(1) by simp
        moreover have "r' = r" using inj_onD [OF Y rc(2)] rc(4) r(1) by auto
        ultimately show False using rc(4) by simp
      qed
      from painted_step [OF c(2) this] have "?J r (Suc c) (fb_put_pixel (X c) (Y r) (C r c) f2)"
        by (simp add: lessThan_Suc insert_Times_insert)
      then show "\<exists>f3. Some (fb_put_pixel (X c) (Y r) (C r c) f2) = Some f3 \<and> ?J r (Suc c) f3" by simp
    qed (use r in simp_all)
    moreover have "{..<r} \<times> {..<w} \<union> {r} \<times> {..<w} = {..<Suc r} \<times> {..<w}" by auto
    ultimately show "\<exists>f2. for_upto 0 w (\<lambda>c f. Some (fb_put_pixel (X c) (Y r) (C r c) f)) f1 = Some f2 \<and> ?I (Suc r) f2" by simp
  qed (use painted_none [OF f] in simp_all)
qed

lemma painted_facts:
  assumes "painted X Y C ({..<h} \<times> {..<w}) f f'"
  shows "fb_ok f'" "\<forall>u v. on_screen u v f' = on_screen u v f"
    and "r < h \<Longrightarrow> c < w \<Longrightarrow> on_screen (X c) (Y r) f \<Longrightarrow> pixel (X c) (Y r) f' = C r c"
    and "on_screen u v f \<Longrightarrow> \<forall>r < h. \<forall>c < w. (u, v) \<noteq> (X c, Y r) \<Longrightarrow> pixel u v f' = pixel u v f"
proof -
  show "fb_ok f'" "\<forall>u v. on_screen u v f' = on_screen u v f"
    "r < h \<Longrightarrow> c < w \<Longrightarrow> on_screen (X c) (Y r) f \<Longrightarrow> pixel (X c) (Y r) f' = C r c"
    using assms by (auto simp: painted_def)
  assume "on_screen u v f" "\<forall>r < h. \<forall>c < w. (u, v) \<noteq> (X c, Y r)"
  moreover from this have "(u, v) \<notin> (\<lambda>(r, c). (X c, Y r)) ` ({..<h} \<times> {..<w})" by auto
  ultimately show "pixel u v f' = pixel u v f" using assms unfolding painted_def by blast
qed

lemma offset_inj: "n \<le> 2 ^ 32 \<Longrightarrow> inj_on (\<lambda>i. (x :: u32) + of_nat i) {..<n}"
proof (rule inj_onI)
  fix i j assume n: "n \<le> 2 ^ 32" "i \<in> {..<n}" "j \<in> {..<n}" "x + of_nat i = x + (of_nat j :: u32)"
  then have "unat (of_nat i :: u32) = unat (of_nat j :: u32)" by simp
  moreover have "unat (of_nat k :: u32) = k" if "k < n" for k
    unfolding unat_of_nat using that n(1) by (intro mod_less) simp
  ultimately show "i = j" using n(2,3) by simp
qed

text \<open>Clearing gives every pixel the colour.\<close>

lemma fb_clear_spec:
  assumes "fb_ok f"
  shows "\<exists>f'. fb_clear color f = Some f' \<and> fb_ok f' \<and> (\<forall>u v. on_screen u v f' = on_screen u v f) \<and>
    (\<forall>u v. on_screen u v f \<longrightarrow> pixel u v f' = color)"
proof -
  have le: "unat (w :: u32) \<le> 2 ^ 32" for w using unat_below [of w] by simp
  have inj: "inj_on (of_nat :: nat \<Rightarrow> u32) {..<unat w}" for w :: u32 using offset_inj [OF le, of 0 w] by simp
  obtain f' where f': "fb_clear color f = Some f'"
    "painted of_nat of_nat (\<lambda>_ _. color) ({..<unat (fb_height f)} \<times> {..<unat (fb_width f)}) f f'"
    using painted_grid [OF assms inj inj, of "fb_height f" "fb_width f" "\<lambda>_ _. color"] unfolding fb_clear_def by blast
  have "pixel u v f' = color" if "on_screen u v f" for u v
    using painted_facts(3) [OF f'(2), of "unat v" "unat u"] that by (simp add: on_screen_def word_less_nat_alt)
  then show ?thesis using f'(1) painted_facts(1,2) [OF f'(2)] by blast
qed

lemma font_glyph:
  assumes "n < 128"
  shows "\<exists>g. rd font_8x16 n = Some g \<and> length g = 16"
proof -
  have "\<forall>(c, g) \<in> set font_glyphs. length g = 16" unfolding font_glyphs_def by simp
  then have "map_of font_glyphs n = Some g \<Longrightarrow> length g = 16" for g by (auto dest: map_of_SomeD)
  then show ?thesis using assms by (auto simp: font_8x16_def split: option.splits)
qed

lemma for_upto_cong: "(\<And>i s. i < n \<Longrightarrow> f i s = g i s) \<Longrightarrow> for_upto a n f s = for_upto a n g s"
proof (induction "n - a" arbitrary: a s)
  case (Suc d)
  then have "a < n" by simp
  moreover have "for_upto (Suc a) n f t = for_upto (Suc a) n g t" for t using Suc by (intro Suc.hyps(1)) simp_all
  ultimately show ?case using Suc.prems by (simp add: for_upto_step)
qed simp

text \<open>A character's cell shows its glyph.\<close>

lemma fb_draw_char_spec:
  assumes f: "fb_ok f" and c: "c < 128"
  shows "\<exists>g f'. rd font_8x16 (unat c) = Some g \<and> length g = 16 \<and> fb_draw_char c x y foreground background f = Some f' \<and> fb_ok f' \<and>
    (\<forall>row < 16. \<forall>col < 8. on_screen (x + of_nat col) (y + of_nat row) f \<longrightarrow>
       pixel (x + of_nat col) (y + of_nat row) f' = (if bit (g ! row) (7 - col) then foreground else background)) \<and>
    (\<forall>u v. on_screen u v f \<longrightarrow> (\<forall>row < 16. \<forall>col < 8. (u, v) \<noteq> (x + of_nat col, y + of_nat row)) \<longrightarrow> pixel u v f' = pixel u v f)"
proof -
  have "unat c < 128" using c by (simp add: word_less_nat_alt)
  then obtain g where g: "rd font_8x16 (unat c) = Some g" "length g = 16" using font_glyph by blast
  let ?C = "\<lambda>row col. if bit (g ! row) (7 - col) then foreground else background"
  have mask: "b AND drop_bit col 0x80 \<noteq> 0 \<longleftrightarrow> bit b (7 - col)" if "col < 8" for b :: byte and col
  proof -
    have "drop_bit col (push_bit 7 1 :: byte) = push_bit (7 - col) 1"
      using that by (intro bit_word_eqI) (auto simp: bit_simps simp del: push_bit_of_1)
    then have "drop_bit col (0x80 :: byte) = 2 ^ (7 - col)" by (simp only: push_bit_of_1) simp
    then show ?thesis by (simp only: and_exp_eq_0_iff_not_bit not_not)
  qed
  let ?body = "\<lambda>row col f. do { b \<leftarrow> rd g row;
       Some (if b AND drop_bit col 0x80 \<noteq> 0 then fb_put_pixel (x + of_nat col) (y + of_nat row) foreground f
             else fb_put_pixel (x + of_nat col) (y + of_nat row) background f) }"
  have loops: "for_upto 0 16 (\<lambda>row. for_upto 0 8 (?body row)) f =
      for_upto 0 16 (\<lambda>row. for_upto 0 8 (\<lambda>col f. Some (fb_put_pixel (x + of_nat col) (y + of_nat row) (?C row col) f))) f"
    using g(2) mask by (intro for_upto_cong refl) auto
  obtain f' where f': "fb_draw_char c x y foreground background f = Some f'"
    "painted (\<lambda>i. x + of_nat i) (\<lambda>i. y + of_nat i) ?C ({..<16} \<times> {..<8}) f f'"
    using painted_grid [OF f offset_inj offset_inj, of 8 16 x y ?C] g(1) loops by (auto simp: fb_draw_char_def)
  then show ?thesis using g painted_facts [OF f'(2)] by blast
qed

section \<open>Properties\<close>

definition example_framebuffer :: framebuffer where
  "example_framebuffer = \<lparr>fb_addr = 0xE0000000, fb_pitch = 1280, fb_width = 320, fb_height = 200, fb_bpp = 32, fb_mem = (\<lambda>_. 0)\<rparr>"

text \<open>C26: on a framebuffer of 32 bits per pixel, drawing a character of the font gives each pixel of its 8x16 cell that is on
  the screen the foreground colour where the glyph has a bit and the background colour elsewhere, clips the rest, and
  leaves every other pixel as it was.\<close>

theorem fb_draw_char_correct:
  assumes "fb_ok f" and "c < 128"
  shows "\<exists>g f'. rd font_8x16 (unat c) = Some g \<and> length g = 16 \<and> fb_draw_char c x y foreground background f = Some f' \<and> fb_ok f' \<and>
    (\<forall>row < 16. \<forall>col < 8. on_screen (x + of_nat col) (y + of_nat row) f \<longrightarrow>
       pixel (x + of_nat col) (y + of_nat row) f' = (if bit (g ! row) (7 - col) then foreground else background)) \<and>
    (\<forall>u v. on_screen u v f \<longrightarrow> (\<forall>row < 16. \<forall>col < 8. (u, v) \<noteq> (x + of_nat col, y + of_nat row)) \<longrightarrow> pixel u v f' = pixel u v f)"
  using assms by (rule fb_draw_char_spec)

theorem fb_draw_char_correct_witness:
  "\<exists>f'. fb_draw_char 65 10 20 0xFFFFFF 0x202020 example_framebuffer = Some f' \<and> pixel 13 22 f' = 0xFFFFFF \<and> pixel 10 22 f' = 0x202020"
proof -
  have f: "fb_ok example_framebuffer" "(65 :: byte) < 128" by (simp_all add: fb_ok_def example_framebuffer_def)
  obtain g f' where g: "rd font_8x16 (unat (65 :: byte)) = Some g" "fb_draw_char 65 10 20 0xFFFFFF 0x202020 example_framebuffer = Some f'"
    and p: "\<forall>row < 16. \<forall>col < 8. on_screen (10 + of_nat col) (20 + of_nat row) example_framebuffer \<longrightarrow>
       pixel (10 + of_nat col) (20 + of_nat row) f' = (if bit (g ! row) (7 - col) then 0xFFFFFF else 0x202020)"
    using fb_draw_char_correct [OF f, of 10 20 "0xFFFFFF" "0x202020"] by blast
  have "g ! 2 = 0x10" using g(1) by (simp add: font_8x16_def font_glyphs_def) auto
  moreover have "bit (0x10 :: byte) 4" "\<not> bit (0x10 :: byte) 7" by (simp_all add: bit_numeral_rec)
  ultimately show ?thesis using g(2) p [rule_format, of 2 3] p [rule_format, of 2 0]
    by (simp add: on_screen_def example_framebuffer_def)
qed

end
