(* ===== verification/Strdup.thy ===== *)
theory Strdup
  imports Heap_Memory
begin

text \<open>
  \<open>strdup\<close> of src/lib/memory.c: a block of the heap with a copy of a string. The copy works on the bytes of
  the block, read from and written back to the mapped memory.
\<close>

definition strdup :: "buf \<Rightarrow> nat \<Rightarrow> heap \<Rightarrow> (heap \<times> u32) option" where
  "strdup s p h = do {
     n \<leftarrow> strlen s p;
     (h, cpy) \<leftarrow> malloc (of_nat n + 1) h;
     if cpy = 0 then Some (h, 0)
     else do {
       n \<leftarrow> strlen s p;
       b \<leftarrow> load_bytes cpy (n + 1) (hmm h);
       b \<leftarrow> strlcpy b 0 s p (n + 1);
       m \<leftarrow> store_bytes cpy b (hmm h);
       Some (h\<lparr>hmm := m\<rparr>, cpy) } }"

text \<open>Without a block there is no copy, and the heap is as \<open>malloc\<close> left it.\<close>

lemma strdup_null:
  "str_at s p cs \<Longrightarrow> malloc (of_nat (length cs) + 1) h = Some (h', 0) \<Longrightarrow> strdup s p h = Some (h', 0)"
  by (simp add: strdup_def strlen_str_at)

text \<open>The bytes that are stored are the string and its terminator.\<close>

lemma strdup_bytes:
  assumes s: "str_at s p cs" and m: "malloc (of_nat (length cs) + 1) h = Some (h', q)" "q \<noteq> 0"
    and b: "load_bytes q (length cs + 1) (hmm h') = Some b" "length b = length cs + 1"
  shows "strdup s p h = do { m \<leftarrow> store_bytes q (cs @ [0]) (hmm h'); Some (h'\<lparr>hmm := m\<rparr>, q) }"
proof -
  have "strlcpy b 0 s p (length cs + 1) = Some (overwrite b 0 (cs @ [0]))"
    using strlcpy_str_at [OF s, of "length cs + 1" 0 b] b(2) by simp
  moreover have "overwrite b 0 (cs @ [0]) = cs @ [0]" using b(2) by (simp add: overwrite_def)
  ultimately show ?thesis using s m b(1)
    by (simp add: strdup_def strlen_str_at del: load_bytes.simps store_bytes.simps)
qed

lemma length_word: "n + 1 \<le> 0xFFFFFFF8 \<Longrightarrow> unat (of_nat n + 1 :: u32) = n + 1"
proof -
  assume n: "n + 1 \<le> 0xFFFFFFF8"
  then have "unat (of_nat n :: u32) = n" by (simp add: unat_of_nat take_bit_nat_eq_self)
  then show ?thesis using unat_add [of "of_nat n" 1] n by simp
qed

text \<open>With a block that fits, the copy is a new live region that holds the string, and no other region changes.\<close>

lemma strdup_spec:
  assumes r: "heap_rep h bs" and s: "str_at s p cs" and n: "length cs + 1 \<le> 0xFFFFFFF8"
    and f: "\<exists>x \<in> set bs. fits (length cs + 1) x"
  shows "\<exists>h' bs' q. strdup s p h = Some (h', q) \<and> heap_rep h' bs' \<and> granted (length cs + 1) bs q bs' \<and>
    load_bytes q (length cs + 1) (hmm h') = Some (cs @ [0]) \<and>
    (\<forall>a j v. live bs a = Some j \<longrightarrow> unat a \<le> unat v \<longrightarrow> unat v < unat a + j \<longrightarrow>
      load_byte v (hmm h') = load_byte v (hmm h))"
proof -
  let ?n = "of_nat (length cs) + 1 :: u32"
  note u = length_word [OF n]
  have "?n \<noteq> 0"
  proof
    assume "?n = 0"
    then show False using u by (simp only: unsigned_0)
  qed
  then obtain B bs' q where 1: "malloc ?n h = Some (h\<lparr>headers := B\<rparr>, q)" "heap_rep (h\<lparr>headers := B\<rparr>) bs'"
    "granted (length cs + 1) bs q bs'" using malloc_fit [OF r, of ?n] n f unfolding u by blast
  then obtain k where k: "live bs' = (live bs)(q \<mapsto> k)" "length cs + 1 \<le> k" "q \<noteq> 0" "live bs q = None"
    by (auto simp: granted_def)
  then have l: "live bs' q = Some k" by simp
  have h: "mm_ok (hmm h)" "backed (hmm h) heap_base (unat (heap_end h))" "unat (heap_end h) \<le> heap_top"
    using r by (simp_all add: heap_rep_def)
  obtain b where b: "load_bytes q (length cs + 1) (hmm h) = Some b" "length b = length cs + 1"
    using heap_bytes_readable [OF h(1,2) _ _ h(3), of q "length cs + 1"] live_regions(1,2) [OF 1(2) l] k(2) by auto
  obtain m where m: "store_bytes q (cs @ [0]) (hmm h) = Some m" "heap_rep (h\<lparr>headers := B, hmm := m\<rparr>) bs'"
    "load_bytes q (length cs + 1) m = Some (cs @ [0])"
    "\<forall>a j v. live bs' a = Some j \<longrightarrow> a \<noteq> q \<longrightarrow> unat a \<le> unat v \<longrightarrow> unat v < unat a + j \<longrightarrow> load_byte v m = load_byte v (hmm h)"
    using write_live_region [OF 1(2) l, of "cs @ [0]"] k(2) by auto
  have "strdup s p h = Some (h\<lparr>headers := B, hmm := m\<rparr>, q)"
    using strdup_bytes [OF s 1(1) k(3), of b] b m(1) by simp
  moreover have "load_byte v m = load_byte v (hmm h)"
    if "live bs a = Some j" "unat a \<le> unat v" "unat v < unat a + j" for a j v
  proof -
    have "a \<noteq> q" using that(1) k(4) by auto
    moreover have "live bs' a = Some j" using that(1) k(1) calculation by simp
    ultimately show ?thesis using m(4) that(2,3) by blast
  qed
  ultimately show ?thesis using m(2,3) 1(3)
    by (intro exI [of _ "h\<lparr>headers := B, hmm := m\<rparr>"] exI [of _ bs'] exI [of _ q]) auto
qed

section \<open>Properties\<close>

text \<open>C9: strdup of a string, when a free block is large enough, returns a new live region that holds the string and its
  terminator; the heap's invariant is kept and no byte of a region that was live before changes.\<close>

theorem strdup_correct:
  assumes "heap_rep h bs" "str_at s p cs" "length cs + 1 \<le> 0xFFFFFFF8" "\<exists>x \<in> set bs. fits (length cs + 1) x"
  shows "\<exists>h' bs' q. strdup s p h = Some (h', q) \<and> heap_rep h' bs' \<and> granted (length cs + 1) bs q bs' \<and>
    load_bytes q (length cs + 1) (hmm h') = Some (cs @ [0]) \<and>
    (\<forall>a j v. live bs a = Some j \<longrightarrow> unat a \<le> unat v \<longrightarrow> unat v < unat a + j \<longrightarrow>
      load_byte v (hmm h') = load_byte v (hmm h))"
  using assms by (rule strdup_spec)

theorem strdup_correct_witness:
  "\<exists>h q. strdup (lit ''hi'' @ [0]) 0 boot_heap = Some (h, q) \<and> load_bytes q 3 (hmm h) = Some (lit ''hi'' @ [0])"
proof -
  have s: "str_at (lit ''hi'' @ [0]) 0 (lit ''hi'')" by (rule str_at_lit) (simp add: lit_def)
  have n: "length (lit ''hi'') = 2" by (simp add: lit_def)
  have "\<exists>x \<in> set [(HEAP_VIRT_START, 65520, True)]. fits (length (lit ''hi'') + 1) x" by (simp add: n block_bytes_def)
  moreover have "length (lit ''hi'') + 1 \<le> 0xFFFFFFF8" by (simp add: n)
  ultimately show ?thesis using strdup_correct [OF boot_heap_facts(1) s] unfolding n by fastforce
qed

end
