(* ===== verification/Heap_Client.thy ===== *)
theory Heap_Client
  imports Heap_Memory
begin

text \<open>
  The heap as its users see it. \<open>heap_run\<close> is any history of calls, from \<open>memory_init\<close> on: requests, releases of
  regions that were handed out and not yet given back, and stores into such regions. Beside the state of the heap it keeps what
  a user knows: the regions in hand, by the address \<open>malloc\<close> returned, with the bytes asked for and what was stored in each.
\<close>

type_synonym regions_in_hand = "u32 \<rightharpoonup> byte option list"

inductive heap_run :: "heap \<Rightarrow> regions_in_hand \<Rightarrow> bool" where
  run_init: "mm_ok (hmm h0) \<Longrightarrow> 32 \<le> card (free_pages (phys (hmm h0))) \<Longrightarrow> 0 \<notin> free_pages (phys (hmm h0)) \<Longrightarrow>
    memory_init h0 = Some h \<Longrightarrow> heap_run h Map.empty"
| run_malloc: "heap_run h L \<Longrightarrow> can_serve n h \<Longrightarrow> malloc n h = Some (h', p) \<Longrightarrow>
    heap_run h' (L(p \<mapsto> replicate (unat n) None))"
| run_free: "heap_run h L \<Longrightarrow> p \<in> dom L \<Longrightarrow> free p h = Some h' \<Longrightarrow> heap_run h' (L(p := None))"
| run_store: "heap_run h L \<Longrightarrow> L p = Some xs \<Longrightarrow> i < length xs \<Longrightarrow> store_byte (p + of_nat i) c (hmm h) = Some m \<Longrightarrow>
    heap_run (h\<lparr>hmm := m\<rparr>) (L(p \<mapsto> xs[i := Some c]))"

section \<open>What a call leaves alone\<close>

definition same_bytes :: "heap \<Rightarrow> heap \<Rightarrow> bool" where
  "same_bytes h h' \<longleftrightarrow> (\<forall>v. heap_base \<le> unat v \<longrightarrow> unat v < unat (heap_end h) \<longrightarrow> load_byte v (hmm h') = load_byte v (hmm h))"

lemma extended_same_bytes:
  assumes r: "heap_rep h bs" and e: "extended (hmm h) (unat (heap_end h)) n (hmm h')"
  shows "same_bytes h h'"
  unfolding same_bytes_def
proof (intro allI impI)
  fix v :: u32 assume v: "heap_base \<le> unat v" "unat v < unat (heap_end h)"
  obtain f where f: "translate (hmm h) v = Some f" "f \<notin> free_pages (phys (hmm h))" "data_frame (hmm h) f"
    using r v unfolding heap_rep_def backed_def by blast
  have "unat v < heap_top" using r v(2) by (simp add: heap_rep_def)
  then have "translate (hmm h') v = Some f" using e v(2) f(1) heap_pd_index [of v] by (simp add: extended_def)
  moreover have "frames (hmm h') f = frames (hmm h) f" using e f(2,3) by (simp add: extended_def data_kept_def)
  ultimately show "load_byte v (hmm h') = load_byte v (hmm h)" using f(1) by (simp add: load_byte_def)
qed

lemma malloc_served:
  assumes r: "heap_rep h bs" and room: "can_serve n h"
  shows "\<exists>h' p bs'. malloc n h = Some (h', p) \<and> heap_rep h' bs' \<and> granted (unat n) bs p bs' \<and> same_bytes h h'"
proof -
  have n: "n \<noteq> 0" "unat n \<le> 0xFFFFE000" "unat n \<le> 0xFFFFFFF8" using room by (simp_all add: can_serve_def)
  show ?thesis
  proof (cases "\<exists>x \<in> set bs. fits (unat n) x")
    case True
    then show ?thesis using malloc_fit [OF r n(1,3) True] by (fastforce simp: same_bytes_def)
  next
    case False
    then have "unat (heap_end h) + grow_bytes (unat n) \<le> heap_top"
      "2 * (grow_bytes (unat n) div 4096) \<le> card (free_pages (phys (hmm h)))"
      using room heap_rep_walk [OF r] by (auto simp: can_serve_def)
    from malloc_grow [OF r n(1,2) False this] show ?thesis using extended_same_bytes [OF r] by blast
  qed
qed

section \<open>The invariant\<close>

definition holds :: "mm \<Rightarrow> u32 \<Rightarrow> byte option list \<Rightarrow> bool" where
  "holds m p xs \<longleftrightarrow> (\<forall>i < length xs. \<forall>c. xs ! i = Some c \<longrightarrow> load_byte (p + of_nat i) m = Some c)"

text \<open>The regions in hand are the live ones of the block list, each with room for what was asked for.\<close>

definition in_hand :: "block list \<Rightarrow> regions_in_hand \<Rightarrow> bool" where
  "in_hand bs L \<longleftrightarrow> dom L = dom (live bs) \<and>
     (\<forall>p xs. L p = Some xs \<longrightarrow> 8 dvd unat p \<and> (\<exists>k. live bs p = Some k \<and> length xs \<le> k))"

definition client_ok :: "heap \<Rightarrow> regions_in_hand \<Rightarrow> bool" where
  "client_ok h L \<longleftrightarrow> (\<exists>bs. heap_rep h bs \<and> in_hand bs L) \<and> (\<forall>p xs. L p = Some xs \<longrightarrow> holds (hmm h) p xs)"

lemma in_hand_live: "in_hand bs L \<Longrightarrow> L p = Some xs \<Longrightarrow> \<exists>k. live bs p = Some k \<and> length xs \<le> k"
  by (simp add: in_hand_def)

lemma region_byte:
  assumes r: "heap_rep h bs" and p: "live bs p = Some k" and i: "i < k"
  shows "unat (p + of_nat i) = unat p + i" "heap_base \<le> unat (p + of_nat i)" "unat (p + of_nat i) < unat (heap_end h)"
proof -
  have "unat (heap_end h) \<le> heap_top" using r by (simp add: heap_rep_def)
  then show u: "unat (p + of_nat i) = unat p + i" using heap_offset [OF live_regions(2) [OF r p] _ i] by simp
  show "heap_base \<le> unat (p + of_nat i)" "unat (p + of_nat i) < unat (heap_end h)"
    using live_regions(1,2) [OF r p] i unfolding u by simp_all
qed

lemma holds_same:
  assumes r: "heap_rep h bs" and l: "in_hand bs L" "L p = Some xs" and s: "same_bytes h h'" and x: "holds (hmm h) p xs"
  shows "holds (hmm h') p xs"
proof -
  obtain k where k: "live bs p = Some k" "length xs \<le> k" using in_hand_live [OF l] by blast
  have "load_byte (p + of_nat i) (hmm h') = load_byte (p + of_nat i) (hmm h)" if "i < length xs" for i
    using region_byte(2,3) [OF r k(1), of i] that k(2) s by (simp add: same_bytes_def)
  then show ?thesis using x by (simp add: holds_def)
qed

lemma malloc_client:
  assumes c: "client_ok h L" and room: "can_serve n h"
  shows "\<exists>h' p. malloc n h = Some (h', p) \<and> client_ok h' (L(p \<mapsto> replicate (unat n) None)) \<and> p \<noteq> 0 \<and> p \<notin> dom L"
proof -
  obtain bs where bs: "heap_rep h bs" "in_hand bs L" using c by (auto simp: client_ok_def)
  obtain h' p bs' where m: "malloc n h = Some (h', p)" "heap_rep h' bs'" "granted (unat n) bs p bs'" "same_bytes h h'"
    using malloc_served [OF bs(1) room] by blast
  obtain k where k: "live bs' = (live bs)(p \<mapsto> k)" "unat n \<le> k" "p \<noteq> 0" "8 dvd unat p" "live bs p = None"
    using m(3) by (auto simp: granted_def)
  have "in_hand bs' (L(p \<mapsto> replicate (unat n) None))" using bs(2) k by (auto simp: in_hand_def)
  moreover have "holds (hmm h') q xs" if "(L(p \<mapsto> replicate (unat n) None)) q = Some xs" for q xs
  proof (cases "q = p")
    case True
    then show ?thesis using that by (auto simp: holds_def)
  next
    case False
    then have q: "L q = Some xs" using that by simp
    then have "holds (hmm h) q xs" using c by (simp add: client_ok_def)
    then show ?thesis by (rule holds_same [OF bs q m(4)])
  qed
  ultimately have "client_ok h' (L(p \<mapsto> replicate (unat n) None))" using m(2) unfolding client_ok_def by blast
  moreover have "p \<notin> dom L" using bs(2) k(5) by (auto simp: in_hand_def)
  ultimately show ?thesis using m(1) k(3) by blast
qed

lemma free_client:
  assumes c: "client_ok h L" and p: "p \<in> dom L"
  shows "\<exists>h'. free p h = Some h' \<and> client_ok h' (L(p := None))"
proof -
  obtain bs where bs: "heap_rep h bs" "in_hand bs L" using c by (auto simp: client_ok_def)
  obtain k where "live bs p = Some k" using bs(2) p by (auto simp: in_hand_def)
  from free_live [OF bs(1) this] obtain B bs' where f: "free p h = Some (h\<lparr>headers := B\<rparr>)"
    "heap_rep (h\<lparr>headers := B\<rparr>) bs'" "live bs' = (live bs)(p := None)" by blast
  have "in_hand bs' (L(p := None))" using bs(2) f(3) by (auto simp: in_hand_def)
  then have "client_ok (h\<lparr>headers := B\<rparr>) (L(p := None))" using c f(2) by (auto simp: client_ok_def)
  then show ?thesis using f(1) by blast
qed

lemma store_client:
  assumes c: "client_ok h L" and p: "L p = Some xs" "i < length xs"
  shows "\<exists>m. store_byte (p + of_nat i) v (hmm h) = Some m \<and> client_ok (h\<lparr>hmm := m\<rparr>) (L(p \<mapsto> xs[i := Some v]))"
proof -
  obtain bs where bs: "heap_rep h bs" "in_hand bs L" using c by (auto simp: client_ok_def)
  obtain k where k: "live bs p = Some k" "length xs \<le> k" using in_hand_live [OF bs(2) p(1)] by blast
  have i: "i < k" using p(2) k(2) by simp
  have "mm_ok (hmm h)" "backed (hmm h) heap_base (unat (heap_end h))" using bs(1) by (simp_all add: heap_rep_def)
  from store_heap_byte [OF this region_byte(2,3) [OF bs(1) k(1) i], of v] obtain m where
    m: "store_byte (p + of_nat i) v (hmm h) = Some m" "same_map (hmm h) m"
      "\<forall>b. heap_base \<le> unat b \<longrightarrow> unat b < unat (heap_end h) \<longrightarrow>
        load_byte b m = (if b = p + of_nat i then Some v else load_byte b (hmm h))" by blast
  have "holds m q ys" if q: "(L(p \<mapsto> xs[i := Some v])) q = Some ys" for q ys
    unfolding holds_def
  proof (intro allI impI)
    fix j w assume j: "j < length ys" "ys ! j = Some w"
    obtain zs where zs: "L q = Some zs" "length zs = length ys" "q \<noteq> p \<Longrightarrow> zs = ys" "q = p \<Longrightarrow> zs = xs"
      using q p(1) by (cases "q = p") auto
    obtain l where l: "live bs q = Some l" "length ys \<le> l" using in_hand_live [OF bs(2) zs(1)] zs(2) by auto
    have jl: "j < l" using j(1) l(2) by simp
    have e: "q + of_nat j = p + of_nat i \<longleftrightarrow> q = p \<and> j = i"
    proof
      assume "q + of_nat j = p + of_nat i"
      then have "unat q + j = unat p + i" using region_byte(1) [OF bs(1) k(1) i] region_byte(1) [OF bs(1) l(1) jl] by metis
      moreover have "q = p" using live_regions(4) [OF bs(1) k(1) l(1)] calculation i jl by force
      ultimately show "q = p \<and> j = i" by simp
    qed auto
    have hz: "holds (hmm h) q zs" using c zs(1) by (simp add: client_ok_def)
    show "load_byte (q + of_nat j) m = Some w"
    proof (cases "q = p \<and> j = i")
      case True
      then have "w = v" using q j p by auto
      then show ?thesis using m(3) region_byte(2,3) [OF bs(1) l(1) jl] e True by simp
    next
      case False
      then have "zs ! j = Some w" using q j zs(3,4) by (cases "q = p") auto
      then have "load_byte (q + of_nat j) (hmm h) = Some w" using hz j(1) zs(2) by (simp add: holds_def)
      then show ?thesis using m(3) region_byte(2,3) [OF bs(1) l(1) jl] e False by simp
    qed
  qed
  moreover have "in_hand bs (L(p \<mapsto> xs[i := Some v]))" using bs(2) p(1) by (auto simp: in_hand_def)
  ultimately have "client_ok (h\<lparr>hmm := m\<rparr>) (L(p \<mapsto> xs[i := Some v]))"
    using same_map_heap [OF m(2) bs(1)] by (auto simp: client_ok_def)
  then show ?thesis using m(1) by blast
qed

lemma heap_run_ok: "heap_run h L \<Longrightarrow> client_ok h L"
proof (induction rule: heap_run.induct)
  case (run_init h0 h)
  then show ?case using memory_init_rep [of h0] by (auto simp: client_ok_def in_hand_def live_simps)
next
  case (run_malloc h L n h' p)
  from malloc_client [OF run_malloc.IH run_malloc.hyps(2)] run_malloc.hyps(3) show ?case by (simp del: fun_upd_apply)
next
  case (run_free h L p h')
  from free_client [OF run_free.IH run_free.hyps(2)] run_free.hyps(3) show ?case by (simp del: fun_upd_apply)
next
  case (run_store h L p xs i c m)
  from store_client [OF run_store.IH run_store.hyps(2,3), of c] run_store.hyps(4) show ?case by (simp del: fun_upd_apply)
qed

section \<open>Properties\<close>

text \<open>C6: after any history that starts with memory_init (with 32 frames free and page 0 not among them) and goes on with calls of malloc
  that can be served (a free block is large enough, or the heap has room and two free frames for each page to add), of free on
  regions in hand and with stores into regions in hand: every region in hand lies in the heap at a multiple of 8 with all the bytes asked for, and each byte that was
  stored in it is still there; no two of them overlap, and no header of the block list lies in one; and the next calls
  succeed: free of a region in hand and a store into one return, and a malloc that can be served returns a region that is not in hand.\<close>

theorem heap_regions_independent:
  assumes "heap_run h L"
  shows "(\<forall>p xs. L p = Some xs \<longrightarrow> heap_base \<le> unat p \<and> unat p + length xs \<le> unat (heap_end h) \<and> 8 dvd unat p \<and>
      (\<forall>i < length xs. \<forall>c. xs ! i = Some c \<longrightarrow> load_byte (p + of_nat i) (hmm h) = Some c)) \<and>
    (\<forall>p q xs ys. L p = Some xs \<longrightarrow> L q = Some ys \<longrightarrow> p \<noteq> q \<longrightarrow>
      unat p + length xs \<le> unat q \<or> unat q + length ys \<le> unat p) \<and>
    (\<exists>bs. walk (headers h) (head h) = Some bs \<and> (\<forall>(a, s, f) \<in> set bs. \<forall>p xs. L p = Some xs \<longrightarrow>
      unat a + 16 \<le> unat p \<or> unat p + length xs \<le> unat a)) \<and>
    (\<forall>p \<in> dom L. free p h \<noteq> None) \<and>
    (\<forall>p xs i c. L p = Some xs \<longrightarrow> i < length xs \<longrightarrow> store_byte (p + of_nat i) c (hmm h) \<noteq> None) \<and>
    (\<forall>n. can_serve n h \<longrightarrow> (\<exists>h' p. malloc n h = Some (h', p) \<and> p \<noteq> 0 \<and> p \<notin> dom L))"
proof -
  have c: "client_ok h L" by (rule heap_run_ok [OF assms])
  then obtain bs where bs: "heap_rep h bs" "in_hand bs L" by (auto simp: client_ok_def)
  note reg = live_regions [OF bs(1)]
  have l: "\<exists>k. live bs p = Some k \<and> length xs \<le> k" if "L p = Some xs" for p xs using in_hand_live [OF bs(2) that] .
  have "heap_base \<le> unat p \<and> unat p + length xs \<le> unat (heap_end h) \<and> 8 dvd unat p \<and>
      (\<forall>i < length xs. \<forall>c. xs ! i = Some c \<longrightarrow> load_byte (p + of_nat i) (hmm h) = Some c)" if p: "L p = Some xs" for p xs
    using l [OF p] reg(1,2) [of p] bs(2) c p by (fastforce simp: in_hand_def client_ok_def holds_def)
  moreover have "unat p + length xs \<le> unat q \<or> unat q + length ys \<le> unat p"
    if "L p = Some xs" "L q = Some ys" "p \<noteq> q" for p q xs ys
    using l [OF that(1)] l [OF that(2)] reg(4) [of p _ q] that(3) by fastforce
  moreover have "\<forall>(a, s, f) \<in> set bs. \<forall>p xs. L p = Some xs \<longrightarrow> unat a + 16 \<le> unat p \<or> unat p + length xs \<le> unat a"
    using l reg(5) by fastforce
  moreover have "\<forall>p \<in> dom L. free p h \<noteq> None" using free_client [OF c] by blast
  moreover have "store_byte (p + of_nat i) v (hmm h) \<noteq> None" if "L p = Some xs" "i < length xs" for p xs i v
    using store_client [OF c that] by auto
  moreover have "\<exists>h' p. malloc n h = Some (h', p) \<and> p \<noteq> 0 \<and> p \<notin> dom L" if "can_serve n h" for n
    using malloc_client [OF c that] by blast
  ultimately show ?thesis using heap_rep_walk [OF bs(1)] by (intro conjI) blast+
qed

lemma boot_heap_run: "heap_run boot_heap Map.empty"
proof -
  let ?h = "\<lparr>hmm = boot_mm, heap_end = 0, head = 0, headers = Map.empty\<rparr>"
  have f: "mm_ok (hmm ?h)" "32 \<le> card (free_pages (phys (hmm ?h)))" "0 \<notin> free_pages (phys (hmm ?h))"
    by (simp_all add: boot_mm_facts)
  from memory_init_rep [OF this] obtain h where "memory_init ?h = Some h" by blast
  then have "memory_init ?h = Some boot_heap" by (simp add: boot_heap_def)
  from heap_run.run_init [OF f this] show ?thesis .
qed

theorem heap_regions_independent_witness:
  "\<exists>h p. heap_run h [p \<mapsto> Some 65 # replicate 7 None] \<and> load_byte p (hmm h) = Some 65 \<and> 8 dvd unat p"
proof -
  have "\<exists>x \<in> set [(HEAP_VIRT_START, 65520, True)]. fits (unat (8 :: u32)) x" by (simp add: block_bytes_def)
  then have room: "can_serve 8 boot_heap" using heap_rep_walk [OF boot_heap_facts(1)] by (simp add: can_serve_def)
  from malloc_client [OF heap_run_ok [OF boot_heap_run] room] obtain h p where m: "malloc 8 boot_heap = Some (h, p)" by blast
  have r: "heap_run h [p \<mapsto> replicate 8 None]" using heap_run.run_malloc [OF boot_heap_run room m] by simp
  have x: "[p \<mapsto> replicate 8 None] p = Some (replicate 8 None)" "0 < length (replicate 8 (None :: byte option))" by simp_all
  from store_client [OF heap_run_ok [OF r] x, of 65] obtain m where
    "store_byte (p + of_nat 0) 65 (hmm h) = Some m" by blast
  moreover have "(replicate 8 None)[0 := Some 65] = Some (65 :: byte) # replicate 7 None" by (simp add: numeral_eq_Suc)
  ultimately have s: "heap_run (h\<lparr>hmm := m\<rparr>) [p \<mapsto> Some 65 # replicate 7 None]"
    using heap_run.run_store [OF r x, of 65 m] by (simp del: fun_upd_apply replicate.simps)
  let ?xs = "Some 65 # replicate 7 (None :: byte option)"
  have x0: "[p \<mapsto> ?xs] p = Some ?xs" "0 < length ?xs" "?xs ! 0 = Some 65" by simp_all
  then have "8 dvd unat p" "load_byte (p + of_nat 0) (hmm (h\<lparr>hmm := m\<rparr>)) = Some 65"
    using heap_regions_independent [OF s, THEN conjunct1] by blast+
  then show ?thesis using s by (intro exI [of _ "h\<lparr>hmm := m\<rparr>"] exI [of _ p]) simp
qed

end
